(* ===== verification/Prelude.thy ===== *)
theory Prelude
  imports Main "HOL-Library.Word" "HOL-Library.Sublist" "HOL-Library.Multiset"
    "HOL-Library.Monad_Syntax"
begin

unbundle bit_operations_syntax

section \<open>Shared types, formatting and arithmetic\<close>

text \<open>
  The machine types of the engine, byte strings, the decimal formatting that the code's
  \<^verbatim>\<open>format!\<close> calls use, and the generic lemmas the components share.
  Rust \<^verbatim>\<open>usize\<close> is 64 bits wide (the container image is built for a 64-bit target).
  A Rust panic is the value \<open>None\<close> of an option; a \<^verbatim>\<open>Result\<close> is a sum.
\<close>

type_synonym u8 = "8 word"
type_synonym u16 = "16 word"
type_synonym u32 = "32 word"
type_synonym u64 = "64 word"
type_synonym i64 = "64 word"
type_synonym usize = "64 word"
type_synonym bytes = "8 word list"

text \<open>Monotonic clock readings (\<^verbatim>\<open>Instant\<close>) and time spans (\<^verbatim>\<open>Duration\<close>), both in
  nanoseconds. \<^verbatim>\<open>Instant::duration_since\<close> and \<^verbatim>\<open>elapsed\<close> saturate at zero, as
  subtraction on \<^typ>\<open>nat\<close> does.\<close>

type_synonym instant = nat
type_synonym duration = nat

named_theorems wf_intros \<open>well-formedness of states after each operation\<close>
named_theorems frame_simps \<open>fields an operation leaves unchanged\<close>

subsection \<open>Checked indexing\<close>

definition nth_opt :: "'a list \<Rightarrow> nat \<Rightarrow> 'a option" where
  "nth_opt xs i = (if i < length xs then Some (xs ! i) else None)"

subsection \<open>Byte strings\<close>

definition bytes_of :: "string \<Rightarrow> bytes" where
  "bytes_of s = map of_char s"

lemma length_bytes_of [simp]: "length (bytes_of s) = length s"
  by (simp add: bytes_of_def)

lemma bytes_of_Nil [simp]: "bytes_of [] = []"
  by (simp add: bytes_of_def)

lemma bytes_of_Cons [simp]: "bytes_of (c # s) = of_char c # bytes_of s"
  by (simp add: bytes_of_def)

subsection \<open>Big-endian bytes of integers\<close>

definition u32_to_be_bytes :: "u32 \<Rightarrow> bytes" where
  "u32_to_be_bytes w =
     [ucast (drop_bit 24 w), ucast (drop_bit 16 w), ucast (drop_bit 8 w), ucast w]"

definition u16_to_be_bytes :: "u16 \<Rightarrow> bytes" where
  "u16_to_be_bytes w = [ucast (drop_bit 8 w), ucast w]"

subsection \<open>Decimal formatting\<close>

definition digit_char :: "nat \<Rightarrow> char" where
  "digit_char d = char_of (48 + d)"

fun show_nat :: "nat \<Rightarrow> string" where
  "show_nat n = (if n < 10 then [digit_char n] else show_nat (n div 10) @ [digit_char (n mod 10)])"

declare show_nat.simps [simp del]

text \<open>The reader that \<open>show_nat\<close> inverts; it specifies the format and models no code.\<close>

definition char_digit :: "char \<Rightarrow> nat" where
  "char_digit c = of_char c - 48"

definition read_nat :: "string \<Rightarrow> nat" where
  "read_nat s = foldl (\<lambda>n c. 10 * n + char_digit c) 0 s"

lemma of_char_digit_char: "d < 10 \<Longrightarrow> (of_char (digit_char d) :: nat) = 48 + d"
  by (simp add: digit_char_def)

lemma char_digit_char [simp]: "d < 10 \<Longrightarrow> char_digit (digit_char d) = d"
  by (simp add: char_digit_def of_char_digit_char)

lemma read_show_nat [simp]: "read_nat (show_nat n) = n"
proof (induction n rule: show_nat.induct)
  case (1 n)
  show ?case
  proof (cases "n < 10")
    case True
    then show ?thesis by (simp add: show_nat.simps [of n] read_nat_def)
  next
    case False
    with 1 show ?thesis by (simp add: show_nat.simps [of n] read_nat_def)
  qed
qed

lemma show_nat_inj: "show_nat m = show_nat n \<Longrightarrow> m = n"
  by (metis read_show_nat)

lemma show_nat_chars: "c \<in> set (show_nat n) \<Longrightarrow> 48 \<le> (of_char c :: nat) \<and> (of_char c :: nat) < 58"
proof (induction n rule: show_nat.induct)
  case (1 n)
  show ?case
  proof (cases "n < 10")
    case True
    with 1 show ?thesis by (simp add: show_nat.simps [of n] of_char_digit_char)
  next
    case False
    with 1 show ?thesis by (auto simp: show_nat.simps [of n] of_char_digit_char)
  qed
qed

text \<open>\<^verbatim>\<open>{:?}\<close> of a \<^verbatim>\<open>Duration\<close>: whole seconds, milliseconds, microseconds or nanoseconds with
  the fraction's trailing zeros dropped (the micro sign in UTF-8).\<close>

fun frac_digits :: "nat \<Rightarrow> nat \<Rightarrow> string" where
  "frac_digits 0 fr = []"
| "frac_digits (Suc n) fr =
     (if fr = 0 then [] else digit_char (fr div 10 ^ n) # frac_digits n (fr mod 10 ^ n))"

definition fmt_decimal :: "nat \<Rightarrow> nat \<Rightarrow> nat \<Rightarrow> string \<Rightarrow> string" where
  "fmt_decimal i fr n unit_name =
     show_nat i @ (if fr = 0 then [] else CHR ''.'' # frac_digits n fr) @ unit_name"

definition fmt_duration :: "duration \<Rightarrow> string" where
  "fmt_duration d =
     (let secs = d div 1000000000; nanos = d mod 1000000000
      in if 0 < secs then fmt_decimal secs nanos 9 ''s''
         else if 1000000 \<le> nanos then fmt_decimal (nanos div 1000000) (nanos mod 1000000) 6 ''ms''
         else if 1000 \<le> nanos then fmt_decimal (nanos div 1000) (nanos mod 1000) 3 [CHR 0xC2, CHR 0xB5, CHR ''s'']
         else fmt_decimal nanos 0 0 ''ns'')"

lemma fmt_duration_5s: "fmt_duration 5000000000 = ''5s''"
  by (simp add: fmt_duration_def fmt_decimal_def show_nat.simps [of 5] digit_char_def char_of_def) (simp add: bit_iff_odd)

subsection \<open>64-bit counters\<close>

lemma sint_small: 
  fixes a :: usize
  assumes "unat a < 2 ^ 63" 
  shows "sint a = int (unat a)"
proof -
  have "int (unat a) < int (2 ^ 63)" using assms by (simp only: of_nat_less_iff)
  then have "uint a < 2 ^ 63" by simp
  moreover have "- (2 ^ 63) \<le> uint a" by (rule order_trans [OF _ uint_ge_0]) simp
  ultimately have "signed_take_bit 63 (uint a) = uint a"
    by (intro signed_take_bit_int_eq_self)
  then show ?thesis by (simp add: sint_uint)
qed

lemma sint_diff_word:
  fixes a b :: usize
  assumes "unat a < 2 ^ 63" and "unat b < 2 ^ 63"
  shows "sint (a - b) = int (unat a) - int (unat b)"
proof -
  have "sint (a - b) = signed_take_bit 63 (int (unat a) - int (unat b))"
    by (simp add: sint_word_diff sint_small [OF assms(1)] sint_small [OF assms(2)])
  also have "\<dots> = int (unat a) - int (unat b)"
  proof (rule signed_take_bit_int_eq_self)
    have "int (unat a) < 2 ^ 63" "int (unat b) < 2 ^ 63"
      using assms by (metis of_nat_less_numeral_power_cancel_iff)+
    then show "- (2 ^ 63) \<le> int (unat a) - int (unat b)" "int (unat a) - int (unat b) < 2 ^ 63"
      by linarith+
  qed
  finally show ?thesis .
qed

lemma unat_and_mask:
  fixes a :: "'a::len word"
  shows "unat (a AND (2 ^ k - 1)) = unat a mod 2 ^ k"
proof -
  have "a AND (2 ^ k - 1) = take_bit k a"
    by (simp only: take_bit_eq_mask mask_eq_exp_minus_1)
  then have "unat (a AND (2 ^ k - 1)) = take_bit k (unat a)"
    by (simp only: unsigned_take_bit_eq)
  then show ?thesis by (simp only: take_bit_eq_mod)
qed

lemma unat_add_of_nat_mod:
  fixes a :: usize
  assumes "k \<le> 64"
  shows "unat (a + of_nat j) mod 2 ^ k = (unat a + j) mod 2 ^ k"
proof -
  have d: "(2::nat) ^ k dvd 2 ^ 64" using assms by (rule le_imp_power_dvd)
  have "unat (a + of_nat j) = (unat a + j) mod 2 ^ 64"
    by (simp add: unat_word_ariths(1) unat_of_nat mod_simps)
  then show ?thesis by (simp only: mod_mod_cancel [OF d])
qed

lemma unat_Suc_word:
  fixes a :: usize
  shows "unat a < 2 ^ 63 \<Longrightarrow> unat (a + 1) = unat a + 1"
  by (simp add: unat_word_ariths)

lemma mod_add_left_inj:
  fixes a :: nat
  assumes "i < m" "j < m" and "(a + i) mod m = (a + j) mod m"
  shows "i = j"
proof -
  have "i mod m = j mod m"
    using assms(3) by (simp add: nat_mod_eq_iff)
  with assms show ?thesis by simp
qed

end
