(* ===== verification/Models.thy ===== *)
theory Models
  imports Prelude
begin

unbundle bit_operations_syntax

section \<open>The data that flows through the engine\<close>

text \<open>
  \<^verbatim>\<open>engine/src/models.rs\<close>: network events, their flag test, the two FNV-1a hashes,
  dotted-quad formatting, and alerts.
\<close>

datatype Protocol = Tcp | Udp | Icmp

record NetworkEvent =
  timestamp_ms :: i64
  src_ip :: u32
  dst_ip :: u32
  src_port :: u16
  dst_port :: u16
  protocol :: Protocol
  flags :: u8
  payload_sample :: bytes

definition is_syn :: "NetworkEvent \<Rightarrow> bool" where
  "is_syn e \<longleftrightarrow> flags e AND 1 \<noteq> 0 \<and> flags e AND 2 = 0"

definition ip_to_string :: "u32 \<Rightarrow> string" where
  "ip_to_string ip =
     show_nat (unat (drop_bit 24 ip AND 0xFF)) @ ''.'' @
     show_nat (unat (drop_bit 16 ip AND 0xFF)) @ ''.'' @
     show_nat (unat (drop_bit 8 ip AND 0xFF)) @ ''.'' @
     show_nat (unat (ip AND 0xFF))"

definition src_ip_str :: "NetworkEvent \<Rightarrow> string" where
  "src_ip_str e = ip_to_string (src_ip e)"

definition dst_ip_str :: "NetworkEvent \<Rightarrow> string" where
  "dst_ip_str e = ip_to_string (dst_ip e)"

text \<open>The loop body both hashes share: \<open>h ^= b; h = h.wrapping_mul(prime)\<close>.\<close>

fun fnv_fold :: "u64 \<Rightarrow> bytes \<Rightarrow> u64" where
  "fnv_fold h [] = h"
| "fnv_fold h (b # bs) = fnv_fold ((h XOR ucast b) * 1099511628211) bs"

definition flow_key :: "NetworkEvent \<Rightarrow> u64" where
  "flow_key e = fnv_fold 1469598103934665603
     [ucast (drop_bit 24 (src_ip e)), ucast (drop_bit 16 (src_ip e)),
      ucast (drop_bit 8 (src_ip e)), ucast (src_ip e),
      ucast (drop_bit 24 (dst_ip e)), ucast (drop_bit 16 (dst_ip e)),
      ucast (drop_bit 8 (dst_ip e)), ucast (dst_ip e),
      ucast (drop_bit 8 (src_port e)), ucast (src_port e),
      ucast (drop_bit 8 (dst_port e)), ucast (dst_port e)]"

definition shard_key :: "NetworkEvent \<Rightarrow> u64" where
  "shard_key e = fnv_fold 1469598103934665603
     [ucast (drop_bit 24 (src_ip e)), ucast (drop_bit 16 (src_ip e)),
      ucast (drop_bit 8 (src_ip e)), ucast (src_ip e)]"

datatype Severity = Low | Medium | High | Critical

datatype DetectorKind = Signature | Anomaly | Cep

record Alert =
  alert_id :: u64
  alert_timestamp_ms :: i64
  rule_name :: string
  severity :: Severity
  alert_src_ip :: string
  alert_dst_ip :: string
  detail :: string
  detector :: DetectorKind

subsection \<open>Dotted quads\<close>

text \<open>The reader that \<open>ip_to_string\<close> inverts; it specifies the format and models no code.\<close>

fun split_on :: "char \<Rightarrow> string \<Rightarrow> string list" where
  "split_on c [] = [[]]"
| "split_on c (x # xs) =
     (if x = c then [] # split_on c xs
      else (case split_on c xs of [] \<Rightarrow> [[x]] | w # ws \<Rightarrow> (x # w) # ws))"

definition parse_ip :: "string \<Rightarrow> u32" where
  "parse_ip s = foldl (\<lambda>acc n. 256 * acc + of_nat n) 0 (map read_nat (split_on CHR ''.'' s))"

lemma split_on_no_sep: "c \<notin> set w \<Longrightarrow> split_on c w = [w]"
  by (induction w) auto

lemma split_on_sep: "c \<notin> set w \<Longrightarrow> split_on c (w @ c # s) = w # split_on c s"
  by (induction w) auto

lemma dot_not_in_show_nat: "CHR ''.'' \<notin> set (show_nat n)"
  using show_nat_chars [of "CHR ''.''" n] by auto

lemma octets_recombine:
  fixes ip :: u32
  shows "256 * (256 * (256 * (drop_bit 24 ip AND 0xFF) + (drop_bit 16 ip AND 0xFF)) + (drop_bit 8 ip AND 0xFF))
     + (ip AND 0xFF) = ip"
proof -
  let ?n = "unat ip"
  have oct: "drop_bit k ip AND 0xFF = of_nat (?n div 2 ^ k mod 256)" for k
  proof -
    have "unat (drop_bit k ip AND (2 ^ 8 - 1)) = ?n div 2 ^ k mod 2 ^ 8"
      by (subst unat_and_mask, subst unat_drop_bit_eq) (simp only: drop_bit_eq_div)
    then have "unat (drop_bit k ip AND 0xFF) = ?n div 2 ^ k mod 256" by simp
    then have "of_nat (unat (drop_bit k ip AND 0xFF)) = (of_nat (?n div 2 ^ k mod 256) :: u32)" by (rule arg_cong)
    then show ?thesis by (simp only: of_nat_unat ucast_id)
  qed
  define a b c where "a = ?n div 2 ^ 8" and "b = a div 2 ^ 8" and "c = b div 2 ^ 8"
  have "?n div 2 ^ 16 = b" "?n div 2 ^ 24 = c" by (simp_all add: a_def b_def c_def flip: div_mult2_eq)
  moreover have "?n < 2 ^ 32" using unsigned_less [of ip] by simp
  then have "c < 256" unfolding a_def b_def c_def by (simp add: less_mult_imp_div_less flip: div_mult2_eq)
  moreover have "?n = 256 * a + ?n mod 256" "a = 256 * b + a mod 256" "b = 256 * c + b mod 256"
    by (simp_all add: a_def b_def c_def)
  ultimately have "256 * (256 * (256 * (?n div 2 ^ 24 mod 256) + ?n div 2 ^ 16 mod 256) + ?n div 2 ^ 8 mod 256)
      + ?n mod 256 = ?n"
    by (simp only: a_def [symmetric] mod_less)
  then have "of_nat (256 * (256 * (256 * (?n div 2 ^ 24 mod 256) + ?n div 2 ^ 16 mod 256) + ?n div 2 ^ 8 mod 256)
      + ?n mod 256) = (of_nat ?n :: u32)" by (simp only:)
  moreover have "ip AND 0xFF = of_nat (?n mod 256)" using oct [of 0] by simp
  ultimately show ?thesis by (simp only: oct of_nat_add of_nat_mult of_nat_numeral of_nat_unat ucast_id)
qed

lemma parse_dotted_quad: "parse_ip (ip_to_string ip) = ip"
proof -
  have "split_on CHR ''.'' (ip_to_string ip) =
      [show_nat (unat (drop_bit 24 ip AND 0xFF)), show_nat (unat (drop_bit 16 ip AND 0xFF)),
       show_nat (unat (drop_bit 8 ip AND 0xFF)), show_nat (unat (ip AND 0xFF))]"
    by (simp add: ip_to_string_def split_on_sep split_on_no_sep dot_not_in_show_nat)
  then have "parse_ip (ip_to_string ip) =
     256 * (256 * (256 * (drop_bit 24 ip AND 0xFF) + (drop_bit 16 ip AND 0xFF)) + (drop_bit 8 ip AND 0xFF))
     + (ip AND 0xFF)"
    by (simp add: parse_ip_def)
  then show ?thesis by (simp only: octets_recombine)
qed

lemma ip_to_string_inj: "ip_to_string a = ip_to_string b \<longleftrightarrow> a = b"
  by (metis parse_dotted_quad)

text \<open>
  C33: The dotted quads that alerts carry determine the address: reading back the text of an
  address (of an event's source and destination address likewise) gives the address, so two
  different sources never appear under one name in an alert.
\<close>

theorem parse_ip_to_string:
  "parse_ip (ip_to_string ip) = ip \<and> parse_ip (src_ip_str e) = src_ip e \<and> parse_ip (dst_ip_str e) = dst_ip e"
  by (simp add: parse_dotted_quad src_ip_str_def dst_ip_str_def)

subsection \<open>FNV-1a\<close>

lemma fnv_step_inj_state: "((h :: u64) XOR b) * 1099511628211 = (h' XOR b) * 1099511628211 \<longleftrightarrow> h = h'"
proof
  assume "(h XOR b) * 1099511628211 = (h' XOR b) * 1099511628211"
  then have "(h XOR b) * 1099511628211 * 14886173955864302971 = (h' XOR b) * 1099511628211 * 14886173955864302971" by (rule arg_cong)
  moreover have "(1099511628211 :: u64) * 14886173955864302971 = 1" by simp
  ultimately have "h XOR b = h' XOR b" by (simp only: mult.assoc mult_1_right)
  then have "(h XOR b) XOR b = (h' XOR b) XOR b" by (rule arg_cong)
  then show "h = h'" by (simp add: xor.assoc)
qed simp

lemma fnv_fold_append: "fnv_fold h (xs @ ys) = fnv_fold (fnv_fold h xs) ys"
  by (induction xs arbitrary: h) auto


lemma fnv_fold_inj_state: "fnv_fold h bs = fnv_fold h' bs \<longleftrightarrow> h = h'"
  by (induction bs arbitrary: h h') (simp_all add: fnv_step_inj_state)

lemma xor_byte_inj: "(h :: u64) XOR ucast (b :: u8) = h XOR ucast b' \<longleftrightarrow> b = b'"
proof
  assume "h XOR ucast b = h XOR ucast b'"
  then have "h XOR (h XOR ucast b) = h XOR (h XOR ucast b')" by (rule arg_cong)
  then have "ucast b = (ucast b' :: u64)" by (simp flip: xor.assoc)
  then have "(ucast (ucast b :: u64) :: u8) = ucast (ucast b' :: u64)" by (rule arg_cong)
  then show "b = b'" by (simp add: ucast_up_ucast_id is_up)
qed simp

lemma fnv_step_inj_byte:
  "((h :: u64) XOR ucast (b :: u8)) * 1099511628211 = (h XOR ucast b') * 1099511628211 \<longleftrightarrow> b = b'"
  using fnv_step_inj_state [of "h XOR ucast b" 0 "h XOR ucast b'"] by (simp add: xor_byte_inj)

text \<open>Changing one byte of the input always changes the hash.\<close>

lemma fnv_fold_one_byte: "fnv_fold h (xs @ b # ys) = fnv_fold h (xs @ b' # ys) \<longleftrightarrow> b = b'"
  by (simp add: fnv_fold_append fnv_fold_inj_state fnv_step_inj_byte)

lemma u16_eq_bytes:
  fixes p q :: u16
  assumes "drop_bit 8 p = drop_bit 8 q" and "(ucast p :: u8) = ucast q"
  shows "p = q"
proof (rule bit_word_eqI)
  fix n
  assume n: "n < LENGTH(16)"
  show "bit p n \<longleftrightarrow> bit q n"
  proof (cases "n < 8")
    case True
    from assms(2) have "bit (ucast p :: u8) n \<longleftrightarrow> bit (ucast q :: u8) n" by simp
    with True show ?thesis by (simp add: bit_ucast_iff)
  next
    case False
    from assms(1) have "bit (drop_bit 8 p) (n - 8) \<longleftrightarrow> bit (drop_bit 8 q) (n - 8)" by simp
    with False show ?thesis by (simp only: bit_drop_bit_eq comp_apply) simp
  qed
qed

text \<open>
  The stated reason for sharding by source address. Changing only the low byte of the
  source port of a packet never changes its shard key, and always changes its flow key, so a
  sender that walks through the ports of one 256-port page keeps one shard key and gets
  pairwise different flow keys.
\<close>

theorem keys_under_varying_source_port:
  assumes "drop_bit 8 p = drop_bit 8 (src_port e)"
  shows "shard_key (e\<lparr>src_port := p\<rparr>) = shard_key e \<and>
    (flow_key (e\<lparr>src_port := p\<rparr>) = flow_key e \<longleftrightarrow> p = src_port e)"
proof -
  let ?f = "\<lambda>q :: u16. fnv_fold 1469598103934665603
     ([ucast (drop_bit 24 (src_ip e)), ucast (drop_bit 16 (src_ip e)),
      ucast (drop_bit 8 (src_ip e)), ucast (src_ip e),
      ucast (drop_bit 24 (dst_ip e)), ucast (drop_bit 16 (dst_ip e)),
      ucast (drop_bit 8 (dst_ip e)), ucast (dst_ip e), ucast (drop_bit 8 (src_port e))] @ ucast q #
      [ucast (drop_bit 8 (dst_port e)), ucast (dst_port e)])"
  have sel: "src_ip (e\<lparr>src_port := p\<rparr>) = src_ip e" "dst_ip (e\<lparr>src_port := p\<rparr>) = dst_ip e"
    "src_port (e\<lparr>src_port := p\<rparr>) = p" "dst_port (e\<lparr>src_port := p\<rparr>) = dst_port e"
    by simp_all
  have f: "flow_key (e\<lparr>src_port := p\<rparr>) = ?f p" "flow_key e = ?f (src_port e)"
    unfolding flow_key_def append.simps by (simp_all only: sel assms)
  have "?f p = ?f (src_port e) \<longleftrightarrow> (ucast p :: u8) = ucast (src_port e)"
    by (rule fnv_fold_one_byte)
  also have "\<dots> \<longleftrightarrow> p = src_port e" using u16_eq_bytes [OF assms] by auto
  finally show ?thesis unfolding f by (simp only: shard_key_def sel simp_thms)
qed

text \<open>
  A packet from 192.168.0.10:40001 and the same packet sent from port 40002.
\<close>

theorem keys_under_varying_source_port_witness:
  "shard_key (\<lparr>timestamp_ms = 0, src_ip = 0xC0A8000A, dst_ip = 0xC6336405, src_port = 40001, dst_port = 443,
     protocol = Tcp, flags = 1, payload_sample = []\<rparr>\<lparr>src_port := 40002\<rparr>) =
   shard_key \<lparr>timestamp_ms = 0, src_ip = 0xC0A8000A, dst_ip = 0xC6336405, src_port = 40001, dst_port = 443,
     protocol = Tcp, flags = 1, payload_sample = []\<rparr>"
  by (rule conjunct1 [OF keys_under_varying_source_port]) simp

text \<open>The low two bits of the hash, which select one of four workers, depend only on the low two
  bits of each byte.\<close>

lemma take_bit_2_ucast:
  assumes "(b :: u8) AND 3 = b' AND 3"
  shows "take_bit 2 (ucast b :: u64) = take_bit 2 (ucast b')"
proof -
  have m: "(3 :: u8) = mask 2" by (simp add: mask_eq_exp_minus_1)
  have "take_bit 2 b = take_bit 2 b'" using assms by (simp only: m take_bit_eq_mask)
  then have "(ucast (take_bit 2 b) :: u64) = ucast (take_bit 2 b')" by (rule arg_cong)
  then show ?thesis by (simp only: unsigned_take_bit_eq)
qed

lemma take_bit_2_mult: "take_bit 2 ((a :: u64) * p) = take_bit 2 (take_bit 2 a * p)"
proof -
  have d: "(2::nat) ^ 2 dvd 2 ^ LENGTH(64)" by (rule le_imp_power_dvd) simp
  have t: "unat (take_bit 2 (x * p)) = unat x * unat p mod 2 ^ 2" for x :: u64
    by (simp only: unsigned_take_bit_eq take_bit_eq_mod [where 'a = nat] unat_word_ariths(2) mod_mod_cancel [OF d])
  have "unat (take_bit 2 a) = unat a mod 2 ^ 2"
    by (simp only: unsigned_take_bit_eq take_bit_eq_mod [where 'a = nat])
  then have "unat (take_bit 2 (a * p)) = unat (take_bit 2 (take_bit 2 a * p))"
    by (simp only: t mod_mult_left_eq)
  then show ?thesis by (simp only: word_unat_eq_iff)
qed

lemma take_bit_fnv_fold:
  assumes "list_all2 (\<lambda>b b'. b AND 3 = b' AND (3 :: u8)) bs bs'" and "take_bit 2 h = take_bit 2 h'"
  shows "take_bit 2 (fnv_fold h bs) = take_bit 2 (fnv_fold h' bs')"
  using assms
proof (induction bs bs' arbitrary: h h' rule: list_all2_induct)
  case (Cons b bs b' bs')
  have "take_bit 2 (ucast b :: u64) = take_bit 2 (ucast b')" by (rule take_bit_2_ucast) fact
  with Cons.prems have x: "take_bit 2 (h XOR ucast b) = take_bit 2 (h' XOR ucast b')"
    by (simp only: take_bit_xor)
  have "take_bit 2 ((h XOR ucast b) * 1099511628211) = take_bit 2 ((h' XOR ucast b') * 1099511628211)"
    by (subst (1 2) take_bit_2_mult) (simp only: x)
  then show ?case unfolding fnv_fold.simps by (rule Cons.IH)
qed (simp only: fnv_fold.simps)

lemma byte_low_bits:
  assumes "k \<in> {0, 8, 16, 24}" and "(a :: u32) AND 0x03030303 = b AND 0x03030303"
  shows "(ucast (drop_bit k a) :: u8) AND 3 = ucast (drop_bit k b) AND 3"
proof -
  have m: "bit (0x03030303 :: u32) (k + n)" if "n < 2" for n
    using assms(1) that by (auto simp: less_2_cases_iff bit_iff_odd simp del: One_nat_def)
  have "bit a (k + n) = bit b (k + n)" if "n < 2" for n
    using arg_cong [OF assms(2), of "\<lambda>w. bit w (k + n)"] m [OF that] by (simp add: bit_and_iff)
  then have "(ucast (drop_bit k a) :: u8) AND mask 2 = ucast (drop_bit k b) AND mask 2"
    by (intro bit_word_eqI) (auto simp: bit_and_iff bit_mask_iff bit_simps)
  moreover have "(3 :: u8) = mask 2" by (simp add: mask_eq_exp_minus_1)
  ultimately show ?thesis by (simp only:)
qed

lemma shard_key_low_bits:
  assumes "src_ip e AND 0x03030303 = src_ip e' AND 0x03030303"
  shows "unat (shard_key e) mod 4 = unat (shard_key e') mod 4"
proof -
  have "list_all2 (\<lambda>b b'. b AND 3 = b' AND (3 :: u8))
      [ucast (drop_bit 24 (src_ip e)), ucast (drop_bit 16 (src_ip e)), ucast (drop_bit 8 (src_ip e)), ucast (src_ip e)]
      [ucast (drop_bit 24 (src_ip e')), ucast (drop_bit 16 (src_ip e')), ucast (drop_bit 8 (src_ip e')), ucast (src_ip e')]"
    using byte_low_bits [OF _ assms] byte_low_bits [OF _ assms, of 0] by simp
  from take_bit_fnv_fold [OF this refl] have "take_bit 2 (shard_key e) = take_bit 2 (shard_key e')"
    unfolding shard_key_def .
  then have "unat (take_bit 2 (shard_key e)) = unat (take_bit 2 (shard_key e'))" by (rule arg_cong)
  then show ?thesis unfolding unsigned_take_bit_eq by (simp add: take_bit_eq_mod)
qed

end
