(* ===== verification/MpmcQueue.thy ===== *)
theory MpmcQueue
  imports Prelude
begin

unbundle bit_operations_syntax

section \<open>The bounded MPMC ring buffer\<close>

text \<open>
  \<^verbatim>\<open>engine/src/queue.rs\<close>. Every atomic access of \<^verbatim>\<open>push\<close> and \<^verbatim>\<open>pop\<close> is one
  equation of \<open>push_step\<close> and \<open>pop_step\<close>, so that the sequential runs of this theory and
  the interleavings of \<^verbatim>\<open>QueueConcurrent\<close> execute the same code. Counters are 64-bit
  words: \<open>+\<close> wraps, as in the release build the project ships.
\<close>

record 'a Slot =
  sequence :: usize
  slot_value :: "'a option"

record 'a MpmcQueue =
  buffer :: "'a Slot list"
  mask :: usize
  enqueue_pos :: usize
  dequeue_pos :: usize

definition is_power_of_two :: "usize \<Rightarrow> bool" where
  "is_power_of_two n \<longleftrightarrow> (\<exists>k \<in> set [0..<64]. unat n = 2 ^ k)"

text \<open>\<^verbatim>\<open>MpmcQueue::new\<close>; \<open>None\<close> is the failed assertion.\<close>

definition queue_new :: "usize \<Rightarrow> 'a MpmcQueue option" where
  "queue_new capacity =
     (if is_power_of_two capacity
      then Some \<lparr>buffer = map (\<lambda>i. \<lparr>sequence = of_nat i, slot_value = None\<rparr>) [0..<unat capacity],
                 mask = capacity - 1, enqueue_pos = 0, dequeue_pos = 0\<rparr>
      else None)"

subsection \<open>Atomic steps\<close>

text \<open>\<open>self.buffer[pos & self.mask]\<close>: the index, and the bounds-checked access.\<close>

definition slot_index :: "'a MpmcQueue \<Rightarrow> usize \<Rightarrow> nat" where
  "slot_index q pos = unat (pos AND mask q)"

definition slot_at :: "'a MpmcQueue \<Rightarrow> usize \<Rightarrow> 'a Slot option" where
  "slot_at q pos = (if slot_index q pos < length (buffer q)
                    then Some (buffer q ! slot_index q pos) else None)"

definition set_sequence :: "'a MpmcQueue \<Rightarrow> usize \<Rightarrow> usize \<Rightarrow> 'a MpmcQueue" where
  "set_sequence q pos v =
     q\<lparr>buffer := (buffer q)[slot_index q pos := (buffer q ! slot_index q pos)\<lparr>sequence := v\<rparr>]\<rparr>"

definition set_value :: "'a MpmcQueue \<Rightarrow> usize \<Rightarrow> 'a option \<Rightarrow> 'a MpmcQueue" where
  "set_value q pos v =
     q\<lparr>buffer := (buffer q)[slot_index q pos := (buffer q ! slot_index q pos)\<lparr>slot_value := v\<rparr>]\<rparr>"

text \<open>\<open>a as isize - b as isize\<close>.\<close>

definition seq_diff :: "usize \<Rightarrow> usize \<Rightarrow> int" where
  "seq_diff a b = sint (a - b)"

text \<open>
  Program points of \<open>push\<close>: before loading \<open>enqueue_pos\<close>, before loading the slot's
  \<open>sequence\<close>, before the compare-exchange, before the write of the value, before the store
  of the sequence, returned (\<open>Inl item\<close> is \<open>Err(item)\<close>), or panicked on the slot index.
\<close>

datatype 'a push_pc =
    PushLoad 'a
  | PushSeq 'a usize
  | PushCas 'a usize
  | PushWrite 'a usize
  | PushStore usize
  | PushDone "'a + unit"
  | PushPanic

text \<open>One atomic step. The flag is the spurious failure \<open>compare_exchange_weak\<close> may report.\<close>

fun push_step :: "bool \<Rightarrow> 'a MpmcQueue \<Rightarrow> 'a push_pc \<Rightarrow> 'a MpmcQueue \<times> 'a push_pc" where
  "push_step spurious q (PushLoad item) = (q, PushSeq item (enqueue_pos q))"
| "push_step spurious q (PushSeq item pos) =
     (case slot_at q pos of
        None \<Rightarrow> (q, PushPanic)
      | Some slot \<Rightarrow>
          (let diff = seq_diff (sequence slot) pos in
           if diff = 0 then (q, PushCas item pos)
           else if diff < 0 then (q, PushDone (Inl item))
           else (q, PushLoad item)))"
| "push_step spurious q (PushCas item pos) =
     (if enqueue_pos q = pos \<and> \<not> spurious
      then (q\<lparr>enqueue_pos := pos + 1\<rparr>, PushWrite item pos)
      else (q, PushSeq item (enqueue_pos q)))"
| "push_step spurious q (PushWrite item pos) = (set_value q pos (Some item), PushStore pos)"
| "push_step spurious q (PushStore pos) = (set_sequence q pos (pos + 1), PushDone (Inr ()))"
| "push_step spurious q (PushDone r) = (q, PushDone r)"
| "push_step spurious q PushPanic = (q, PushPanic)"

datatype 'a pop_pc =
    PopLoad
  | PopSeq usize
  | PopCas usize
  | PopTake usize
  | PopStore usize "'a option"
  | PopDone "'a option"
  | PopPanic

fun pop_step :: "bool \<Rightarrow> 'a MpmcQueue \<Rightarrow> 'a pop_pc \<Rightarrow> 'a MpmcQueue \<times> 'a pop_pc" where
  "pop_step spurious q PopLoad = (q, PopSeq (dequeue_pos q))"
| "pop_step spurious q (PopSeq pos) =
     (case slot_at q pos of
        None \<Rightarrow> (q, PopPanic)
      | Some slot \<Rightarrow>
          (let diff = seq_diff (sequence slot) (pos + 1) in
           if diff = 0 then (q, PopCas pos)
           else if diff < 0 then (q, PopDone None)
           else (q, PopLoad)))"
| "pop_step spurious q (PopCas pos) =
     (if dequeue_pos q = pos \<and> \<not> spurious
      then (q\<lparr>dequeue_pos := pos + 1\<rparr>, PopTake pos)
      else (q, PopSeq (dequeue_pos q)))"
| "pop_step spurious q (PopTake pos) =
     (set_value q pos None, PopStore pos (slot_value (buffer q ! slot_index q pos)))"
| "pop_step spurious q (PopStore pos item) =
     (set_sequence q pos (pos + mask q + 1), PopDone item)"
| "pop_step spurious q (PopDone r) = (q, PopDone r)"
| "pop_step spurious q PopPanic = (q, PopPanic)"

subsection \<open>Uninterrupted runs\<close>

text \<open>
  The loops, run by one thread while no other touches the queue. \<open>None\<close> is a panic or a run
  longer than the fuel. Each compare-exchange consumes one flag of the list; when the list is
  exhausted there are no more spurious failures.
\<close>

fun push_run :: "nat \<Rightarrow> bool list \<Rightarrow> 'a MpmcQueue \<Rightarrow> 'a push_pc
    \<Rightarrow> ('a MpmcQueue \<times> ('a + unit)) option" where
  "push_run fuel fs q (PushDone r) = Some (q, r)"
| "push_run fuel fs q PushPanic = None"
| "push_run 0 fs q pc = None"
| "push_run (Suc fuel) fs q (PushCas item pos) =
     (case fs of
        [] \<Rightarrow> (case push_step False q (PushCas item pos) of (q', pc') \<Rightarrow> push_run fuel [] q' pc')
      | f # fs' \<Rightarrow> (case push_step f q (PushCas item pos) of (q', pc') \<Rightarrow> push_run fuel fs' q' pc'))"
| "push_run (Suc fuel) fs q pc = (case push_step False q pc of (q', pc') \<Rightarrow> push_run fuel fs q' pc')"

fun pop_run :: "nat \<Rightarrow> bool list \<Rightarrow> 'a MpmcQueue \<Rightarrow> 'a pop_pc
    \<Rightarrow> ('a MpmcQueue \<times> 'a option) option" where
  "pop_run fuel fs q (PopDone r) = Some (q, r)"
| "pop_run fuel fs q PopPanic = None"
| "pop_run 0 fs q pc = None"
| "pop_run (Suc fuel) fs q (PopCas pos) =
     (case fs of
        [] \<Rightarrow> (case pop_step False q (PopCas pos) of (q', pc') \<Rightarrow> pop_run fuel [] q' pc')
      | f # fs' \<Rightarrow> (case pop_step f q (PopCas pos) of (q', pc') \<Rightarrow> pop_run fuel fs' q' pc'))"
| "pop_run (Suc fuel) fs q pc = (case pop_step False q pc of (q', pc') \<Rightarrow> pop_run fuel fs q' pc')"

text \<open>\<open>push\<close> and \<open>pop\<close> without spurious failures: five steps are enough (proved below).\<close>

definition push :: "'a MpmcQueue \<Rightarrow> 'a \<Rightarrow> ('a MpmcQueue \<times> ('a + unit)) option" where
  "push q item = push_run 5 [] q (PushLoad item)"

definition pop :: "'a MpmcQueue \<Rightarrow> ('a MpmcQueue \<times> 'a option) option" where
  "pop q = pop_run 5 [] q PopLoad"

subsection \<open>The invariant between operations\<close>

text \<open>
  \<open>queue_ok k q\<close>: a quiescent queue of capacity \<open>2 ^ k\<close>. Offsets are counted from
  \<open>dequeue_pos\<close> with the wrap-around of the counters, so the invariant needs no bound on the
  number of operations. \<open>queue_list\<close> reads the stored items in order.
\<close>

definition queue_length :: "'a MpmcQueue \<Rightarrow> nat" where
  "queue_length q = unat (enqueue_pos q - dequeue_pos q)"

definition queue_list :: "'a MpmcQueue \<Rightarrow> 'a list" where
  "queue_list q = map (\<lambda>j. the (slot_value (buffer q ! slot_index q (dequeue_pos q + of_nat j))))
     [0..<queue_length q]"

definition queue_ok :: "nat \<Rightarrow> 'a MpmcQueue \<Rightarrow> bool" where
  "queue_ok k q \<longleftrightarrow>
     k \<le> 63 \<and> length (buffer q) = 2 ^ k \<and> mask q = 2 ^ k - 1 \<and> queue_length q \<le> 2 ^ k \<and>
     (\<forall>j < 2 ^ k. let slot = buffer q ! slot_index q (dequeue_pos q + of_nat j) in
        if j < queue_length q
        then sequence slot = dequeue_pos q + of_nat j + 1 \<and> slot_value slot \<noteq> None
        else sequence slot = dequeue_pos q + of_nat j \<and> slot_value slot = None)"

lemma slot_index_mod: "queue_ok k q \<Longrightarrow> slot_index q pos = unat pos mod 2 ^ k"
  by (simp add: queue_ok_def slot_index_def unat_and_mask)

lemma slot_index_offset:
  "queue_ok k q \<Longrightarrow> slot_index q (dequeue_pos q + of_nat j) = (unat (dequeue_pos q) + j) mod 2 ^ k"
  by (simp add: slot_index_mod, subst unat_add_of_nat_mod) (simp_all add: queue_ok_def)

lemma enqueue_pos_offset: "enqueue_pos q = dequeue_pos q + of_nat (queue_length q)"
  by (simp add: queue_length_def)

lemma is_power_of_twoE:
  assumes "is_power_of_two n"
  obtains k where "k \<le> 63" and "unat n = 2 ^ k" and "n = 2 ^ k"
proof -
  from assms obtain k where "k < 64" "unat n = 2 ^ k" by (auto simp: is_power_of_two_def)
  moreover have "n = of_nat (unat n)" by simp
  then have "n = 2 ^ k" unfolding \<open>unat n = 2 ^ k\<close> by simp
  ultimately show ?thesis using that [of k] by auto
qed

lemma queue_new_ok:
  assumes "queue_new c = Some q"
  shows "\<exists>k. unat c = 2 ^ k \<and> queue_ok k q \<and> queue_list q = []"
proof -
  from assms have p: "is_power_of_two c" 
    and q: "q = \<lparr>buffer = map (\<lambda>i. \<lparr>sequence = of_nat i, slot_value = None\<rparr>) [0..<unat c],
                 mask = c - 1, enqueue_pos = 0, dequeue_pos = 0\<rparr>"
    by (auto simp: queue_new_def split: if_splits)
  from p obtain k where k: "k \<le> 63" "unat c = 2 ^ k" "c = 2 ^ k" by (rule is_power_of_twoE)
  have idx: "slot_index q (of_nat j) = j" if "j < 2 ^ k" for j
  proof -
    have "slot_index q (of_nat j) = unat (of_nat j :: usize) mod 2 ^ k"
      using k by (simp add: q slot_index_def unat_and_mask)
    also have "\<dots> = j mod 2 ^ k" using unat_add_of_nat_mod [of k 0 j] k by simp
    finally show ?thesis using that by simp
  qed
  have "queue_ok k q"
    using k idx by (simp add: queue_ok_def queue_length_def q)
  moreover have "queue_list q = []" by (simp add: queue_list_def queue_length_def q)
  ultimately show ?thesis using k by blast
qed

lemma queue_ok_slot:
  assumes "queue_ok k q" "j < 2 ^ k"
  shows "slot_at q (dequeue_pos q + of_nat j) = Some (buffer q ! slot_index q (dequeue_pos q + of_nat j))"
  using assms by (simp add: slot_at_def slot_index_mod) (simp add: queue_ok_def)

lemma slot_enqueue_free:
  assumes "queue_ok k q" "queue_length q < 2 ^ k"
  shows "\<exists>s. slot_at q (enqueue_pos q) = Some s \<and> sequence s = enqueue_pos q"
  using assms queue_ok_slot [OF assms] 
  by (simp add: queue_ok_def Let_def enqueue_pos_offset [of q]) 

lemma slot_index_full:
  assumes "queue_ok k q" "queue_length q = 2 ^ k"
  shows "slot_index q (enqueue_pos q) = slot_index q (dequeue_pos q)"
  using slot_index_offset [OF assms(1), of "2 ^ k"] slot_index_offset [OF assms(1), of 0] assms(2)
  by (simp add: enqueue_pos_offset [of q])

lemma slot_enqueue_full:
  assumes ok: "queue_ok k q" and full: "queue_length q = 2 ^ k" 
  shows "\<exists>s. slot_at q (enqueue_pos q) = Some s \<and> sequence s = dequeue_pos q + 1"
proof -
  have "slot_at q (enqueue_pos q) = slot_at q (dequeue_pos q + of_nat 0)"
    by (simp add: slot_at_def slot_index_full [OF ok full])
  moreover have "sequence (buffer q ! slot_index q (dequeue_pos q + of_nat 0)) = dequeue_pos q + of_nat 0 + 1"
    using ok full by (auto simp: queue_ok_def Let_def dest: spec [of _ 0])
  ultimately show ?thesis using queue_ok_slot [OF ok, of 0] by simp
qed

lemma seq_diff_self [simp]: "seq_diff a a = 0"
  by (simp add: seq_diff_def)

lemma seq_diff_full:
  assumes ok: "queue_ok k q" and "1 \<le> k" and full: "queue_length q = 2 ^ k"
  shows "seq_diff (dequeue_pos q + 1) (enqueue_pos q) < 0"
proof -
  have k: "k \<le> 63" using ok by (simp add: queue_ok_def)
  have "enqueue_pos q = dequeue_pos q + 2 ^ k"
    using enqueue_pos_offset [of q] full by simp
  then have "dequeue_pos q + 1 - enqueue_pos q = - (2 ^ k - 1)" by simp
  moreover have "sint (- (2 ^ k - 1 :: usize)) < 0"
  proof -
    have "of_nat (2 ^ k - 1) = (2 ^ k - 1 :: usize)" by (simp add: of_nat_diff)
    moreover have lt: "(2::nat) ^ k - 1 < 2 ^ 63"
      using power_increasing [OF k, of "2::nat"] by (simp add: less_imp_diff_less)
    ultimately have u: "unat (2 ^ k - 1 :: usize) = 2 ^ k - 1"
      
      using unat_of_nat [of "2 ^ k - 1", where 'a = 64] lt by simp
    have "sint (0 - (2 ^ k - 1) :: usize) = 0 - int (2 ^ k - 1)"
      using sint_diff_word [of 0 "2 ^ k - 1"] u lt by simp
    moreover have "(2::int) ^ k > 1" using assms(2) one_less_power [of "2::int" k] by simp
    ultimately show ?thesis by simp
  qed
  ultimately show ?thesis by (simp only: seq_diff_def)
qed

definition pushed :: "'a MpmcQueue \<Rightarrow> 'a \<Rightarrow> 'a MpmcQueue" where
  "pushed q x = q\<lparr>buffer := (buffer q)[slot_index q (enqueue_pos q) :=
       \<lparr>sequence = enqueue_pos q + 1, slot_value = Some x\<rparr>], enqueue_pos := enqueue_pos q + 1\<rparr>"

definition popped :: "'a MpmcQueue \<Rightarrow> 'a MpmcQueue" where
  "popped q = q\<lparr>buffer := (buffer q)[slot_index q (dequeue_pos q) :=
       \<lparr>sequence = dequeue_pos q + mask q + 1, slot_value = None\<rparr>], dequeue_pos := dequeue_pos q + 1\<rparr>"

lemma slot_update_both: "s\<lparr>slot_value := v, sequence := w\<rparr> = \<lparr>sequence = w, slot_value = v\<rparr>"
  for s :: "'a Slot"
  by (cases s) simp

lemma pushed_steps:
  "queue_ok k q \<Longrightarrow> pushed q x =
     set_sequence (set_value (q\<lparr>enqueue_pos := enqueue_pos q + 1\<rparr>) (enqueue_pos q) (Some x))
       (enqueue_pos q) (enqueue_pos q + 1)"
  by (cases q) (simp add: pushed_def set_sequence_def set_value_def slot_index_def queue_ok_def
      unat_and_mask slot_update_both)

lemma popped_steps:
  "queue_ok k q \<Longrightarrow> popped q =
     set_sequence (set_value (q\<lparr>dequeue_pos := dequeue_pos q + 1\<rparr>) (dequeue_pos q) None)
       (dequeue_pos q) (dequeue_pos q + mask q + 1)"
  by (cases q) (simp add: popped_def set_sequence_def set_value_def slot_index_def queue_ok_def
      unat_and_mask slot_update_both)

lemma slot_offset_inj:
  assumes "queue_ok k q" "i < 2 ^ k" "j < 2 ^ k"
  shows "slot_index q (dequeue_pos q + of_nat i) = slot_index q (dequeue_pos q + of_nat j) \<longleftrightarrow> i = j"
  using assms mod_add_left_inj [of i "2 ^ k" j "unat (dequeue_pos q)"]
  by (auto simp: slot_index_offset)

lemma queue_length_bound: "queue_ok k q \<Longrightarrow> queue_length q \<le> 2 ^ k \<and> (2::nat) ^ k \<le> 2 ^ 63"
  by (simp add: queue_ok_def power_increasing del: power_numeral)

lemma pushed_length:
  assumes ok: "queue_ok k q" and n: "queue_length q < 2 ^ k"
  shows "queue_length (pushed q x) = queue_length q + 1"
proof -
  have "unat (enqueue_pos q - dequeue_pos q) < 2 ^ 63"
    using n queue_length_bound [OF ok] unfolding queue_length_def by linarith
  then have "unat (enqueue_pos q - dequeue_pos q + 1) = unat (enqueue_pos q - dequeue_pos q) + 1"
    by (rule unat_Suc_word)
  then show ?thesis by (simp add: queue_length_def pushed_def algebra_simps)
qed

lemma slot_index_pushed [simp]: "slot_index (pushed q x) = slot_index q"
  by (rule ext) (simp add: slot_index_def pushed_def)

lemma slot_index_popped [simp]: "slot_index (popped q) = slot_index q"
  by (rule ext) (simp add: slot_index_def popped_def)

lemma pushed_slot:
  assumes ok: "queue_ok k q" and n: "queue_length q < 2 ^ k" and j: "j < 2 ^ k"
  shows "buffer (pushed q x) ! slot_index q (dequeue_pos q + of_nat j) =
     (if j = queue_length q then \<lparr>sequence = enqueue_pos q + 1, slot_value = Some x\<rparr>
      else buffer q ! slot_index q (dequeue_pos q + of_nat j))"
proof -
  have "slot_index q p < length (buffer q)" for p
    using ok by (simp add: slot_index_mod) (simp add: queue_ok_def)
  then show ?thesis
    using slot_offset_inj [OF ok j n] 
    by (auto simp: pushed_def nth_list_update enqueue_pos_offset [of q])
qed

lemma pushed_ok:
  assumes ok: "queue_ok k q" and n: "queue_length q < 2 ^ k"
  shows "queue_ok k (pushed q x)"
proof -
  have dq: "dequeue_pos (pushed q x) = dequeue_pos q" by (simp add: pushed_def)
  have "sequence (buffer q ! slot_index q (dequeue_pos q + of_nat j)) = dequeue_pos q + of_nat j + 1 \<and>
      slot_value (buffer q ! slot_index q (dequeue_pos q + of_nat j)) \<noteq> None" if "j < queue_length q" for j
    using ok that n by (simp add: queue_ok_def Let_def)
  moreover have "sequence (buffer q ! slot_index q (dequeue_pos q + of_nat j)) = dequeue_pos q + of_nat j \<and>
      slot_value (buffer q ! slot_index q (dequeue_pos q + of_nat j)) = None" if "\<not> j < queue_length q" "j < 2 ^ k" for j
    using ok that by (simp add: queue_ok_def Let_def)
  moreover have "k \<le> 63 \<and> length (buffer (pushed q x)) = 2 ^ k \<and> mask (pushed q x) = 2 ^ k - 1"
    using ok by (simp add: queue_ok_def pushed_def)
  ultimately show ?thesis
    using n unfolding queue_ok_def slot_index_pushed dq pushed_length [OF ok n]
    by (auto simp: pushed_slot [OF ok n] Let_def enqueue_pos_offset [of q] less_Suc_eq)
qed

lemma pushed_list:
  assumes ok: "queue_ok k q" and n: "queue_length q < 2 ^ k"
  shows "queue_list (pushed q x) = queue_list q @ [x]"
proof -
  have dq: "dequeue_pos (pushed q x) = dequeue_pos q" by (simp add: pushed_def)
  show ?thesis
    using n by (simp add: queue_list_def dq pushed_length [OF ok n] pushed_slot [OF ok n])
qed

lemma popped_length:
  assumes "queue_length q \<noteq> 0"
  shows "queue_length (popped q) = queue_length q - 1"
proof -
  have "enqueue_pos q - dequeue_pos q \<noteq> 0"
    using assms unfolding queue_length_def by (metis unat_0)
  then have "unat (enqueue_pos q - dequeue_pos q - 1) = unat (enqueue_pos q - dequeue_pos q) - 1"
    by (rule unat_minus_one)
  then show ?thesis by (simp add: queue_length_def popped_def algebra_simps)
qed

text \<open>Offset \<open>j\<close> after a pop is offset \<open>j + 1\<close> before it; the last offset is the freed slot.\<close>

lemma popped_offset:
  "dequeue_pos (popped q) + of_nat j = dequeue_pos q + of_nat (Suc j)"
  by (simp add: popped_def)

lemma popped_slot:
  assumes ok: "queue_ok k q" and j: "j < 2 ^ k"
  shows "buffer (popped q) ! slot_index q (dequeue_pos q + of_nat (Suc j)) =
     (if Suc j = 2 ^ k then \<lparr>sequence = dequeue_pos q + 2 ^ k, slot_value = None\<rparr>
      else buffer q ! slot_index q (dequeue_pos q + of_nat (Suc j)))"
proof -
  have lt: "slot_index q p < length (buffer q)" for p
    using ok by (simp add: slot_index_mod) (simp add: queue_ok_def)
  have m: "dequeue_pos q + mask q + 1 = dequeue_pos q + 2 ^ k"
    using ok by (simp add: queue_ok_def)
  have i0: "slot_index q (dequeue_pos q) = slot_index q (dequeue_pos q + of_nat 0)" by simp
  show ?thesis
  proof (cases "Suc j = 2 ^ k")
    case True
    then have "slot_index q (dequeue_pos q + of_nat (Suc j)) = slot_index q (dequeue_pos q + of_nat 0)"
      using ok by (simp only: slot_index_offset) simp
    with True lt m show ?thesis by (simp only: i0 popped_def) simp
  next
    case False
    with j have "Suc j < 2 ^ k" by simp
    then have "slot_index q (dequeue_pos q + of_nat (Suc j)) \<noteq> slot_index q (dequeue_pos q)"
      using slot_offset_inj [OF ok, of "Suc j" 0] by simp
    with False show ?thesis by (simp only: popped_def) simp
  qed
qed

lemma popped_ok:
  assumes ok: "queue_ok k q" and n: "queue_length q \<noteq> 0"
  shows "queue_ok k (popped q)"
proof -
  have *: "let slot = buffer (popped q) ! slot_index q (dequeue_pos (popped q) + of_nat j) in
        if j < queue_length (popped q)
        then sequence slot = dequeue_pos (popped q) + of_nat j + 1 \<and> slot_value slot \<noteq> None
        else sequence slot = dequeue_pos (popped q) + of_nat j \<and> slot_value slot = None"
    if j: "j < 2 ^ k" for j
  proof (cases "Suc j = 2 ^ k")
    case True
    have s: "buffer (popped q) ! slot_index q (dequeue_pos q + of_nat (Suc j)) =
        \<lparr>sequence = dequeue_pos q + of_nat (Suc j), slot_value = None\<rparr>"
      using popped_slot [OF ok j] by (simp only: True simp_thms if_True of_nat_power of_nat_numeral)
    have "queue_length q \<le> Suc j" using ok True by (simp add: queue_ok_def)
    with n have nl: "\<not> j < queue_length q - 1" by linarith
    show ?thesis
      unfolding popped_offset s popped_length [OF n] Let_def by (simp only: nl if_False Slot.select_convs simp_thms)
  next
    case False
    with j have "Suc j < 2 ^ k" by simp
    with ok have "let slot = buffer q ! slot_index q (dequeue_pos q + of_nat (Suc j)) in
        if Suc j < queue_length q
        then sequence slot = dequeue_pos q + of_nat (Suc j) + 1 \<and> slot_value slot \<noteq> None
        else sequence slot = dequeue_pos q + of_nat (Suc j) \<and> slot_value slot = None"
      unfolding queue_ok_def by blast
    moreover have "j < queue_length q - 1 \<longleftrightarrow> Suc j < queue_length q" using n by linarith
    ultimately show ?thesis
      using False by (simp only: popped_offset popped_slot [OF ok j] popped_length [OF n] Let_def if_False)
  qed
  have "k \<le> 63 \<and> length (buffer (popped q)) = 2 ^ k \<and> mask (popped q) = 2 ^ k - 1"
    using ok by (simp add: queue_ok_def popped_def)
  moreover have "queue_length (popped q) \<le> 2 ^ k"
    using queue_length_bound [OF ok] popped_length [OF n] by linarith
  ultimately show ?thesis
    using * unfolding queue_ok_def slot_index_popped by blast
qed

lemma popped_list:
  assumes ok: "queue_ok k q" and n: "queue_length q \<noteq> 0"
  shows "queue_list q = the (slot_value (buffer q ! slot_index q (dequeue_pos q))) # queue_list (popped q)"
proof -
  have *: "Suc j < queue_length q \<Longrightarrow>
      buffer (popped q) ! slot_index q (dequeue_pos q + of_nat (Suc j)) =
      buffer q ! slot_index q (dequeue_pos q + of_nat (Suc j))" for j
    using popped_slot [OF ok, of j] queue_length_bound [OF ok] by auto
  obtain m where m: "queue_length q = Suc m" using n not0_implies_Suc by blast
  have l: "[0..<queue_length q] = 0 # map Suc [0..<queue_length q - 1]"
    unfolding m by (simp only: map_Suc_upt diff_Suc_1) (simp add: upt_conv_Cons)
  show ?thesis
    unfolding queue_list_def slot_index_popped popped_offset popped_length [OF n] l
    using * by (simp del: of_nat_Suc)
qed

subsection \<open>What the loops return\<close>

lemma push_run_seq_room:
  assumes ok: "queue_ok k q" and n: "queue_length q < 2 ^ k"
  shows "push_run (4 + 2 * length fs + m) fs q (PushSeq x (enqueue_pos q)) = Some (pushed q x, Inr ())"
proof (induction fs)
  case Nil
  obtain s where "slot_at q (enqueue_pos q) = Some s" "sequence s = enqueue_pos q"
    using slot_enqueue_free [OF ok n] by blast
  then show ?case by (simp add: numeral_eq_Suc pushed_steps [OF ok])
next
  case (Cons f fs)
  obtain s where s: "slot_at q (enqueue_pos q) = Some s" "sequence s = enqueue_pos q"
    using slot_enqueue_free [OF ok n] by blast
  have fuel: "4 + 2 * length (f # fs) + m = Suc (Suc (4 + 2 * length fs + m))" by simp
  show ?case
  proof (cases f)
    case True
    with s Cons.IH show ?thesis by (simp add: numeral_eq_Suc)
  next
    case False
    then show ?thesis unfolding fuel using s by (simp add: numeral_eq_Suc pushed_steps [OF ok])
  qed
qed

lemma push_run_room:
  assumes "queue_ok k q" and "queue_length q < 2 ^ k"
  shows "push_run (5 + 2 * length fs + m) fs q (PushLoad x) = Some (pushed q x, Inr ())"
  using push_run_seq_room [OF assms, of fs m] by (simp add: numeral_eq_Suc)

lemma push_run_full:
  assumes "queue_ok k q" and "1 \<le> k" and "queue_length q = 2 ^ k"
  shows "push_run (Suc (Suc m)) fs q (PushLoad x) = Some (q, Inl x)"
proof -
  obtain s where "slot_at q (enqueue_pos q) = Some s" "sequence s = dequeue_pos q + 1"
    using slot_enqueue_full [OF assms(1,3)] by blast
  then show ?thesis using seq_diff_full [OF assms] by simp
qed

lemma slot_dequeue_full:
  assumes "queue_ok k q" "queue_length q \<noteq> 0"
  shows "\<exists>s y. slot_at q (dequeue_pos q) = Some s \<and> sequence s = dequeue_pos q + 1 \<and>
     s = buffer q ! slot_index q (dequeue_pos q) \<and> slot_value s = Some y"
proof -
  have "slot_at q (dequeue_pos q) = Some (buffer q ! slot_index q (dequeue_pos q))"
    using queue_ok_slot [OF assms(1), of 0] by simp
  moreover have "let s = buffer q ! slot_index q (dequeue_pos q) in
      sequence s = dequeue_pos q + 1 \<and> slot_value s \<noteq> None"
    using assms by (auto simp: queue_ok_def Let_def dest: spec [of _ 0])
  ultimately show ?thesis by (auto simp: Let_def)
qed

lemma slot_dequeue_empty:
  assumes "queue_ok k q" "queue_length q = 0"
  shows "\<exists>s. slot_at q (dequeue_pos q) = Some s \<and> sequence s = dequeue_pos q"
  using assms queue_ok_slot [OF assms(1), of 0]
  by (auto simp: queue_ok_def Let_def dest: spec [of _ 0])

lemma pop_run_seq_some:
  assumes ok: "queue_ok k q" and n: "queue_length q \<noteq> 0"
  shows "pop_run (4 + 2 * length fs + m) fs q (PopSeq (dequeue_pos q)) =
     Some (popped q, Some (hd (queue_list q)))"
proof -
  obtain s y where s: "slot_at q (dequeue_pos q) = Some s" "sequence s = dequeue_pos q + 1"
    "s = buffer q ! slot_index q (dequeue_pos q)" "slot_value s = Some y"
    using slot_dequeue_full [OF ok n] by blast
  have hd: "hd (queue_list q) = y" using s popped_list [OF ok n] by simp
  have si: "slot_index (q\<lparr>dequeue_pos := p\<rparr>) = slot_index q" for p
    by (rule ext) (simp add: slot_index_def)
  have mk: "mask (set_value q' p v) = mask q'" for q' :: "'a MpmcQueue" and p v
    by (simp add: set_value_def)
  note pm = popped_steps [OF ok]
  show ?thesis
  proof (induction fs)
    case Nil
    show ?case using s by (simp add: numeral_eq_Suc pm hd si mk)
  next
    case (Cons f fs)
    have fuel: "4 + 2 * length (f # fs) + m = Suc (Suc (4 + 2 * length fs + m))" by simp
    show ?case
    proof (cases f)
      case True
      with s(1,2) Cons.IH show ?thesis by (simp add: numeral_eq_Suc)
    next
      case False
      then show ?thesis unfolding fuel using s by (simp add: numeral_eq_Suc pm hd si mk)
    qed
  qed
qed

lemma pop_run_some:
  assumes "queue_ok k q" and "queue_length q \<noteq> 0"
  shows "pop_run (5 + 2 * length fs + m) fs q PopLoad = Some (popped q, Some (hd (queue_list q)))"
  using pop_run_seq_some [OF assms, of fs m] by (simp add: numeral_eq_Suc)

lemma pop_run_none:
  assumes "queue_ok k q" and "queue_length q = 0"
  shows "pop_run (Suc (Suc m)) fs q PopLoad = Some (q, None)"
proof -
  obtain s where "slot_at q (dequeue_pos q) = Some s" "sequence s = dequeue_pos q"
    using slot_dequeue_empty [OF assms] by blast
  moreover have "seq_diff (dequeue_pos q) (dequeue_pos q + 1) < 0"
    by (simp add: seq_diff_def)
  ultimately show ?thesis by (simp add: Let_def)
qed

subsection \<open>The bounded FIFO contract\<close>

locale bounded_fifo =
  fixes invar :: "'q \<Rightarrow> bool"
    and contents :: "'q \<Rightarrow> 'a list"
    and capacity :: "'q \<Rightarrow> nat"
    and enq :: "'q \<Rightarrow> 'a \<Rightarrow> ('q \<times> ('a + unit)) option"
    and deq :: "'q \<Rightarrow> ('q \<times> 'a option) option"
  assumes bound: "invar q \<Longrightarrow> length (contents q) \<le> capacity q"
    and enq_room: "invar q \<Longrightarrow> length (contents q) < capacity q \<Longrightarrow>
      \<exists>q'. enq q x = Some (q', Inr ()) \<and> invar q' \<and> capacity q' = capacity q \<and> contents q' = contents q @ [x]"
    and enq_full: "invar q \<Longrightarrow> length (contents q) = capacity q \<Longrightarrow> enq q x = Some (q, Inl x)"
    and deq_some: "invar q \<Longrightarrow> contents q \<noteq> [] \<Longrightarrow>
      \<exists>q'. deq q = Some (q', Some (hd (contents q))) \<and> invar q' \<and> capacity q' = capacity q
         \<and> contents q' = tl (contents q)"
    and deq_none: "invar q \<Longrightarrow> contents q = [] \<Longrightarrow> deq q = Some (q, None)"
begin

lemma enq_cases:
  assumes "invar q"
  obtains (room) q' where "length (contents q) < capacity q" "enq q x = Some (q', Inr ())" "invar q'"
      "capacity q' = capacity q" "contents q' = contents q @ [x]"
    | (full) "length (contents q) = capacity q" "enq q x = Some (q, Inl x)"
proof (cases "length (contents q) < capacity q")
  case True
  then show ?thesis using enq_room [OF assms True] that(1) by blast
next
  case False
  with bound [OF assms] have "length (contents q) = capacity q" by simp
  with enq_full [OF assms this] show ?thesis using that(2) by blast
qed

lemma deq_cases:
  assumes "invar q"
  obtains (some) q' x xs where "contents q = x # xs" "deq q = Some (q', Some x)" "invar q'"
      "capacity q' = capacity q" "contents q' = xs"
    | (none) "contents q = []" "deq q = Some (q, None)"
proof (cases "contents q")
  case Nil
  then show ?thesis using deq_none [OF assms Nil] that(2) by blast
next
  case (Cons x xs)
  then show ?thesis using deq_some [OF assms] that(1) by fastforce
qed

end

definition mpmc_ok :: "'a MpmcQueue \<Rightarrow> bool" where
  "mpmc_ok q \<longleftrightarrow> (\<exists>k \<ge> 1. queue_ok k q)"

definition queue_capacity :: "'a MpmcQueue \<Rightarrow> nat" where
  "queue_capacity q = length (buffer q)"

lemma length_queue_list [simp]: "length (queue_list q) = queue_length q"
  by (simp add: queue_list_def)

lemma queue_ok_capacity: "queue_ok k q \<Longrightarrow> queue_capacity q = 2 ^ k"
  by (simp add: queue_capacity_def queue_ok_def)

lemma queue_capacity_pushed [simp]: "queue_capacity (pushed q x) = queue_capacity q"
  by (simp add: queue_capacity_def pushed_def)

lemma queue_capacity_popped [simp]: "queue_capacity (popped q) = queue_capacity q"
  by (simp add: queue_capacity_def popped_def)

interpretation mpmc: bounded_fifo mpmc_ok queue_list queue_capacity push pop
proof unfold_locales
  fix q :: "'a MpmcQueue" and x :: 'a
  assume "mpmc_ok q"
  then obtain k where k: "1 \<le> k" and ok: "queue_ok k q" by (auto simp: mpmc_ok_def)
  note cap = queue_ok_capacity [OF ok]
  show "length (queue_list q) \<le> queue_capacity q"
    using queue_length_bound [OF ok] cap by simp
  show "\<exists>q'. push q x = Some (q', Inr ()) \<and> mpmc_ok q' \<and> queue_capacity q' = queue_capacity q \<and>
      queue_list q' = queue_list q @ [x]" if "length (queue_list q) < queue_capacity q"
  proof -
    have n: "queue_length q < 2 ^ k" using that cap by simp
    have "push q x = Some (pushed q x, Inr ())"
      using push_run_room [OF ok n, of "[]" 0] by (simp add: push_def)
    then show ?thesis
      using pushed_ok [OF ok n] pushed_list [OF ok n] k by (auto simp: mpmc_ok_def)
  qed
  show "push q x = Some (q, Inl x)" if "length (queue_list q) = queue_capacity q"
  proof -
    have n: "queue_length q = 2 ^ k" using that cap by simp
    show ?thesis using push_run_full [OF ok k n, of 3] by (simp add: push_def numeral_eq_Suc)
  qed
  show "\<exists>q'. pop q = Some (q', Some (hd (queue_list q))) \<and> mpmc_ok q' \<and>
      queue_capacity q' = queue_capacity q \<and> queue_list q' = tl (queue_list q)" if "queue_list q \<noteq> []"
  proof -
    have n: "queue_length q \<noteq> 0" using that by (metis length_0_conv length_queue_list)
    have "pop q = Some (popped q, Some (hd (queue_list q)))"
      using pop_run_some [OF ok n, of "[]" 0] by (simp add: pop_def)
    then show ?thesis
      using popped_ok [OF ok n] popped_list [OF ok n] k by (auto simp: mpmc_ok_def)
  qed
  show "pop q = Some (q, None)" if "queue_list q = []"
  proof -
    have n: "queue_length q = 0" using that by (metis length_0_conv length_queue_list)
    show ?thesis using pop_run_none [OF ok n, of 3] by (simp add: pop_def numeral_eq_Suc)
  qed
qed

subsection \<open>Operation sequences against the specification\<close>

datatype 'a qop = QPush 'a | QPop

datatype 'a qresult = Pushed "'a + unit" | Popped "'a option"

fun fifo_spec :: "nat \<Rightarrow> 'a list \<Rightarrow> 'a qop list \<Rightarrow> 'a list \<times> 'a qresult list" where
  "fifo_spec c xs [] = (xs, [])"
| "fifo_spec c xs (QPush x # ops) =
     (if length xs < c
      then (case fifo_spec c (xs @ [x]) ops of (ys, rs) \<Rightarrow> (ys, Pushed (Inr ()) # rs))
      else (case fifo_spec c xs ops of (ys, rs) \<Rightarrow> (ys, Pushed (Inl x) # rs)))"
| "fifo_spec c [] (QPop # ops) = (case fifo_spec c [] ops of (ys, rs) \<Rightarrow> (ys, Popped None # rs))"
| "fifo_spec c (x # xs) (QPop # ops) =
     (case fifo_spec c xs ops of (ys, rs) \<Rightarrow> (ys, Popped (Some x) # rs))"

fun run_ops :: "('q \<Rightarrow> 'a \<Rightarrow> ('q \<times> ('a + unit)) option) \<Rightarrow> ('q \<Rightarrow> ('q \<times> 'a option) option)
    \<Rightarrow> 'q \<Rightarrow> 'a qop list \<Rightarrow> ('q \<times> 'a qresult list) option" where
  "run_ops enq deq q [] = Some (q, [])"
| "run_ops enq deq q (QPush x # ops) = do {
     (q', r) \<leftarrow> enq q x;
     (q'', rs) \<leftarrow> run_ops enq deq q' ops;
     Some (q'', Pushed r # rs) }"
| "run_ops enq deq q (QPop # ops) = do {
     (q', r) \<leftarrow> deq q;
     (q'', rs) \<leftarrow> run_ops enq deq q' ops;
     Some (q'', Popped r # rs) }"

context bounded_fifo begin

lemma run_ops_refines:
  assumes "invar q"
  shows "\<exists>q'. run_ops enq deq q ops = Some (q', snd (fifo_spec (capacity q) (contents q) ops)) \<and>
     invar q' \<and> contents q' = fst (fifo_spec (capacity q) (contents q) ops)"
  using assms
proof (induction ops arbitrary: q)
  case Nil
  then show ?case by simp
next
  case (Cons p ops)
  show ?case
  proof (cases p)
    case (QPush x)
    from Cons.prems show ?thesis
    proof (cases rule: enq_cases [of q x])
      case (room q')
      with Cons.IH [of q'] QPush show ?thesis by (auto split: prod.splits)
    next
      case full
      with Cons.IH [OF Cons.prems] QPush show ?thesis by (auto split: prod.splits)
    qed
  next
    case QPop
    from Cons.prems show ?thesis
    proof (cases rule: deq_cases)
      case (some q' x xs)
      with Cons.IH [of q'] QPop show ?thesis by (auto split: prod.splits)
    next
      case none
      with Cons.IH [OF Cons.prems] QPop show ?thesis by (auto split: prod.splits)
    qed
  qed
qed

end

lemma queue_new_mpmc_ok:
  assumes "queue_new c = Some q" and "2 \<le> unat c"
  shows "mpmc_ok q" and "queue_list q = []" and "queue_capacity q = unat c"
proof -
  obtain k where k: "unat c = 2 ^ k" "queue_ok k q" "queue_list q = []"
    using queue_new_ok [OF assms(1)] by blast
  with assms(2) have "1 \<le> k" by (cases k) auto
  with k show "mpmc_ok q" "queue_list q = []" "queue_capacity q = unat c"
    by (auto simp: mpmc_ok_def queue_ok_capacity)
qed

lemma is_power_of_two_2: "is_power_of_two 2"
  by (auto simp: is_power_of_two_def intro!: bexI [of _ 1])

lemma queue_new_2: "\<exists>q. queue_new 2 = Some (q :: 'a MpmcQueue)"
proof -
  have "is_power_of_two 2" by (rule is_power_of_two_2)
  then show ?thesis by (simp add: queue_new_def)
qed

text \<open>
  C1: From a fresh queue of any power-of-two capacity of at least two, every sequence of
  completed push and pop calls of any length (the counters may wrap around) returns exactly
  what a bounded FIFO list of that capacity returns: items come out in order, push gives the
  item back exactly when the queue is full, pop gives None exactly when it is empty, and no
  call panics or spins.
\<close>

theorem mpmc_refines_bounded_fifo:
  assumes "queue_new c = Some q" and "2 \<le> unat c"
  shows "\<exists>q'. run_ops push pop q ops = Some (q', snd (fifo_spec (unat c) [] ops)) \<and>
     queue_list q' = fst (fifo_spec (unat c) [] ops)"
  using mpmc.run_ops_refines [of q ops] queue_new_mpmc_ok [OF assms] by auto

theorem mpmc_refines_bounded_fifo_witness:
  "\<exists>q q'. queue_new 2 = Some q \<and>
     run_ops push pop q [QPush 1, QPush 2, QPush 3, QPop, QPop, QPop] =
       Some (q', [Pushed (Inr ()), Pushed (Inr ()), Pushed (Inl (3 :: nat)),
                  Popped (Some 1), Popped (Some 2), Popped None])"
proof -
  obtain q :: "nat MpmcQueue" where q: "queue_new 2 = Some q" using queue_new_2 by blast
  show ?thesis
    using q mpmc_refines_bounded_fifo [OF q, of "[QPush 1, QPush 2, QPush 3, QPop, QPop, QPop]"] by auto
qed

text \<open>
  C27: A push that runs undisturbed returns within 5 + 2n atomic steps when its
  compare_exchange_weak fails spuriously n times, and the failures do not change the result or
  the queue it leaves.
\<close>

theorem push_returns_despite_spurious_failures:
  assumes "mpmc_ok q" and "5 + 2 * length fs \<le> fuel"
  shows "push_run fuel fs q (PushLoad x) = push q x \<and> (\<exists>q' r. push q x = Some (q', r) \<and> mpmc_ok q')"
proof -
  obtain k where k: "1 \<le> k" and ok: "queue_ok k q" using assms(1) by (auto simp: mpmc_ok_def)
  obtain m where m: "fuel = 5 + 2 * length fs + m" using assms(2) le_Suc_ex by blast
  show ?thesis
    using assms(1)
  proof (cases rule: mpmc.enq_cases [of q x])
    case (room q')
    then have n: "queue_length q < 2 ^ k" by (simp add: queue_ok_capacity [OF ok])
    show ?thesis
      using push_run_room [OF ok n, of fs m x] push_run_room [OF ok n, of "[]" 0 x] room
      by (simp add: m push_def)
  next
    case full
    then have n: "queue_length q = 2 ^ k" by (simp add: queue_ok_capacity [OF ok])
    have f: "fuel = Suc (Suc (3 + 2 * length fs + m))" using m by simp
    have "push_run fuel fs q (PushLoad x) = Some (q, Inl x)"
      unfolding f by (rule push_run_full [OF ok k n])
    then show ?thesis using full assms(1) by simp
  qed
qed

text \<open>
  A pop that runs undisturbed returns within 5 + 2n atomic steps when its
  compare_exchange_weak fails spuriously n times, and the failures do not change the result or
  the queue it leaves.
\<close>

theorem pop_returns_despite_spurious_failures:
  assumes "mpmc_ok q" and "5 + 2 * length fs \<le> fuel"
  shows "pop_run fuel fs q PopLoad = pop q \<and> (\<exists>q' r. pop q = Some (q', r) \<and> mpmc_ok q')"
proof -
  obtain k where k: "1 \<le> k" and ok: "queue_ok k q" using assms(1) by (auto simp: mpmc_ok_def)
  obtain m where m: "fuel = 5 + 2 * length fs + m" using assms(2) le_Suc_ex by blast
  show ?thesis
    using assms(1)
  proof (cases rule: mpmc.deq_cases)
    case (some q' x xs)
    then have n: "queue_length q \<noteq> 0" by (metis length_0_conv length_queue_list list.distinct(1))
    show ?thesis
      using pop_run_some [OF ok n, of fs m] pop_run_some [OF ok n, of "[]" 0] some
      by (simp add: m pop_def)
  next
    case none
    then have n: "queue_length q = 0" by (metis length_0_conv length_queue_list)
    have f: "fuel = Suc (Suc (3 + 2 * length fs + m))" using m by simp
    have "pop_run fuel fs q PopLoad = Some (q, None)"
      unfolding f by (rule pop_run_none [OF ok n])
    then show ?thesis using none assms(1) by simp
  qed
qed

theorem push_returns_despite_spurious_failures_witness:
  "\<exists>q q' r. queue_new 2 = Some q \<and> push_run 9 [True, True] q (PushLoad (7 :: nat)) = Some (q', r)"
proof -
  obtain q :: "nat MpmcQueue" where q: "queue_new 2 = Some q" using queue_new_2 by blast
  then have "mpmc_ok q" using queue_new_mpmc_ok [of 2 q] by simp
  from push_returns_despite_spurious_failures [OF this, of "[True, True]" 9 7] q
  show ?thesis by auto
qed

theorem pop_returns_despite_spurious_failures_witness:
  "\<exists>q q' r. queue_new 2 = Some (q :: nat MpmcQueue) \<and> pop_run 9 [True, True] q PopLoad = Some (q', r)"
proof -
  obtain q :: "nat MpmcQueue" where q: "queue_new 2 = Some q" using queue_new_2 by blast
  then have "mpmc_ok q" using queue_new_mpmc_ok [of 2 q] by simp
  from pop_returns_despite_spurious_failures [OF this, of "[True, True]" 9] q
  show ?thesis by auto
qed

lemma pop_run_spins:
  assumes "slot_at q (dequeue_pos q) = Some s" and "0 < seq_diff (sequence s) (dequeue_pos q + 1)"
  shows "pop_run fuel fs q PopLoad = None"
proof (induction fuel rule: less_induct)
  case (less fuel)
  consider "fuel = 0" | "fuel = 1" | n where "fuel = Suc (Suc n)"
    by (metis One_nat_def not0_implies_Suc)
  then show ?case
  proof cases
    case 3
    with less.IH [of n] assms show ?thesis by (simp add: Let_def)
  qed simp_all
qed

text \<open>
  C32: The constructor accepts capacity 1, where the sequence protocol is broken: a second push
  succeeds and overwrites the first item, and the next pop never returns, however many steps
  it runs.
\<close>

theorem capacity_one_overwrites_and_hangs:
  "\<exists>q0 q1 q2. queue_new 1 = Some q0 \<and> push q0 a = Some (q1, Inr ()) \<and> push q1 b = Some (q2, Inr ()) \<and>
     (\<forall>fuel fs. pop_run fuel fs q2 PopLoad = None)"
proof -
  define q0 :: "'a MpmcQueue" where
    "q0 = \<lparr>buffer = [\<lparr>sequence = 0, slot_value = None\<rparr>], mask = 0, enqueue_pos = 0, dequeue_pos = 0\<rparr>"
  define q1 where "q1 = q0\<lparr>buffer := [\<lparr>sequence = 1, slot_value = Some a\<rparr>], enqueue_pos := 1\<rparr>"
  define q2 where "q2 = q0\<lparr>buffer := [\<lparr>sequence = 2, slot_value = Some b\<rparr>], enqueue_pos := 2\<rparr>"
  have p: "is_power_of_two 1" by (auto simp: is_power_of_two_def intro!: bexI [of _ 0])
  then have new: "queue_new 1 = Some q0" by (simp add: queue_new_def q0_def)
  note step = push_def numeral_eq_Suc slot_at_def slot_index_def set_value_def set_sequence_def seq_diff_def
  have push1: "push q0 a = Some (q1, Inr ())" by (simp add: q0_def q1_def step)
  have push2: "push q1 b = Some (q2, Inr ())" by (simp add: q0_def q1_def q2_def step)
  have "pop_run fuel fs q2 PopLoad = None" for fuel fs
    by (rule pop_run_spins [where s = "\<lparr>sequence = 2, slot_value = Some b\<rparr>"])
      (simp_all add: q2_def q0_def slot_at_def slot_index_def seq_diff_def)
  with new push1 push2 show ?thesis by blast
qed

end
