(* ===== verification/QueueConcurrent.thy ===== *)
theory QueueConcurrent
  imports MpmcQueue
begin

unbundle bit_operations_syntax

section \<open>The ring buffer under concurrent producers and consumers\<close>

text \<open>
  Any number of threads run \<open>push\<close> and \<open>pop\<close> of \<^verbatim>\<open>engine/src/queue.rs\<close> on one queue,
  interleaved at the granularity of the atomic steps of \<^verbatim>\<open>MpmcQueue\<close> under sequential
  consistency: one total order of the accesses. Theory \<open>QueueWeak\<close> runs the same code under the memory
  orderings its source names.
\<close>

subsection \<open>Configurations and steps\<close>

datatype 'a thread = Idle | Pushing 'a "'a push_pc" | Popping "'a pop_pc"

record 'a conf =
  shared :: "'a MpmcQueue"
  threads :: "nat \<Rightarrow> 'a thread"

datatype 'a label =
    CallPush nat 'a
  | CallPop nat
  | PushAct nat "'a push_pc" "'a push_pc"
  | PopAct nat "'a pop_pc" "'a pop_pc"
  | RetPush nat 'a "'a + unit"
  | RetPop nat "'a option"

fun push_active :: "'a push_pc \<Rightarrow> bool" where
  "push_active (PushDone r) = False"
| "push_active PushPanic = False"
| "push_active pc = True"

fun pop_active :: "'a pop_pc \<Rightarrow> bool" where
  "pop_active (PopDone r) = False"
| "pop_active PopPanic = False"
| "pop_active pc = True"

inductive conf_step :: "'a conf \<Rightarrow> 'a label \<Rightarrow> 'a conf \<Rightarrow> bool" where
  call_push: "threads s t = Idle \<Longrightarrow>
    conf_step s (CallPush t x) (s\<lparr>threads := (threads s)(t := Pushing x (PushLoad x))\<rparr>)"
| call_pop: "threads s t = Idle \<Longrightarrow>
    conf_step s (CallPop t) (s\<lparr>threads := (threads s)(t := Popping PopLoad)\<rparr>)"
| push_act: "threads s t = Pushing x pc \<Longrightarrow> push_active pc \<Longrightarrow>
    push_step spurious (shared s) pc = (q', pc') \<Longrightarrow>
    conf_step s (PushAct t pc pc') \<lparr>shared = q', threads = (threads s)(t := Pushing x pc')\<rparr>"
| pop_act: "threads s t = Popping pc \<Longrightarrow> pop_active pc \<Longrightarrow>
    pop_step spurious (shared s) pc = (q', pc') \<Longrightarrow>
    conf_step s (PopAct t pc pc') \<lparr>shared = q', threads = (threads s)(t := Popping pc')\<rparr>"
| ret_push: "threads s t = Pushing x (PushDone r) \<Longrightarrow>
    conf_step s (RetPush t x r) (s\<lparr>threads := (threads s)(t := Idle)\<rparr>)"
| ret_pop: "threads s t = Popping (PopDone r) \<Longrightarrow>
    conf_step s (RetPop t r) (s\<lparr>threads := (threads s)(t := Idle)\<rparr>)"

text \<open>Executions from a fresh queue of the given capacity, with their labels in order.\<close>

inductive exec :: "usize \<Rightarrow> 'a label list \<Rightarrow> 'a conf \<Rightarrow> bool" for capacity :: usize where
  start: "queue_new capacity = Some q \<Longrightarrow> exec capacity [] \<lparr>shared = q, threads = (\<lambda>_. Idle)\<rparr>"
| step: "exec capacity ls s \<Longrightarrow> conf_step s l s' \<Longrightarrow> exec capacity (ls @ [l]) s'"

subsection \<open>Histories\<close>

fun enq_event :: "'a label \<Rightarrow> (nat \<times> 'a) list" where
  "enq_event (PushAct t (PushCas x pos) (PushWrite y pos')) = [(t, y)]"
| "enq_event _ = []"

fun deq_event :: "'a label \<Rightarrow> nat list" where
  "deq_event (PopAct t (PopCas pos) (PopTake pos')) = [unat pos']"
| "deq_event _ = []"

fun take_event :: "'a label \<Rightarrow> (nat \<times> nat \<times> 'a option) list" where
  "take_event (PopAct t (PopTake pos) (PopStore pos' v)) = [(t, unat pos, v)]"
| "take_event _ = []"

fun accepted_event :: "'a label \<Rightarrow> (nat \<times> 'a) list" where
  "accepted_event (RetPush t x (Inr u)) = [(t, x)]"
| "accepted_event _ = []"

fun returned_event :: "'a label \<Rightarrow> (nat \<times> 'a) list" where
  "returned_event (RetPop t (Some x)) = [(t, x)]"
| "returned_event _ = []"

text \<open>
  The winners of the enqueue race in ticket order, the tickets won by consumers, the values
  they took, and what the calls returned to their callers.
\<close>

definition enq_log :: "'a label list \<Rightarrow> (nat \<times> 'a) list" where
  "enq_log ls = concat (map enq_event ls)"

definition deq_log :: "'a label list \<Rightarrow> nat list" where
  "deq_log ls = concat (map deq_event ls)"

definition take_log :: "'a label list \<Rightarrow> (nat \<times> nat \<times> 'a option) list" where
  "take_log ls = concat (map take_event ls)"

definition accepted :: "'a label list \<Rightarrow> (nat \<times> 'a) list" where
  "accepted ls = concat (map accepted_event ls)"

definition returned :: "'a label list \<Rightarrow> (nat \<times> 'a) list" where
  "returned ls = concat (map returned_event ls)"

lemmas log_defs = enq_log_def deq_log_def take_log_def accepted_def returned_def

lemma log_Nil [simp]: "enq_log [] = []" "deq_log [] = []" "take_log [] = []" "accepted [] = []" "returned [] = []"
  by (simp_all add: log_defs)

lemma log_snoc [simp]:
  "enq_log (ls @ [l]) = enq_log ls @ enq_event l"
  "deq_log (ls @ [l]) = deq_log ls @ deq_event l"
  "take_log (ls @ [l]) = take_log ls @ take_event l"
  "accepted (ls @ [l]) = accepted ls @ accepted_event l"
  "returned (ls @ [l]) = returned ls @ returned_event l"
  by (simp_all add: log_defs)

subsection \<open>The protocol invariant\<close>

text \<open>
  Counters are read as natural numbers; \<open>L\<close> is the list of items in ticket order and \<open>d\<close> the
  number of tickets consumers have won. A slot is free for ticket \<open>u\<close> (its sequence is \<open>u\<close>) or
  holds the item of ticket \<open>p\<close> (its sequence is \<open>p + 1\<close>).
\<close>

definition sq :: "'a MpmcQueue \<Rightarrow> nat \<Rightarrow> nat" where
  "sq q i = unat (sequence (buffer q ! i))"

definition vl :: "'a MpmcQueue \<Rightarrow> nat \<Rightarrow> 'a option" where
  "vl q i = slot_value (buffer q ! i)"

fun prod_ticket :: "'a thread \<Rightarrow> nat option" where
  "prod_ticket (Pushing x (PushWrite y pos)) = Some (unat pos)"
| "prod_ticket (Pushing x (PushStore pos)) = Some (unat pos)"
| "prod_ticket _ = None"

fun cons_ticket :: "'a thread \<Rightarrow> nat option" where
  "cons_ticket (Popping (PopTake pos)) = Some (unat pos)"
| "cons_ticket (Popping (PopStore pos v)) = Some (unat pos)"
| "cons_ticket _ = None"

definition geom :: "nat \<Rightarrow> 'a MpmcQueue \<Rightarrow> bool" where
  "geom c q \<longleftrightarrow> length (buffer q) = c \<and> 2 \<le> c \<and> c \<le> 2 ^ 62 \<and> (\<exists>k. c = 2 ^ k \<and> mask q = 2 ^ k - 1)"

definition slot_free :: "nat \<Rightarrow> nat \<Rightarrow> nat \<Rightarrow> (nat \<Rightarrow> nat option) \<Rightarrow> nat \<Rightarrow> nat \<Rightarrow> bool" where
  "slot_free c e d P u i \<longleftrightarrow> u mod c = i \<and> d \<le> u \<and> u < d + c \<and> e \<le> u + c \<and>
     (u < e \<longrightarrow> Some u \<in> range P)"

definition slot_full :: "nat \<Rightarrow> 'a list \<Rightarrow> nat \<Rightarrow> (nat \<Rightarrow> nat option) \<Rightarrow> nat \<Rightarrow> 'a option \<Rightarrow> nat \<Rightarrow> bool" where
  "slot_full c L d C u v i \<longleftrightarrow> (\<exists>p. u = Suc p \<and> p mod c = i \<and> p < length L \<and> length L \<le> p + c \<and>
     d \<le> p + c \<and> p < d + c \<and> (p < d \<longrightarrow> Some p \<in> range C) \<and> (d \<le> p \<longrightarrow> v = Some (L ! p)))"

definition slot_inv :: "nat \<Rightarrow> 'a list \<Rightarrow> nat \<Rightarrow> (nat \<Rightarrow> nat option) \<Rightarrow> (nat \<Rightarrow> nat option)
    \<Rightarrow> nat \<Rightarrow> 'a option \<Rightarrow> nat \<Rightarrow> bool" where
  "slot_inv c L d P C u v i \<longleftrightarrow> slot_free c (length L) d P u i \<or> slot_full c L d C u v i"

fun thread_ok :: "nat \<Rightarrow> 'a list \<Rightarrow> nat \<Rightarrow> 'a MpmcQueue \<Rightarrow> 'a thread \<Rightarrow> bool" where
  "thread_ok c L d q Idle = True"
| "thread_ok c L d q (Pushing x (PushLoad y)) = (y = x)"
| "thread_ok c L d q (Pushing x (PushSeq y pos)) = (y = x \<and> unat pos \<le> length L)"
| "thread_ok c L d q (Pushing x (PushCas y pos)) =
     (y = x \<and> unat pos \<le> length L \<and> (unat pos = length L \<longrightarrow> sq q (unat pos mod c) = unat pos))"
| "thread_ok c L d q (Pushing x (PushWrite y pos)) =
     (y = x \<and> unat pos < length L \<and> sq q (unat pos mod c) = unat pos \<and> L ! unat pos = y)"
| "thread_ok c L d q (Pushing x (PushStore pos)) =
     (unat pos < length L \<and> sq q (unat pos mod c) = unat pos \<and> vl q (unat pos mod c) = Some (L ! unat pos)
      \<and> L ! unat pos = x)"
| "thread_ok c L d q (Pushing x (PushDone r)) = (r = Inl x \<or> r = Inr ())"
| "thread_ok c L d q (Pushing x PushPanic) = False"
| "thread_ok c L d q (Popping PopLoad) = True"
| "thread_ok c L d q (Popping (PopSeq pos)) = (unat pos \<le> d)"
| "thread_ok c L d q (Popping (PopCas pos)) =
     (unat pos \<le> d \<and> (unat pos = d \<longrightarrow> sq q (unat pos mod c) = Suc (unat pos)))"
| "thread_ok c L d q (Popping (PopTake pos)) =
     (unat pos < d \<and> d \<le> length L \<and> sq q (unat pos mod c) = Suc (unat pos) \<and> vl q (unat pos mod c) = Some (L ! unat pos))"
| "thread_ok c L d q (Popping (PopStore pos v)) =
     (unat pos < d \<and> d \<le> length L \<and> sq q (unat pos mod c) = Suc (unat pos) \<and> v = Some (L ! unat pos))"
| "thread_ok c L d q (Popping (PopDone r)) = True"
| "thread_ok c L d q (Popping PopPanic) = False"

definition tickets_unique :: "(nat \<Rightarrow> nat option) \<Rightarrow> bool" where
  "tickets_unique P \<longleftrightarrow> (\<forall>t t' p. P t = Some p \<longrightarrow> P t' = Some p \<longrightarrow> t = t')"

definition q_inv :: "nat \<Rightarrow> 'a list \<Rightarrow> nat \<Rightarrow> 'a MpmcQueue \<Rightarrow> (nat \<Rightarrow> 'a thread) \<Rightarrow> bool" where
  "q_inv c L d q thr \<longleftrightarrow> geom c q \<and> unat (enqueue_pos q) = length L \<and> unat (dequeue_pos q) = d \<and>
     d \<le> length L \<and>
     (\<forall>i < c. slot_inv c L d (prod_ticket \<circ> thr) (cons_ticket \<circ> thr) (sq q i) (vl q i) i) \<and>
     (\<forall>t. thread_ok c L d q (thr t)) \<and>
     tickets_unique (prod_ticket \<circ> thr) \<and> tickets_unique (cons_ticket \<circ> thr)"

lemma geom_index: "geom c q \<Longrightarrow> slot_index q pos = unat pos mod c"
  by (auto simp: geom_def slot_index_def unat_and_mask)

lemma geom_slot: "geom c q \<Longrightarrow> slot_at q pos = Some (buffer q ! (unat pos mod c))"
  by (simp add: slot_at_def geom_index) (simp add: geom_def)

lemma geom_stable [simp]:
  "geom c (set_sequence q pos v) = geom c q"
  "geom c (set_value q pos w) = geom c q"
  "geom c (q\<lparr>enqueue_pos := p\<rparr>) = geom c q"
  "geom c (q\<lparr>dequeue_pos := p\<rparr>) = geom c q"
  by (simp_all add: geom_def set_sequence_def set_value_def)

lemma sq_vl_updates [simp]:
  "sq (q\<lparr>enqueue_pos := p\<rparr>) = sq q" "vl (q\<lparr>enqueue_pos := p\<rparr>) = vl q"
  "sq (q\<lparr>dequeue_pos := p\<rparr>) = sq q" "vl (q\<lparr>dequeue_pos := p\<rparr>) = vl q"
  by (auto simp: sq_def vl_def)

lemma set_slot_frame [simp, frame_simps]:
  "enqueue_pos (set_value q pos w) = enqueue_pos q" "dequeue_pos (set_value q pos w) = dequeue_pos q"
  "enqueue_pos (set_sequence q pos v) = enqueue_pos q" "dequeue_pos (set_sequence q pos v) = dequeue_pos q"
  by (simp_all add: set_value_def set_sequence_def)

lemma geom_bounds: "geom c q \<Longrightarrow> 2 \<le> c \<and> c \<le> 2 ^ 62"
  by (simp add: geom_def)

lemma sq_set_sequence:
  "geom c q \<Longrightarrow> sq (set_sequence q pos v) i = (if i = unat pos mod c then unat v else sq q i)"
  "geom c q \<Longrightarrow> vl (set_sequence q pos v) i = vl q i"
  "geom c q \<Longrightarrow> sq (set_value q pos w) i = sq q i"
  "geom c q \<Longrightarrow> vl (set_value q pos w) i = (if i = unat pos mod c then w else vl q i)"
  using geom_index [of c q pos]
  by (auto simp: sq_def vl_def set_sequence_def set_value_def nth_list_update geom_def)

lemma succ_mod_neq: "2 \<le> c \<Longrightarrow> Suc p mod c \<noteq> p mod c"
  by (metis One_nat_def Suc_1 mod_Suc Suc_n_not_n mod_less_divisor not_less_eq_eq less_Suc_eq_le neq0_conv nat.distinct(1) Suc_leD)

lemma seq_diff_0: "seq_diff a b = 0 \<longleftrightarrow> a = b"
  by (simp add: seq_diff_def signed_eq_0_iff)


subsection \<open>Slots under each kind of step\<close>

lemma slot_inv_free_iff:
  assumes "2 \<le> c" and "i = p mod c"
  shows "slot_inv c L d P C p v i \<longleftrightarrow> slot_free c (length L) d P p i"
  using assms succ_mod_neq [of c, THEN not_sym] by (auto simp: slot_inv_def slot_full_def)

lemma slot_inv_full_iff:
  assumes "2 \<le> c" and "i = p mod c"
  shows "slot_inv c L d P C (Suc p) v i \<longleftrightarrow> slot_full c L d C (Suc p) v i"
  using assms succ_mod_neq [of c p] by (auto simp: slot_inv_def slot_free_def)

lemma range_upd_None: "P t = None \<Longrightarrow> Some u \<in> range P \<Longrightarrow> Some u \<in> range (P(t := x))"
  by (metis (no_types, lifting) fun_upd_apply option.distinct(1) rangeE rangeI)

lemma range_upd_other: "P t = Some p \<Longrightarrow> u \<noteq> p \<Longrightarrow> Some u \<in> range P \<Longrightarrow> Some u \<in> range (P(t := x))"
  by (metis (no_types, lifting) fun_upd_apply option.inject rangeE rangeI)

lemma slot_inv_enq:
  assumes inv: "slot_inv c L d P C u v i" and c: "2 \<le> c"
    and won: "i = length L mod c \<Longrightarrow> u = length L" and idle: "P t = None"
  shows "slot_inv c (L @ [x]) d (P(t := Some (length L))) C u v i"
proof (cases "i = length L mod c")
  case True
  with inv c won have "slot_free c (length L) d P u i" by (simp add: slot_inv_free_iff)
  with won [OF True] show ?thesis by (simp add: slot_inv_def slot_free_def rangeI [of _ t, THEN back_subst [of "\<lambda>z. z \<in> _"]])
next
  case False
  from inv consider "slot_free c (length L) d P u i" | "slot_full c L d C u v i"
    by (auto simp: slot_inv_def)
  then show ?thesis
  proof cases
    case 1
    then have "u \<noteq> length L" "length L \<noteq> u + c" using False by (auto simp: slot_free_def)
    with 1 show ?thesis by (auto simp: slot_inv_def slot_free_def less_Suc_eq idle intro!: range_upd_None)
  next
    case 2
    then obtain p where p: "u = Suc p" "p mod c = i" "p < length L" "length L \<le> p + c" "d \<le> p + c" "p < d + c"
      "p < d \<longrightarrow> Some p \<in> range C" "d \<le> p \<longrightarrow> v = Some (L ! p)" by (auto simp: slot_full_def)
    then have "length L \<noteq> p + c" using False by auto
    with p show ?thesis unfolding slot_inv_def slot_full_def by (intro disjI2 exI [of _ p]) (auto simp: nth_append)
  qed
qed

lemma slot_inv_deq:
  assumes inv: "slot_inv c L d P C u v i" and c: "2 \<le> c"
    and won: "i = d mod c \<Longrightarrow> u = Suc d" and idle: "C t = None"
  shows "slot_inv c L (Suc d) P (C(t := Some d)) u v i"
proof (cases "i = d mod c")
  case True
  with inv c won have "slot_full c L d C (Suc d) v i" by (simp add: slot_inv_full_iff)
  with won [OF True] c show ?thesis
    unfolding slot_inv_def slot_full_def by (intro disjI2 exI [of _ d]) auto
next
  case False
  from inv consider "slot_free c (length L) d P u i" | "slot_full c L d C u v i"
    by (auto simp: slot_inv_def)
  then show ?thesis
  proof cases
    case 1
    then have "u \<noteq> d" using False by (auto simp: slot_free_def)
    with 1 show ?thesis by (auto simp: slot_inv_def slot_free_def)
  next
    case 2
    then obtain p where p: "u = Suc p" "p mod c = i" "p < length L" "length L \<le> p + c" "d \<le> p + c" "p < d + c"
      "p < d \<longrightarrow> Some p \<in> range C" "d \<le> p \<longrightarrow> v = Some (L ! p)" by (auto simp: slot_full_def)
    then have "d \<noteq> p + c" "p \<noteq> d" using False by auto
    with p show ?thesis unfolding slot_inv_def slot_full_def
      by (intro disjI2 exI [of _ p]) (auto simp: idle intro!: range_upd_None)
  qed
qed

lemma slot_inv_filled:
  assumes inv: "slot_inv c L d P C p v (p mod c)" and c: "2 \<le> c" and p: "p < length L"
    and v: "v = Some (L ! p)"
  shows "slot_inv c L d P' C (Suc p) v (p mod c)"
proof -
  have "slot_free c (length L) d P p (p mod c)" using inv c by (simp add: slot_inv_free_iff)
  with p v show ?thesis by (auto simp: slot_inv_def slot_full_def slot_free_def)
qed

lemma slot_inv_freed:
  assumes inv: "slot_inv c L d P C (Suc p) v (p mod c)" and c: "2 \<le> c" and p: "p < d"
  shows "slot_inv c L d P C' (p + c) v' (p mod c)"
proof -
  have "slot_full c L d C (Suc p) v (p mod c)" using inv c by (simp add: slot_inv_full_iff)
  with p show ?thesis by (auto simp: slot_inv_def slot_full_def slot_free_def)
qed

lemma slot_inv_ticket_done:
  assumes inv: "slot_inv c L d P C u v i"
    and P: "P t = Some p \<Longrightarrow> i \<noteq> p mod c" and C: "C t = Some p \<Longrightarrow> i \<noteq> p mod c"
  shows "P t = Some p \<Longrightarrow> slot_inv c L d (P(t := None)) C u v i"
    and "C t = Some p \<Longrightarrow> slot_inv c L d P (C(t := None)) u v i"
  using inv P C unfolding slot_inv_def slot_free_def slot_full_def
  by (fastforce intro: range_upd_other)+

lemma tickets_unique_upd_None: "tickets_unique P \<Longrightarrow> tickets_unique (P(t := None))"
  by (auto simp: tickets_unique_def split: if_splits)

lemma tickets_unique_upd_new:
  "tickets_unique P \<Longrightarrow> (\<And>t' p. P t' = Some p \<Longrightarrow> p < n) \<Longrightarrow> tickets_unique (P(t := Some n))"
  unfolding tickets_unique_def by (metis fun_upd_apply nat_neq_iff option.inject)


subsection \<open>Threads under each kind of step\<close>

lemma thread_ok_enq: "thread_ok c L d q th \<Longrightarrow> d \<le> length L \<Longrightarrow> thread_ok c (L @ [x]) d q th"
  by (cases "(c, L, d, q, th)" rule: thread_ok.cases) (auto simp: nth_append)

lemma thread_ok_deq: "thread_ok c L d q th \<Longrightarrow> Suc d \<le> length L \<Longrightarrow> thread_ok c L (Suc d) q th"
  by (cases "(c, L, d, q, th)" rule: thread_ok.cases) auto

lemma thread_ok_cong:
  assumes "thread_ok c L d q th" and "sq q' = sq q" and "vl q' = vl q"
  shows "thread_ok c L d q' th"
  using assms by (cases "(c, L, d, q, th)" rule: thread_ok.cases) auto

lemma thread_ok_ticket:
  "thread_ok c L d q th \<Longrightarrow> prod_ticket th = Some p \<Longrightarrow> sq q (p mod c) = p \<and> p < length L"
  "thread_ok c L d q th \<Longrightarrow> cons_ticket th = Some p \<Longrightarrow> sq q (p mod c) = Suc p \<and> p < d"
  by (cases "(c, L, d, q, th)" rule: thread_ok.cases; auto)+

lemma thread_ok_set_value:
  assumes "thread_ok c L d q th" and "geom c q"
    and "\<And>p. prod_ticket th = Some p \<Longrightarrow> p mod c \<noteq> unat pos mod c"
    and "\<And>p. cons_ticket th = Some p \<Longrightarrow> p mod c \<noteq> unat pos mod c"
  shows "thread_ok c L d (set_value q pos v) th"
  using assms by (cases "(c, L, d, q, th)" rule: thread_ok.cases) (auto simp: sq_set_sequence)

lemma thread_ok_set_sequence:
  assumes "thread_ok c L d q th" and "geom c q"
    and "\<And>p. prod_ticket th = Some p \<Longrightarrow> p mod c \<noteq> unat pos mod c"
    and "\<And>p. cons_ticket th = Some p \<Longrightarrow> p mod c \<noteq> unat pos mod c"
    and "sq q (length L mod c) = length L \<Longrightarrow> length L mod c \<noteq> unat pos mod c"
    and "sq q (d mod c) = Suc d \<Longrightarrow> d mod c \<noteq> unat pos mod c"
  shows "thread_ok c L d (set_sequence q pos v) th"
  using assms by (cases "(c, L, d, q, th)" rule: thread_ok.cases) (auto simp: sq_set_sequence)

subsection \<open>The invariant under each kind of step\<close>

lemma q_inv_facts:
  assumes "q_inv c L d q thr"
  shows "geom c q" "2 \<le> c" "0 < c" "unat (enqueue_pos q) = length L" "unat (dequeue_pos q) = d" "d \<le> length L"
    "thread_ok c L d q (thr t)"
    "tickets_unique (prod_ticket \<circ> thr)" "tickets_unique (cons_ticket \<circ> thr)"
    "i < c \<Longrightarrow> slot_inv c L d (prod_ticket \<circ> thr) (cons_ticket \<circ> thr) (sq q i) (vl q i) i"
  using assms geom_bounds [of c q] by (auto simp: q_inv_def)

lemma unique_prod: "q_inv c L d q thr \<Longrightarrow> prod_ticket (thr t) = Some p \<Longrightarrow> prod_ticket (thr t') = Some p \<Longrightarrow> t = t'"
  using q_inv_facts(8) [of c L d q thr] by (auto simp: tickets_unique_def)

lemma unique_cons: "q_inv c L d q thr \<Longrightarrow> cons_ticket (thr t) = Some p \<Longrightarrow> cons_ticket (thr t') = Some p \<Longrightarrow> t = t'"
  using q_inv_facts(9) [of c L d q thr] by (auto simp: tickets_unique_def)

lemma upd_same_comp: "f th = f (g t) \<Longrightarrow> f \<circ> g(t := th) = f \<circ> g"
  by (auto simp: fun_eq_iff)

text \<open>Steps that only move one thread to a program point with a weaker obligation.\<close>

lemma q_inv_silent:
  assumes "q_inv c L d q thr" and "thread_ok c L d q th"
    and "prod_ticket th = prod_ticket (thr t)" and "cons_ticket th = cons_ticket (thr t)"
  shows "q_inv c L d q (thr(t := th))"
  using assms by (auto simp: q_inv_def upd_same_comp)

text \<open>Two threads never own the same slot.\<close>

lemma owners_distinct:
  assumes inv: "q_inv c L d q thr" and "t \<noteq> t'"
    and own: "prod_ticket (thr t) = Some p \<or> cons_ticket (thr t) = Some p"
    and own': "prod_ticket (thr t') = Some p' \<or> cons_ticket (thr t') = Some p'"
  shows "p mod c \<noteq> p' mod c"
proof
  assume eq: "p mod c = p' mod c"
  note ok = q_inv_facts(7) [OF inv]
  from own have "prod_ticket (thr t) = Some p \<and> sq q (p mod c) = p \<or>
      cons_ticket (thr t) = Some p \<and> sq q (p mod c) = Suc p"
    using thread_ok_ticket [OF ok] by blast
  moreover from own' have "prod_ticket (thr t') = Some p' \<and> sq q (p' mod c) = p' \<or>
      cons_ticket (thr t') = Some p' \<and> sq q (p' mod c) = Suc p'"
    using thread_ok_ticket [OF ok] by blast
  ultimately show False
    using eq succ_mod_neq [OF q_inv_facts(2) [OF inv]] unique_prod [OF inv] unique_cons [OF inv] \<open>t \<noteq> t'\<close>
    by (metis nat.inject)
qed

lemma q_inv_enq:
  assumes inv: "q_inv c L d q thr" and t: "thr t = Pushing x (PushCas y pos)"
    and pos: "enqueue_pos q = pos" and bound: "length L < 2 ^ 62"
  shows "q_inv c (L @ [y]) d (q\<lparr>enqueue_pos := pos + 1\<rparr>) (thr(t := Pushing x (PushWrite y pos)))"
proof -
  note F = q_inv_facts [OF inv]
  have e: "unat pos = length L" using F(4) pos by simp
  then have e': "unat (pos + 1) = Suc (length L)" using bound unat_Suc_word [of pos] by simp
  have won: "y = x" "sq q (length L mod c) = length L" using F(7) [of t] t e by auto
  have "slot_inv c (L @ [y]) d ((prod_ticket \<circ> thr)(t := Some (length L))) (cons_ticket \<circ> thr) (sq q i) (vl q i) i"
    if "i < c" for i
    using slot_inv_enq [OF F(10) [OF that] F(2)] won t by simp
  moreover have "cons_ticket \<circ> thr(t := Pushing x (PushWrite y pos)) = cons_ticket \<circ> thr"
    using t by (simp add: upd_same_comp)
  moreover have "tickets_unique ((prod_ticket \<circ> thr)(t := Some (length L)))"
    using F(8) by (rule tickets_unique_upd_new) (use thread_ok_ticket(1) [OF F(7)] in auto)
  moreover have "thread_ok c (L @ [y]) d (q\<lparr>enqueue_pos := pos + 1\<rparr>) (thr t')" for t'
    by (rule thread_ok_cong [OF thread_ok_enq [OF F(7) F(6)]]) simp_all
  ultimately show ?thesis
    using F won e e' by (auto simp: q_inv_def fun_upd_comp)
qed

lemma q_inv_deq:
  assumes inv: "q_inv c L d q thr" and t: "thr t = Popping (PopCas pos)"
    and pos: "dequeue_pos q = pos" and bound: "length L < 2 ^ 62"
  shows "q_inv c L (Suc d) (q\<lparr>dequeue_pos := pos + 1\<rparr>) (thr(t := Popping (PopTake pos)))"
proof -
  note F = q_inv_facts [OF inv]
  have e: "unat pos = d" using F(5) pos by simp
  then have e': "unat (pos + 1) = Suc d" using bound F(6) unat_Suc_word [of pos] by simp
  have won: "sq q (d mod c) = Suc d" using F(7) [of t] t e by auto
  have "slot_inv c L d (prod_ticket \<circ> thr) (cons_ticket \<circ> thr) (Suc d) (vl q (d mod c)) (d mod c)"
    using F(10) [of "d mod c"] F(3) won by simp
  then have lt: "d < length L" and v: "vl q (d mod c) = Some (L ! d)"
    by (auto simp: slot_inv_full_iff [OF F(2)] slot_full_def)
  have "slot_inv c L (Suc d) (prod_ticket \<circ> thr) ((cons_ticket \<circ> thr)(t := Some d)) (sq q i) (vl q i) i"
    if "i < c" for i
    using slot_inv_deq [OF F(10) [OF that] F(2)] won t by simp
  moreover have "prod_ticket \<circ> thr(t := Popping (PopTake pos)) = prod_ticket \<circ> thr"
    using t by (simp add: upd_same_comp)
  moreover have "tickets_unique ((cons_ticket \<circ> thr)(t := Some d))"
    using F(9) by (rule tickets_unique_upd_new) (use thread_ok_ticket(2) [OF F(7)] in auto)
  moreover have "thread_ok c L (Suc d) (q\<lparr>dequeue_pos := pos + 1\<rparr>) (thr t')" for t'
    by (rule thread_ok_cong [OF thread_ok_deq [OF F(7)]]) (use lt in simp_all)
  ultimately show ?thesis
    using F won e e' lt v by (auto simp: q_inv_def fun_upd_comp)
qed

lemma q_inv_write:
  assumes inv: "q_inv c L d q thr" and t: "thr t = Pushing x (PushWrite y pos)"
  shows "q_inv c L d (set_value q pos (Some y)) (thr(t := Pushing x (PushStore pos)))"
proof -
  note F = q_inv_facts [OF inv]
  let ?p = "unat pos"
  have own: "?p < length L" "sq q (?p mod c) = ?p" "L ! ?p = y" "y = x" using F(7) [of t] t by auto
  have "slot_inv c L d (prod_ticket \<circ> thr) (cons_ticket \<circ> thr) (sq q i) (vl (set_value q pos (Some y)) i) i"
    if "i < c" for i
    using F(10) [OF that] own F(1) F(2)
    by (cases "i = ?p mod c") (auto simp: sq_set_sequence slot_inv_free_iff)
  moreover have "prod_ticket \<circ> thr(t := Pushing x (PushStore pos)) = prod_ticket \<circ> thr"
    "cons_ticket \<circ> thr(t := Pushing x (PushStore pos)) = cons_ticket \<circ> thr"
    using t by (simp_all add: upd_same_comp)
  moreover have "thread_ok c L d (set_value q pos (Some y)) (thr t')" if "t' \<noteq> t" for t'
    using owners_distinct [OF inv, of t' t _ ?p] that t
    by (intro thread_ok_set_value [OF F(7) F(1)]) auto
  ultimately show ?thesis
    using F own by (auto simp: q_inv_def sq_set_sequence)
qed


lemma q_inv_store:
  assumes inv: "q_inv c L d q thr" and t: "thr t = Pushing x (PushStore pos)" and bound: "length L < 2 ^ 62"
  shows "q_inv c L d (set_sequence q pos (pos + 1)) (thr(t := Pushing x (PushDone (Inr ()))))"
proof -
  note F = q_inv_facts [OF inv]
  let ?p = "unat pos" and ?th = "Pushing x (PushDone (Inr ()))"
  have own: "?p < length L" "sq q (?p mod c) = ?p" "vl q (?p mod c) = Some (L ! ?p)" using F(7) [of t] t by auto
  then have suc: "unat (pos + 1) = Suc ?p" using bound unat_Suc_word [of pos] by simp
  have P: "(prod_ticket \<circ> thr) t = Some ?p" using t by simp
  have "slot_inv c L d ((prod_ticket \<circ> thr)(t := None)) (cons_ticket \<circ> thr)
      (sq (set_sequence q pos (pos + 1)) i) (vl q i) i" if i: "i < c" for i
  proof (cases "i = ?p mod c")
    case True
    have "slot_inv c L d ((prod_ticket \<circ> thr)(t := None)) (cons_ticket \<circ> thr) (Suc ?p) (vl q i) i"
      unfolding True by (rule slot_inv_filled [of _ _ _ "prod_ticket \<circ> thr"]) (use own F(2,3) F(10) [OF i] True in simp_all)
    with True suc F(1) show ?thesis by (simp add: sq_set_sequence)
  next
    case False
    then show ?thesis
      using slot_inv_ticket_done(1) [OF F(10) [OF i], of t ?p] P t F(1) by (simp add: sq_set_sequence)
  qed
  moreover have "cons_ticket \<circ> thr(t := ?th) = cons_ticket \<circ> thr"
    using t by (simp add: upd_same_comp)
  moreover have "thread_ok c L d (set_sequence q pos (pos + 1)) (thr t')" if "t' \<noteq> t" for t'
    using owners_distinct [OF inv, of t' t _ ?p] that t own succ_mod_neq [OF F(2), of d]
    by (intro thread_ok_set_sequence [OF F(7) F(1)]) auto
  ultimately show ?thesis
    using F(1-6) tickets_unique_upd_None [OF F(8)] F(9)
    by (auto simp: q_inv_def sq_set_sequence fun_upd_comp)
qed

lemma q_inv_take:
  assumes inv: "q_inv c L d q thr" and t: "thr t = Popping (PopTake pos)"
  shows "q_inv c L d (set_value q pos None) (thr(t := Popping (PopStore pos (vl q (unat pos mod c)))))"
proof -
  note F = q_inv_facts [OF inv]
  let ?p = "unat pos" and ?th = "Popping (PopStore pos (vl q (unat pos mod c)))"
  have own: "?p < d" "sq q (?p mod c) = Suc ?p" "vl q (?p mod c) = Some (L ! ?p)" using F(7) [of t] t by auto
  have "slot_inv c L d (prod_ticket \<circ> thr) (cons_ticket \<circ> thr) (sq q i) (vl (set_value q pos None) i) i"
    if "i < c" for i
    using F(10) [OF that] own F(1) F(2)
    by (cases "i = ?p mod c") (auto simp: sq_set_sequence slot_inv_full_iff slot_full_def)
  moreover have "prod_ticket \<circ> thr(t := ?th) = prod_ticket \<circ> thr" "cons_ticket \<circ> thr(t := ?th) = cons_ticket \<circ> thr"
    using t by (simp_all add: upd_same_comp)
  moreover have "thread_ok c L d (set_value q pos None) (thr t')" if "t' \<noteq> t" for t'
    using owners_distinct [OF inv, of t' t _ ?p] that t
    by (intro thread_ok_set_value [OF F(7) F(1)]) auto
  ultimately show ?thesis
    using F own by (auto simp: q_inv_def sq_set_sequence)
qed

lemma unat_pos_plus_cap:
  fixes pos :: usize
  assumes "geom c q" and "unat pos < 2 ^ 62"
  shows "unat (pos + mask q + 1) = unat pos + c"
proof -
  obtain k where k: "c = 2 ^ k" "mask q = 2 ^ k - 1" and c: "c \<le> 2 ^ 62"
    using assms(1) by (auto simp: geom_def)
  have "pos + mask q + 1 = of_nat (unat pos + c)" using k by simp
  moreover have "unat pos + c < 2 ^ 64" using assms(2) c by simp
  ultimately show ?thesis by (simp only: unat_of_nat len_num1 len_bit0) simp
qed

lemma q_inv_pop_store:
  assumes inv: "q_inv c L d q thr" and t: "thr t = Popping (PopStore pos v)" and bound: "length L < 2 ^ 62"
  shows "q_inv c L d (set_sequence q pos (pos + mask q + 1)) (thr(t := Popping (PopDone v)))"
proof -
  note F = q_inv_facts [OF inv]
  let ?p = "unat pos" and ?th = "Popping (PopDone v)" and ?q = "set_sequence q pos (pos + mask q + 1)"
  have own: "?p < d" "sq q (?p mod c) = Suc ?p" using F(7) [of t] t by auto
  have new: "unat (pos + mask q + 1) = ?p + c"
    by (rule unat_pos_plus_cap [OF F(1)]) (use own F(6) bound in linarith)
  have C: "(cons_ticket \<circ> thr) t = Some ?p" using t by simp
  have "slot_inv c L d (prod_ticket \<circ> thr) ((cons_ticket \<circ> thr)(t := None)) (sq ?q i) (vl q i) i"
    if i: "i < c" for i
  proof (cases "i = ?p mod c")
    case True
    have "slot_inv c L d (prod_ticket \<circ> thr) ((cons_ticket \<circ> thr)(t := None)) (?p + c) (vl q i) i"
      unfolding True by (rule slot_inv_freed [of _ _ _ _ "cons_ticket \<circ> thr"]) (use own F(2,3) F(10) [OF i] True in simp_all)
    with True new F(1) show ?thesis by (simp add: sq_set_sequence)
  next
    case False
    then show ?thesis
      using slot_inv_ticket_done(2) [OF F(10) [OF i], of t ?p] C t F(1) by (simp add: sq_set_sequence)
  qed
  moreover have "prod_ticket \<circ> thr(t := ?th) = prod_ticket \<circ> thr"
    using t by (simp add: upd_same_comp)
  moreover have "thread_ok c L d ?q (thr t')" if "t' \<noteq> t" for t'
    using owners_distinct [OF inv, of t' t _ ?p] that t own succ_mod_neq [OF F(2), of ?p]
    by (intro thread_ok_set_sequence [OF F(7) F(1)]) auto
  ultimately show ?thesis
    using F(1-6) tickets_unique_upd_None [OF F(9)] F(8)
    by (auto simp: q_inv_def sq_set_sequence fun_upd_comp)
qed


lemma q_inv_push_step:
  assumes inv: "q_inv c L d q thr" and t: "thr t = Pushing x pc" and act: "push_active pc"
    and st: "push_step f q pc = (q', pc')" and bound: "length L < 2 ^ 62"
  shows "q_inv c (L @ map snd (enq_event (PushAct t pc pc'))) d q' (thr(t := Pushing x pc'))"
proof (cases pc)
  case (PushLoad y)
  with st have e: "q' = q" "pc' = PushSeq y (enqueue_pos q)" by auto
  have "y = x" using q_inv_facts(7) [OF inv, of t] t PushLoad by simp
  with t PushLoad show ?thesis
    unfolding e by (auto intro!: q_inv_silent [OF inv] simp: q_inv_facts(4) [OF inv])
next
  case (PushSeq y pos)
  then have "y = x" "unat pos \<le> length L" using q_inv_facts(7) [OF inv, of t] t by auto
  with st inv t PushSeq show ?thesis
    by (auto elim!: q_inv_silent simp: geom_slot [OF q_inv_facts(1) [OF inv]] seq_diff_0 sq_def Let_def split: if_splits)
next
  case (PushCas y pos)
  then have y: "y = x" using q_inv_facts(7) [OF inv, of t] t by auto
  show ?thesis
  proof (cases "enqueue_pos q = pos \<and> \<not> f")
    case True
    with q_inv_enq [OF inv _ _ bound, of t x y pos] t st PushCas show ?thesis by auto
  next
    case False
    with st have e: "q' = q" "pc' = PushSeq y (enqueue_pos q)" using PushCas by auto
    show ?thesis
      unfolding e using t PushCas y by (auto intro!: q_inv_silent [OF inv] simp: q_inv_facts(4) [OF inv])
  qed
next
  case (PushWrite y pos)
  with q_inv_write [OF inv, of t x y pos] t st show ?thesis by auto
next
  case (PushStore pos)
  with q_inv_store [OF inv _ bound, of t x pos] t st show ?thesis by auto
qed (use act in auto)

lemma q_inv_pop_step:
  assumes inv: "q_inv c L d q thr" and t: "thr t = Popping pc" and act: "pop_active pc"
    and st: "pop_step f q pc = (q', pc')" and bound: "length L < 2 ^ 62"
  shows "q_inv c L (d + length (deq_event (PopAct t pc pc'))) q' (thr(t := Popping pc'))"
proof (cases pc)
  case PopLoad
  with st have e: "q' = q" "pc' = PopSeq (dequeue_pos q)" by auto
  from t PopLoad show ?thesis
    unfolding e by (auto intro!: q_inv_silent [OF inv] simp: q_inv_facts(5) [OF inv])
next
  case (PopSeq pos)
  then have le: "unat pos \<le> d" using q_inv_facts(7) [OF inv, of t] t by auto
  then have "unat (pos + 1) = Suc (unat pos)"
    using unat_Suc_word [of pos] bound q_inv_facts(6) [OF inv] by simp
  with st inv t PopSeq le show ?thesis
    by (auto elim!: q_inv_silent simp: geom_slot [OF q_inv_facts(1) [OF inv]] seq_diff_0 sq_def Let_def split: if_splits)
next
  case (PopCas pos)
  show ?thesis
  proof (cases "dequeue_pos q = pos \<and> \<not> f")
    case True
    with q_inv_deq [OF inv _ _ bound, of t pos] t st PopCas show ?thesis by auto
  next
    case False
    with st have e: "q' = q" "pc' = PopSeq (dequeue_pos q)" using PopCas by auto
    show ?thesis
      unfolding e using t PopCas by (auto intro!: q_inv_silent [OF inv] simp: q_inv_facts(5) [OF inv])
  qed
next
  case (PopTake pos)
  have "slot_index q pos = unat pos mod c" by (rule geom_index [OF q_inv_facts(1) [OF inv]])
  with q_inv_take [OF inv, of t pos] t st PopTake show ?thesis by (auto simp: vl_def)
next
  case (PopStore pos v)
  with q_inv_pop_store [OF inv _ bound, of t pos v] t st show ?thesis by auto
qed (use act in auto)

definition conf_inv :: "nat \<Rightarrow> 'a label list \<Rightarrow> 'a conf \<Rightarrow> bool" where
  "conf_inv c ls s \<longleftrightarrow> q_inv c (map snd (enq_log ls)) (length (deq_log ls)) (shared s) (threads s)"

lemma conf_inv_start:
  assumes "queue_new cap = Some q" and "2 \<le> unat cap" and "unat cap \<le> 2 ^ 62"
  shows "conf_inv (unat cap) [] \<lparr>shared = q, threads = (\<lambda>_. Idle)\<rparr>"
proof -
  from assms(1) have p: "is_power_of_two cap"
    and q: "q = \<lparr>buffer = map (\<lambda>i. \<lparr>sequence = of_nat i, slot_value = None\<rparr>) [0..<unat cap],
                 mask = cap - 1, enqueue_pos = 0, dequeue_pos = 0\<rparr>"
    by (auto simp: queue_new_def split: if_splits)
  from p obtain k where k: "k \<le> 63" "unat cap = 2 ^ k" "cap = 2 ^ k" by (rule is_power_of_twoE)
  have "geom (unat cap) q" using assms(2,3) k by (auto simp: geom_def q)
  moreover have "sq q i = i" if "i < unat cap" for i
    using that assms(3) by (simp add: sq_def q unat_of_nat)
  ultimately show ?thesis
    by (auto simp: conf_inv_def q_inv_def slot_inv_def slot_free_def tickets_unique_def) (simp_all add: q)
qed

lemma event_lengths: "length (enq_event l) \<le> 1 \<and> length (deq_event l) \<le> 1"
  by (cases l rule: enq_event.cases; cases l rule: deq_event.cases) auto

lemma log_lengths: "length (enq_log ls) \<le> length ls \<and> length (deq_log ls) \<le> length ls"
proof (induction ls rule: rev_induct)
  case (snoc l ls)
  then show ?case using event_lengths [of l] by auto
qed simp

lemma conf_inv_step:
  assumes inv: "conf_inv c ls s" and st: "conf_step s l s'" and bound: "length ls < 2 ^ 62"
  shows "conf_inv c (ls @ [l]) s'"
proof -
  let ?L = "map snd (enq_log ls)" and ?d = "length (deq_log ls)"
  have inv': "q_inv c ?L ?d (shared s) (threads s)" using inv by (simp add: conf_inv_def)
  have b: "length ?L < 2 ^ 62" using log_lengths [of ls] bound by simp
  from st show ?thesis
  proof cases
    case (push_act t x pc f q' pc')
    with q_inv_push_step [OF inv' push_act(3,4,5) b] show ?thesis by (simp add: conf_inv_def)
  next
    case (pop_act t pc f q' pc')
    with q_inv_pop_step [OF inv' pop_act(3,4,5) b] show ?thesis by (simp add: conf_inv_def)
  qed (auto simp: conf_inv_def intro!: q_inv_silent [OF inv'])
qed

lemma exec_inv:
  assumes "exec cap ls s" and "2 \<le> unat cap" and "unat cap \<le> 2 ^ 62" and "length ls \<le> 2 ^ 62"
  shows "conf_inv (unat cap) ls s"
  using assms by (induction rule: exec.induct) (auto intro: conf_inv_start conf_inv_step)


subsection \<open>What the histories say\<close>

text \<open>The ticket a consumer has won and not yet taken, and the values a thread holds but has
  not yet returned to its caller.\<close>

fun waiting_ticket :: "'a thread \<Rightarrow> nat option" where
  "waiting_ticket (Popping (PopTake pos)) = Some (unat pos)"
| "waiting_ticket _ = None"

fun pending_return :: "'a thread \<Rightarrow> 'a list" where
  "pending_return (Popping (PopStore pos (Some v))) = [v]"
| "pending_return (Popping (PopDone (Some v))) = [v]"
| "pending_return _ = []"

fun pending_accept :: "'a thread \<Rightarrow> 'a list" where
  "pending_accept (Pushing x (PushWrite y pos)) = [x]"
| "pending_accept (Pushing x (PushStore pos)) = [x]"
| "pending_accept (Pushing x (PushDone (Inr u))) = [x]"
| "pending_accept _ = []"

definition of_thread :: "nat \<Rightarrow> (nat \<times> 'b) list \<Rightarrow> 'b list" where
  "of_thread t xs = map snd (filter (\<lambda>p. fst p = t) xs)"

lemma of_thread_simps [simp]:
  "of_thread t [] = []"
  "of_thread t ((t', x) # xs) = (if t = t' then [x] else []) @ of_thread t xs"
  "of_thread t (xs @ ys) = of_thread t xs @ of_thread t ys"
  by (auto simp: of_thread_def)

definition takes_ok :: "'a label list \<Rightarrow> bool" where
  "takes_ok ls \<longleftrightarrow> (\<forall>(t, p, v) \<in> set (take_log ls).
     p < length (deq_log ls) \<and> v = Some (map snd (enq_log ls) ! p))"

definition tickets_ok :: "nat \<Rightarrow> nat list \<Rightarrow> (nat \<Rightarrow> nat option) \<Rightarrow> bool" where
  "tickets_ok n T W \<longleftrightarrow> distinct T \<and> (\<forall>p. p < n \<longleftrightarrow> p \<in> set T \<or> Some p \<in> range W) \<and>
     (\<forall>p \<in> set T. Some p \<notin> range W)"

abbreviation taken_tickets :: "'a label list \<Rightarrow> nat list" where
  "taken_tickets ls \<equiv> map (fst \<circ> snd) (take_log ls)"

lemma in_range_upd: "Some u \<in> range (W(t := x)) \<longleftrightarrow> x = Some u \<or> (\<exists>t'. t' \<noteq> t \<and> W t' = Some u)"
  by (auto simp: image_iff)

lemma tickets_ok_take:
  assumes "tickets_ok n T W" and "W t = Some p" and "\<And>t'. W t' = Some p \<Longrightarrow> t' = t"
  shows "tickets_ok n (T @ [p]) (W(t := None))"
proof -
  have *: "Some u \<in> range (W(t := None)) \<longleftrightarrow> u \<noteq> p \<and> Some u \<in> range W" for u
    unfolding in_range_upd using assms(2,3) by (metis option.distinct(1) option.inject rangeE rangeI)
  have "Some p \<in> range W" using assms(2) by (metis rangeI)
  with assms(1) show ?thesis unfolding tickets_ok_def * by auto
qed

lemma tickets_ok_win:
  assumes "tickets_ok n T W" and "W t = None"
  shows "tickets_ok (Suc n) T (W(t := Some n))"
proof -
  have *: "Some u \<in> range (W(t := Some n)) \<longleftrightarrow> u = n \<or> Some u \<in> range W" for u
    unfolding in_range_upd using assms(2) by (metis option.distinct(1) option.inject rangeE rangeI)
  with assms(1) show ?thesis unfolding tickets_ok_def * by (auto simp: less_Suc_eq)
qed

definition order_ok :: "'a label list \<Rightarrow> (nat \<Rightarrow> 'a thread) \<Rightarrow> bool" where
  "order_ok ls thr \<longleftrightarrow> (\<forall>t. sorted_wrt (<) (map fst (of_thread t (take_log ls))) \<and>
     (\<forall>p. waiting_ticket (thr t) = Some p \<longrightarrow> (\<forall>p' \<in> set (map fst (of_thread t (take_log ls))). p' < p)))"

definition returns_ok :: "'a label list \<Rightarrow> (nat \<Rightarrow> 'a thread) \<Rightarrow> bool" where
  "returns_ok ls thr \<longleftrightarrow> (\<forall>t.
     map (the \<circ> snd) (of_thread t (take_log ls)) = of_thread t (returned ls) @ pending_return (thr t) \<and>
     of_thread t (enq_log ls) = of_thread t (accepted ls) @ pending_accept (thr t))"

lemma of_thread_set: "p \<in> set (map fst (of_thread t xs)) \<longleftrightarrow> (\<exists>v. (t, p, v) \<in> set xs)"
  by (force simp: of_thread_def)

lemma waiting_is_consumer: "waiting_ticket th = Some p \<Longrightarrow> cons_ticket th = Some p"
  by (cases th rule: waiting_ticket.cases) auto

lemma takes_ok_step:
  assumes inv: "conf_inv c ls s" and ok: "takes_ok ls" and st: "conf_step s l s'"
  shows "takes_ok (ls @ [l])"
proof -
  note F = q_inv_facts [OF inv [unfolded conf_inv_def]]
  have old: "p < length (deq_log ls) \<and> v = Some (map snd (enq_log ls) ! p) \<and> p < length (enq_log ls)"
    if "(t, p, v) \<in> set (take_log ls)" for t p v
    using ok that F(6) by (auto simp: takes_ok_def)
  have new: "p < length (deq_log ls) \<and> v = Some (map snd (enq_log ls) ! p) \<and> p < length (enq_log ls)"
    if "(t, p, v) \<in> set (take_event l)" for t p v
    using st
  proof cases
    case (pop_act t' pc f q' pc')
    from that pop_act obtain pos where pc: "pc = PopTake pos" "t' = t" "p = unat pos" "pc' = PopStore pos v"
      by (cases pc) (auto split: if_splits option.splits)
    have "v = slot_value (buffer (shared s) ! slot_index (shared s) pos)"
      using pop_act(5) pc by auto
    then have "v = vl (shared s) (unat pos mod c)" by (simp add: vl_def geom_index [OF F(1)])
    with F(7) [of t] F(6) pop_act(3) pc show ?thesis by auto
  qed (use that in auto)
  show ?thesis
    unfolding takes_ok_def using old new by (fastforce simp: nth_append)
qed

text \<open>The only steps of a consumer that touch the logs: winning a ticket and taking the value.\<close>

lemma pop_act_cases:
  assumes inv: "conf_inv c ls s" and st: "pop_step f (shared s) pc = (q', pc')" "pop_active pc"
    and t: "threads s t = Popping pc"
  obtains (take) pos x where "pc = PopTake pos" "pc' = PopStore pos (Some x)"
      "x = map snd (enq_log ls) ! unat pos" "unat pos < length (deq_log ls)"
    | (win) pos where "pc = PopCas pos" "pc' = PopTake pos" "unat pos = length (deq_log ls)"
    | (other) "take_event (PopAct t pc pc') = []" "deq_event (PopAct t pc pc') = []"
        "waiting_ticket (Popping pc') = None" "waiting_ticket (Popping pc) = None"
        "pending_return (Popping pc') = pending_return (Popping pc)"
proof -
  note F = q_inv_facts [OF inv [unfolded conf_inv_def]]
  show thesis
  proof (cases pc)
    case (PopTake pos)
    have "slot_value (buffer (shared s) ! slot_index (shared s) pos) = vl (shared s) (unat pos mod c)"
      by (simp add: vl_def geom_index [OF F(1)])
    with PopTake st F(7) [of t] t show thesis by (intro that(1) [of pos]) auto
  next
    case (PopCas pos)
    show thesis
    proof (cases "dequeue_pos (shared s) = pos \<and> \<not> f")
      case True
      with st PopCas F(5) show thesis by (intro that(2)) auto
    next
      case False
      with st PopCas show thesis by (intro that(3)) (auto split: if_splits)
    qed
  next
    case (PopStore pos v)
    with st show thesis by (intro that(3); cases v) auto
  qed (use that(3) st in \<open>auto simp: Let_def split: if_splits option.splits\<close>)
qed

lemma tickets_ok_step:
  assumes inv: "conf_inv c ls s" and st: "conf_step s l s'"
    and ok: "tickets_ok (length (deq_log ls)) (taken_tickets ls) (waiting_ticket \<circ> threads s)"
  shows "tickets_ok (length (deq_log (ls @ [l]))) (taken_tickets (ls @ [l])) (waiting_ticket \<circ> threads s')"
proof -
  note inv' = inv [unfolded conf_inv_def]
  have uniq: "t' = t" if "waiting_ticket (threads s t) = Some p" "waiting_ticket (threads s t') = Some p" for t t' p
    using unique_cons [OF inv'] that waiting_is_consumer by blast
  from st show ?thesis
  proof cases
    case (pop_act t pc f q' pc')
    show ?thesis
      using inv pop_act(5,4,3)
    proof (cases rule: pop_act_cases)
      case (take pos x)
      with pop_act tickets_ok_take [OF ok, of t "unat pos"] uniq [of t "unat pos"] show ?thesis
        by (simp add: fun_upd_comp)
    next
      case (win pos)
      with pop_act tickets_ok_win [OF ok, of t] show ?thesis by (simp add: fun_upd_comp)
    next
      case other
      with pop_act ok show ?thesis by (simp add: upd_same_comp)
    qed
  next
    case (push_act t x pc f q' pc')
    then have "waiting_ticket \<circ> threads s' = waiting_ticket \<circ> threads s" by (auto simp: fun_eq_iff)
    with push_act ok show ?thesis by (cases pc) auto
  qed (use ok in \<open>auto simp: upd_same_comp\<close>)
qed

lemma order_ok_step:
  assumes inv: "conf_inv c ls s" and st: "conf_step s l s'" and ok: "order_ok ls (threads s)"
    and takes: "takes_ok ls"
  shows "order_ok (ls @ [l]) (threads s')"
proof -
  have same: ?thesis if "take_event l = []" "\<And>t p. waiting_ticket (threads s' t) = Some p \<Longrightarrow> waiting_ticket (threads s t) = Some p"
    using ok that unfolding order_ok_def by (simp, blast)
  from st show ?thesis
  proof cases
    case (pop_act t pc f q' pc')
    show ?thesis
      using inv pop_act(5,4,3)
    proof (cases rule: pop_act_cases)
      case (take pos x)
      then have "\<forall>p' \<in> set (map fst (of_thread t (take_log ls))). p' < unat pos"
        using ok [unfolded order_ok_def, THEN spec, of t] pop_act by auto
      with take pop_act ok show ?thesis by (auto simp: order_ok_def sorted_wrt_append)
    next
      case (win pos)
      have "p' < unat pos" if "p' \<in> set (map fst (of_thread t (take_log ls)))" for p'
        using that takes win unfolding of_thread_set takes_ok_def by auto
      with win pop_act ok show ?thesis by (auto simp: order_ok_def)
    next
      case other
      with pop_act show ?thesis by (intro same) (auto split: if_splits)
    qed
  next
    case (push_act t x pc f q' pc')
    then show ?thesis by (intro same) (auto split: if_splits)
  qed (rule same; auto split: if_splits)+
qed

lemma returns_ok_step:
  assumes inv: "conf_inv c ls s" and st: "conf_step s l s'" and ok: "returns_ok ls (threads s)"
  shows "returns_ok (ls @ [l]) (threads s')"
proof -
  note F = q_inv_facts [OF inv [unfolded conf_inv_def]]
  from st show ?thesis
  proof cases
    case (pop_act t pc f q' pc')
    have acc: "pending_accept (Popping p) = []" for p :: "'a pop_pc" by (cases p) auto
    show ?thesis
      using inv pop_act(5,4,3)
    proof (cases rule: pop_act_cases)
      case (take pos x)
      with pop_act ok show ?thesis by (auto simp: returns_ok_def)
    next
      case (win pos)
      with pop_act ok show ?thesis by (auto simp: returns_ok_def)
    next
      case other
      with pop_act ok show ?thesis by (auto simp: returns_ok_def acc)
    qed
  next
    case (push_act t x pc f q' pc')
    have ret: "pending_return (Pushing z p) = []" for z :: 'a and p by simp
    have "pending_accept (Pushing x pc') = pending_accept (Pushing x pc) @ map snd (enq_event l)"
      using push_act F(7) [of t] by (cases pc) (auto simp: Let_def split: if_splits option.splits)
    moreover have "of_thread t' (enq_event l) = (if t' = t then map snd (enq_event l) else [])" for t'
      using push_act by (cases pc; cases pc') auto
    ultimately show ?thesis using push_act ok by (auto simp: returns_ok_def)
  next
    case (ret_push t x r)
    then show ?thesis using ok F(7) [of t] by (cases r) (auto simp: returns_ok_def)
  next
    case (ret_pop t r)
    then show ?thesis using ok by (cases r) (auto simp: returns_ok_def)
  qed (use ok in \<open>auto simp: returns_ok_def\<close>)
qed

text \<open>
  All that an execution guarantees about its history: the protocol invariant and the four
  facts about the logs. Every step of the code preserves it, and so does any step that moves
  one thread without touching the shared state or the logs.
\<close>

definition hist_ok :: "nat \<Rightarrow> 'a label list \<Rightarrow> 'a conf \<Rightarrow> bool" where
  "hist_ok c ls s \<longleftrightarrow> conf_inv c ls s \<and> takes_ok ls \<and>
     tickets_ok (length (deq_log ls)) (taken_tickets ls) (waiting_ticket \<circ> threads s) \<and>
     order_ok ls (threads s) \<and> returns_ok ls (threads s)"

lemma hist_okD:
  assumes "hist_ok c ls s"
  shows "conf_inv c ls s" "q_inv c (map snd (enq_log ls)) (length (deq_log ls)) (shared s) (threads s)"
    "takes_ok ls" "tickets_ok (length (deq_log ls)) (taken_tickets ls) (waiting_ticket \<circ> threads s)"
    "order_ok ls (threads s)" "returns_ok ls (threads s)"
  using assms by (simp_all add: hist_ok_def conf_inv_def)

lemma hist_ok_start:
  assumes "queue_new cap = Some q" and "2 \<le> unat cap" and "unat cap \<le> 2 ^ 62"
  shows "hist_ok (unat cap) [] \<lparr>shared = q, threads = (\<lambda>_. Idle)\<rparr>"
  using conf_inv_start [OF assms]
  by (auto simp: hist_ok_def takes_ok_def tickets_ok_def order_ok_def returns_ok_def)

lemma hist_ok_step:
  assumes "hist_ok c ls s" and st: "conf_step s l s'" and b: "length ls < 2 ^ 62"
  shows "hist_ok c (ls @ [l]) s'"
proof -
  note H = hist_okD [OF assms(1)]
  show ?thesis
    unfolding hist_ok_def
    using conf_inv_step [OF H(1) st b] takes_ok_step [OF H(1,3) st] tickets_ok_step [OF H(1) st H(4)]
      order_ok_step [OF H(1) st H(5,3)] returns_ok_step [OF H(1) st H(6)] by blast
qed

fun silent_label :: "'a label \<Rightarrow> bool" where
  "silent_label l = (enq_event l = [] \<and> deq_event l = [] \<and> take_event l = [] \<and>
     accepted_event l = [] \<and> returned_event l = [])"

lemma hist_ok_silent:
  assumes "hist_ok c ls s" and l: "silent_label l"
    and ok: "thread_ok c (map snd (enq_log ls)) (length (deq_log ls)) (shared s) th"
    and same: "prod_ticket th = prod_ticket (threads s t)" "cons_ticket th = cons_ticket (threads s t)"
      "waiting_ticket th = waiting_ticket (threads s t)" "pending_return th = pending_return (threads s t)"
      "pending_accept th = pending_accept (threads s t)"
    and s': "shared s' = shared s" "threads s' = (threads s)(t := th)"
  shows "hist_ok c (ls @ [l]) s'"
proof -
  note H = hist_okD [OF assms(1)]
  have "conf_inv c (ls @ [l]) s'"
    using q_inv_silent [OF H(2) ok same(1,2)] l s' by (simp add: conf_inv_def)
  moreover have "order_ok (ls @ [l]) (threads s')"
    using H(5) l same s' by (auto simp: order_ok_def)
  moreover have "returns_ok (ls @ [l]) (threads s')"
    using H(6) l same s' by (auto simp: returns_ok_def)
  moreover have "takes_ok (ls @ [l])" using H(3) l by (simp add: takes_ok_def)
  moreover have "tickets_ok (length (deq_log (ls @ [l]))) (taken_tickets (ls @ [l])) (waiting_ticket \<circ> threads s')"
    using H(4) l same s' by (simp add: upd_same_comp)
  ultimately show ?thesis by (simp add: hist_ok_def)
qed

lemma exec_hist:
  assumes "exec cap ls s" and "2 \<le> unat cap" and "unat cap \<le> 2 ^ 62" and "length ls \<le> 2 ^ 62"
  shows "hist_ok (unat cap) ls s"
  using assms by (induction rule: exec.induct) (auto intro: hist_ok_start hist_ok_step)


subsection \<open>Properties of every execution\<close>

text \<open>The slot whose \<open>UnsafeCell\<close> a thread may touch: it has won the compare-exchange for it and
  has not yet published the slot's next sequence number.\<close>

definition accessing :: "'a conf \<Rightarrow> nat \<Rightarrow> nat option" where
  "accessing s t = (case threads s t of
     Pushing x (PushWrite y pos) \<Rightarrow> Some (slot_index (shared s) pos)
   | Pushing x (PushStore pos) \<Rightarrow> Some (slot_index (shared s) pos)
   | Popping (PopTake pos) \<Rightarrow> Some (slot_index (shared s) pos)
   | Popping (PopStore pos v) \<Rightarrow> Some (slot_index (shared s) pos)
   | _ \<Rightarrow> None)"

lemma accessing_owner:
  assumes "geom c (shared s)" and "accessing s t = Some i"
  shows "\<exists>p. (prod_ticket (threads s t) = Some p \<or> cons_ticket (threads s t) = Some p) \<and> i = p mod c"
  using assms by (auto simp: accessing_def geom_index split: thread.splits push_pc.splits pop_pc.splits)

text \<open>
  Whatever the interleaving of any number of producers and consumers, no two threads are
  ever between winning a compare-exchange and publishing the sequence number for the same
  slot: accesses to the slot's UnsafeCell are exclusive, which is what the unsafe impls of
  Sync and Send rely on. Capacity at least 2, and at most 2^62 atomic steps since creation
  (the counters then do not wrap).
\<close>

theorem slot_access_exclusive:
  assumes "exec cap ls s" and "2 \<le> unat cap" and "unat cap \<le> 2 ^ 62" and "length ls \<le> 2 ^ 62"
    and "accessing s t = Some i" and "accessing s t' = Some i"
  shows "t = t'"
proof (rule ccontr)
  assume neq: "t \<noteq> t'"
  have inv: "q_inv (unat cap) (map snd (enq_log ls)) (length (deq_log ls)) (shared s) (threads s)"
    using exec_inv [OF assms(1-4)] by (simp add: conf_inv_def)
  obtain p p' where "prod_ticket (threads s t) = Some p \<or> cons_ticket (threads s t) = Some p" "i = p mod unat cap"
    and "prod_ticket (threads s t') = Some p' \<or> cons_ticket (threads s t') = Some p'" "i = p' mod unat cap"
    using accessing_owner [OF q_inv_facts(1) [OF inv]] assms(5,6) by metis
  then show False using owners_distinct [OF inv neq] by metis
qed

text \<open>
  No reachable interleaving makes a push or pop panic on the slot index: the masked
  position always lies in the buffer.
\<close>

theorem no_thread_panics:
  assumes "exec cap ls s" and "2 \<le> unat cap" and "unat cap \<le> 2 ^ 62" and "length ls \<le> 2 ^ 62"
  shows "threads s t \<noteq> Pushing x PushPanic \<and> threads s t \<noteq> Popping PopPanic"
  using exec_inv [OF assms] q_inv_facts(7) [of "unat cap" _ _ "shared s" "threads s" t]
  by (auto simp: conf_inv_def)

lemma subseq_filter: "subseq (map f (filter P xs)) (map f xs)"
  by (simp add: subseq_map)

lemma subseq_increasing_nth:
  assumes "sorted_wrt (<) ps" and "\<forall>p \<in> set ps. p < n" and "n \<le> length xs"
  shows "subseq (map ((!) xs) ps) (take n xs)"
  using assms
proof (induction ps arbitrary: n rule: rev_induct)
  case Nil
  then show ?case by simp
next
  case (snoc p ps)
  then have "subseq (map ((!) xs) ps) (take p xs)" by (intro snoc.IH) (auto simp: sorted_wrt_append)
  then have "subseq (map ((!) xs) (ps @ [p])) (take p xs @ [xs ! p])" by simp
  also have "take p xs @ [xs ! p] = take (Suc p) xs"
    using snoc.prems by (simp add: take_Suc_conv_app_nth)
  also have "subseq \<dots> (take n xs)"
    using snoc.prems by (metis Suc_leI in_set_conv_decomp prefix_imp_subseq take_is_prefix take_take min.absorb1)
  finally show ?case .
qed

lemma count_of_thread: "count (mset xs) (t, x) = count (mset (of_thread t xs)) x"
  by (induction xs) (auto split: prod.splits)

lemma mset_of_thread_le:
  fixes xs ys :: "(nat \<times> 'b) list"
  assumes "\<And>t. \<exists>zs. of_thread t ys = of_thread t xs @ zs"
  shows "mset xs \<subseteq># mset ys"
proof (rule mset_subset_eqI)
  fix z :: "nat \<times> 'b"
  obtain t x where z: "z = (t, x)" by (cases z)
  obtain zs where "of_thread t ys = of_thread t xs @ zs" using assms by blast
  then show "count (mset xs) z \<le> count (mset ys) z" by (simp add: z count_of_thread)
qed

lemma mset_of_thread_eq:
  assumes "\<And>t. of_thread t ys = of_thread t xs"
  shows "mset xs = mset ys"
  by (rule subset_mset.antisym) (rule mset_of_thread_le, simp add: assms)+

lemma of_thread_map: "of_thread t (map (\<lambda>(t, v). (t, f v)) xs) = map f (of_thread t xs)"
  by (induction xs) auto


text \<open>The items taken, with the thread that took them, in the order of the takes.\<close>

definition taken_items :: "'a label list \<Rightarrow> (nat \<times> 'a) list" where
  "taken_items ls = map (\<lambda>(t, p, v). (t, the v)) (take_log ls)"

lemma taken_items_thread: "of_thread t (taken_items ls) = map (the \<circ> snd) (of_thread t (take_log ls))"
proof -
  have "taken_items ls = map (\<lambda>(t, w). (t, (the \<circ> snd) w)) (take_log ls)"
    by (simp add: taken_items_def case_prod_beta)
  then show ?thesis by (simp only: of_thread_map)
qed

lemma taken_items_tickets:
  assumes "takes_ok ls"
  shows "map snd (taken_items ls) = map ((!) (map snd (enq_log ls))) (taken_tickets ls)"
    and "map (the \<circ> snd) (of_thread t (take_log ls)) =
      map ((!) (map snd (enq_log ls))) (map fst (of_thread t (take_log ls)))"
  using assms by (auto simp: taken_items_def takes_ok_def of_thread_def)

lemma takes_ok_lt:
  assumes "takes_ok ls" and "p \<in> set (map fst (of_thread t (take_log ls)))"
  shows "p < length (deq_log ls)"
  using assms(2) unfolding of_thread_set using assms(1) by (auto simp: takes_ok_def)

lemma mod_eq_le: "p mod c = d mod c \<Longrightarrow> p < d + c \<Longrightarrow> p \<le> (d :: nat)"
  by (metis add.commute le_add_diff_inverse le_neq_implies_less linorder_not_le mod_eq_dvd_iff_nat
      nat_dvd_not_less nat_le_linear less_diff_conv2 zero_less_diff)

lemma q_inv_bounded: "q_inv c L d q thr \<Longrightarrow> length L \<le> d + c"
proof -
  assume inv: "q_inv c L d q thr"
  note F = q_inv_facts [OF inv]
  have "slot_inv c L d (prod_ticket \<circ> thr) (cons_ticket \<circ> thr) (sq q (d mod c)) (vl q (d mod c)) (d mod c)"
    using F(3) by (intro F(10)) simp
  then show ?thesis
    by (auto simp: slot_inv_def slot_free_def slot_full_def dest!: mod_eq_le)
qed

lemma take_nth: "d \<le> length L \<Longrightarrow> take d L = map ((!) L) [0..<d]"
  by (simp add: list_eq_iff_nth_eq)

lemma hist_fifo:
  assumes "hist_ok c ls s"
  shows "let L = map snd (enq_log ls); d = length (deq_log ls) in
     d \<le> length L \<and> length L \<le> d + c \<and>
     mset (map snd (returned ls)) \<subseteq># mset (take d L) \<and>
     (\<forall>t. subseq (of_thread t (returned ls)) (take d L)) \<and>
     (\<forall>t. subseq (of_thread t (accepted ls)) L)"
proof -
  define L d where "L = map snd (enq_log ls)" and "d = length (deq_log ls)"
  note H = hist_okD [OF assms]
  have inv: "q_inv (c) L d (shared s) (threads s)"
    using H(2) by (simp add: L_def d_def)
  have dL: "d \<le> length L" by (rule q_inv_facts(6) [OF inv])
  have takes: "takes_ok ls" and T: "tickets_ok d (taken_tickets ls) (waiting_ticket \<circ> threads s)"
    and ord: "order_ok ls (threads s)" and ret: "returns_ok ls (threads s)"
    using H(3-6) by (simp_all add: d_def)
  have pre: "\<exists>zs. of_thread t (taken_items ls) = of_thread t (returned ls) @ zs" for t
    using ret by (auto simp: returns_ok_def taken_items_thread)
  have "mset (taken_tickets ls) \<subseteq># mset [0..<d]"
    using T by (intro mset_subset_eqI) (auto simp: tickets_ok_def distinct_count_atmost_1 count_mset_0_iff)
  then have "image_mset ((!) L) (mset (taken_tickets ls)) \<subseteq># image_mset ((!) L) (mset [0..<d])"
    by (rule image_mset_subseteq_mono)
  moreover have "mset (map snd (taken_items ls)) = image_mset ((!) L) (mset (taken_tickets ls))"
    by (simp only: taken_items_tickets(1) [OF takes] mset_map L_def)
  moreover have "mset (take d L) = image_mset ((!) L) (mset [0..<d])"
    by (simp only: take_nth [OF dL] mset_map)
  ultimately have sub: "mset (map snd (taken_items ls)) \<subseteq># mset (take d L)" by simp
  have "mset (map snd (returned ls)) \<subseteq># mset (map snd (taken_items ls))"
    using mset_of_thread_le [OF pre] by (simp add: image_mset_subseteq_mono)
  then have m: "mset (map snd (returned ls)) \<subseteq># mset (take d L)" using sub by (rule subset_mset.trans)
  have "subseq (of_thread t (returned ls)) (take d L)" for t
  proof -
    have "\<forall>p \<in> set (map fst (of_thread t (take_log ls))). p < d"
      using takes_ok_lt [OF takes] d_def by blast
    moreover have "sorted_wrt (<) (map fst (of_thread t (take_log ls)))"
      using ord unfolding order_ok_def by blast
    ultimately have "subseq (of_thread t (taken_items ls)) (take d L)"
      unfolding taken_items_thread taken_items_tickets(2) [OF takes] L_def [symmetric]
      by (intro subseq_increasing_nth dL)
    moreover have "subseq (of_thread t (returned ls)) (of_thread t (taken_items ls))" using pre [of t] by auto
    ultimately show ?thesis using subseq_order.order_trans by blast
  qed
  moreover have "subseq (of_thread t (accepted ls)) L" for t
  proof -
    have "subseq (of_thread t (accepted ls)) (of_thread t (enq_log ls))"
      using ret by (auto simp: returns_ok_def)
    also have "subseq \<dots> L" unfolding of_thread_def L_def by (rule subseq_filter)
    finally show ?thesis .
  qed
  ultimately show ?thesis
    using m dL q_inv_bounded [OF inv] by (simp add: Let_def L_def d_def)
qed

text \<open>
  At every point of every interleaving there is one order of all enqueued items in which
  each producer's accepted items appear in its program order, the items already handed to
  consumers are among the first d (d the number of tickets consumers have won) and none is
  delivered twice, each consumer received its items in that order, and at most capacity items
  are outstanding.
\<close>

theorem mpmc_fifo_without_duplication:
  assumes "exec cap ls s" and "2 \<le> unat cap" and "unat cap \<le> 2 ^ 62" and "length ls \<le> 2 ^ 62"
  shows "let L = map snd (enq_log ls); d = length (deq_log ls) in
     d \<le> length L \<and> length L \<le> d + unat cap \<and>
     mset (map snd (returned ls)) \<subseteq># mset (take d L) \<and>
     (\<forall>t. subseq (of_thread t (returned ls)) (take d L)) \<and>
     (\<forall>t. subseq (of_thread t (accepted ls)) L)"
  by (rule hist_fifo [OF exec_hist [OF assms]])


subsection \<open>Quiescent states\<close>

definition quiescent :: "'a conf \<Rightarrow> bool" where
  "quiescent s \<longleftrightarrow> (\<forall>t. threads s t = Idle)"

lemma quiescent_slot:
  assumes inv: "q_inv c L d q (\<lambda>_. Idle)" and p: "d \<le> p" "p < length L"
  shows "vl q (p mod c) = Some (L ! p)"
proof -
  note F = q_inv_facts [OF inv]
  have b: "length L \<le> d + c" by (rule q_inv_bounded [OF inv])
  have "slot_inv c L d (\<lambda>_. None) (\<lambda>_. None) (sq q (p mod c)) (vl q (p mod c)) (p mod c)"
    using F(10) [of "p mod c"] F(3) by (simp add: comp_def)
  then consider u where "u mod c = p mod c" "u < d + c" "length L \<le> u"
    | p' where "p' mod c = p mod c" "p' < d + c" "d \<le> p'" "length L \<le> p' + c" "vl q (p mod c) = Some (L ! p')"
    by (auto simp: slot_inv_def slot_free_def slot_full_def)
  then show ?thesis
  proof cases
    case 1
    then have "u \<le> p" using p by (intro mod_eq_le [of u c p]) auto
    with 1 p show ?thesis by simp
  next
    case 2
    then have "p' \<le> p" "p \<le> p'" using p b by (auto intro!: mod_eq_le [of p' c p] mod_eq_le [of p c p'])
    with 2 show ?thesis by simp
  qed
qed

lemma quiescent_contents:
  assumes inv: "q_inv c L d q (\<lambda>_. Idle)" and bound: "length L \<le> 2 ^ 62"
  shows "queue_list q = drop d L"
proof -
  note F = q_inv_facts [OF inv]
  have len: "queue_length q = length L - d"
    using F(4-6) by (simp add: queue_length_def unat_sub word_le_nat_alt)
  show ?thesis
  proof (rule nth_equalityI)
    show "length (queue_list q) = length (drop d L)" by (simp add: len)
    fix j
    assume "j < length (queue_list q)"
    then have j: "j < length L - d" by (simp add: len)
    have "unat (dequeue_pos q + of_nat j) = d + j"
    proof -
      have "unat (dequeue_pos q + of_nat j) = (unat (dequeue_pos q) + j) mod 2 ^ 64"
        by (simp add: unat_word_ariths(1) unat_of_nat mod_simps)
      moreover have "d + j < 2 ^ 64" using j bound by simp
      ultimately show ?thesis using F(5) by simp
    qed
    then have "slot_value (buffer q ! slot_index q (dequeue_pos q + of_nat j)) = Some (L ! (d + j))"
      using quiescent_slot [OF inv, of "d + j"] j by (simp add: geom_index [OF F(1)] vl_def)
    then show "queue_list q ! j = drop d L ! j"
      using j F(6) by (simp add: queue_list_def len)
  qed
qed

lemma hist_quiescent:
  assumes "hist_ok c ls s" and "quiescent s" and "length ls \<le> 2 ^ 62"
  shows "mset (map snd (accepted ls)) = mset (map snd (returned ls)) + mset (queue_list (shared s))"
proof -
  define L d where "L = map snd (enq_log ls)" and "d = length (deq_log ls)"
  note H = hist_okD [OF assms(1)]
  have idle: "threads s = (\<lambda>_. Idle)" using assms(2) by (auto simp: quiescent_def)
  have inv: "q_inv (c) L d (shared s) (\<lambda>_. Idle)"
    using H(2) by (simp add: L_def d_def idle)
  have dL: "d \<le> length L" by (rule q_inv_facts(6) [OF inv])
  have takes: "takes_ok ls" and T: "tickets_ok d (taken_tickets ls) (waiting_ticket \<circ> threads s)"
    and ret: "returns_ok ls (threads s)"
    using H(3,4,6) by (simp_all add: d_def)
  have acc: "mset (map snd (accepted ls)) = mset L"
  proof -
    have "mset (accepted ls) = mset (enq_log ls)"
      by (rule mset_of_thread_eq) (use ret in \<open>simp add: returns_ok_def idle\<close>)
    then show ?thesis by (simp add: L_def)
  qed
  have "mset (returned ls) = mset (taken_items ls)"
    by (rule mset_of_thread_eq) (use ret in \<open>simp add: returns_ok_def idle taken_items_thread\<close>)
  then have "mset (map snd (returned ls)) = mset (map snd (taken_items ls))" by simp
  also have "\<dots> = image_mset ((!) L) (mset (taken_tickets ls))"
    by (simp only: taken_items_tickets(1) [OF takes] mset_map L_def)
  also have "mset (taken_tickets ls) = mset [0..<d]"
  proof (rule set_eq_iff_mset_eq_distinct [THEN iffD1])
    show "distinct (taken_tickets ls)" using T by (simp add: tickets_ok_def)
    show "set (taken_tickets ls) = set [0..<d]"
      using T by (intro set_eqI) (simp add: tickets_ok_def idle comp_def)
  qed simp
  also have "image_mset ((!) L) (mset [0..<d]) = mset (take d L)"
    by (simp only: take_nth [OF dL] mset_map)
  finally have "mset (map snd (returned ls)) = mset (take d L)" .
  moreover have "queue_list (shared s) = drop d L"
    by (rule quiescent_contents [OF inv])
      (use log_lengths [of ls] assms(3) in \<open>simp add: L_def\<close>)
  ultimately show ?thesis using acc by (metis append_take_drop_id mset_append)
qed

text \<open>
  When every thread is between calls, the multiset of items whose push returned Ok is
  exactly the items returned by pop together with the items still stored in the buffer, for
  any interleaving that led there: nothing is lost or duplicated.
\<close>

theorem mpmc_no_item_lost_or_duplicated:
  assumes "exec cap ls s" and "2 \<le> unat cap" and "unat cap \<le> 2 ^ 62" and "length ls \<le> 2 ^ 62"
    and "quiescent s"
  shows "mset (map snd (accepted ls)) = mset (map snd (returned ls)) + mset (queue_list (shared s))"
  by (rule hist_quiescent [OF exec_hist [OF assms(1-4)] assms(5,4)])

subsection \<open>Progress\<close>

lemma seq_diff_nat:
  "unat a < 2 ^ 63 \<Longrightarrow> unat b < 2 ^ 63 \<Longrightarrow> seq_diff a b = int (unat a) - int (unat b)"
  by (simp only: seq_diff_def sint_diff_word)

lemma fresh_enqueue_slot:
  assumes inv: "q_inv c L d q thr"
  shows "sq q (length L mod c) \<le> length L"
proof -
  note F = q_inv_facts [OF inv]
  have "slot_inv c L d (prod_ticket \<circ> thr) (cons_ticket \<circ> thr) (sq q (length L mod c)) (vl q (length L mod c)) (length L mod c)"
    using F(3) by (intro F(10)) simp
  then show ?thesis
    using F(6) by (auto simp: slot_inv_def slot_free_def slot_full_def intro: mod_eq_le [of _ c])
qed

lemma fresh_dequeue_slot:
  assumes inv: "q_inv c L d q thr"
  shows "sq q (d mod c) \<le> Suc d"
proof -
  note F = q_inv_facts [OF inv]
  have "slot_inv c L d (prod_ticket \<circ> thr) (cons_ticket \<circ> thr) (sq q (d mod c)) (vl q (d mod c)) (d mod c)"
    using F(3) by (intro F(10)) simp
  then show ?thesis
    by (auto simp: slot_inv_def slot_free_def slot_full_def dest!: mod_eq_le)
qed

text \<open>
  From the load of the sequence of the slot next in line four steps are enough, and two more for each
  compare-exchange that fails spuriously; from anywhere in a call, six.
\<close>

lemma fuel_split:
  "4 \<le> n \<Longrightarrow> \<exists>m. n = Suc (Suc (Suc (Suc m)))" "6 \<le> n \<Longrightarrow> \<exists>m. n = Suc (Suc (Suc (Suc (Suc (Suc m)))))"
  by presburger+

lemma push_run_fresh:
  assumes inv: "q_inv c L d q thr" and bound: "length L < 2 ^ 62"
  shows "4 + 2 * count_list fs True \<le> fuel \<Longrightarrow> \<exists>q' r. push_run fuel fs q (PushSeq x (enqueue_pos q)) = Some (q', r)"
proof (induction fs arbitrary: fuel)
  note F = q_inv_facts [OF inv]
  let ?s = "buffer q ! (length L mod c)"
  have s: "slot_at q (enqueue_pos q) = Some ?s" by (simp add: geom_slot [OF F(1)] F(4))
  have le: "unat (sequence ?s) \<le> length L" using fresh_enqueue_slot [OF inv] by (simp add: sq_def)
  have neg: "seq_diff (sequence ?s) (enqueue_pos q) < 0" if "sequence ?s \<noteq> enqueue_pos q"
  proof -
    have "seq_diff (sequence ?s) (enqueue_pos q) = int (unat (sequence ?s)) - int (length L)"
      using le bound F(4) by (subst seq_diff_nat) auto
    then show ?thesis using le that seq_diff_0 [of "sequence ?s" "enqueue_pos q"] by linarith
  qed
  {
    case Nil
    then obtain n where "fuel = Suc (Suc (Suc (Suc n)))" using fuel_split(1) [of fuel] by auto
    then show ?case using s neg by (cases "sequence ?s = enqueue_pos q") simp_all
  next
    case (Cons f fs)
    then obtain n where n: "fuel = Suc (Suc (Suc (Suc n)))" using fuel_split(1) [of fuel] by (auto split: if_splits)
    have "f \<Longrightarrow> \<exists>q' r. push_run (Suc (Suc n)) fs q (PushSeq x (enqueue_pos q)) = Some (q', r)" by (rule Cons.IH) (use Cons.prems n in simp)
    then show ?case using s neg n by (cases "sequence ?s = enqueue_pos q"; cases f) auto
  }
qed

lemma pop_run_fresh:
  assumes inv: "q_inv c L d q thr" and bound: "length L < 2 ^ 62"
  shows "4 + 2 * count_list fs True \<le> fuel \<Longrightarrow> \<exists>q' r. pop_run fuel fs q (PopSeq (dequeue_pos q)) = Some (q', r)"
proof (induction fs arbitrary: fuel)
  note F = q_inv_facts [OF inv]
  let ?s = "buffer q ! (d mod c)"
  have s: "slot_at q (dequeue_pos q) = Some ?s" by (simp add: geom_slot [OF F(1)] F(5))
  have le: "unat (sequence ?s) \<le> Suc d" using fresh_dequeue_slot [OF inv] by (simp add: sq_def)
  have neg: "seq_diff (sequence ?s) (dequeue_pos q + 1) < 0" if "sequence ?s \<noteq> dequeue_pos q + 1"
  proof -
    have d1: "unat (dequeue_pos q + 1) = Suc d"
      using unat_Suc_word [of "dequeue_pos q"] F(5,6) bound by simp
    have "seq_diff (sequence ?s) (dequeue_pos q + 1) = int (unat (sequence ?s)) - int (Suc d)"
      using le bound F(6) d1 by (subst seq_diff_nat) auto
    then show ?thesis using le that d1 seq_diff_0 [of "sequence ?s" "dequeue_pos q + 1"] by linarith
  qed
  {
    case Nil
    then obtain n where "fuel = Suc (Suc (Suc (Suc n)))" using fuel_split(1) [of fuel] by auto
    then show ?case using s neg by (cases "sequence ?s = dequeue_pos q + 1") simp_all
  next
    case (Cons f fs)
    then obtain n where n: "fuel = Suc (Suc (Suc (Suc n)))" using fuel_split(1) [of fuel] by (auto split: if_splits)
    have "f \<Longrightarrow> \<exists>q' r. pop_run (Suc (Suc n)) fs q (PopSeq (dequeue_pos q)) = Some (q', r)" by (rule Cons.IH) (use Cons.prems n in simp)
    then show ?case using s neg n by (cases "sequence ?s = dequeue_pos q + 1"; cases f) auto
  }
qed

lemma push_run_solo:
  assumes inv: "q_inv c L d q thr" and t: "thr t = Pushing x pc" and bound: "length L < 2 ^ 62"
    and fuel: "6 + 2 * count_list fs True \<le> fuel"
  shows "\<exists>q' r. push_run fuel fs q pc = Some (q', r)"
proof -
  note F = q_inv_facts [OF inv]
  note fresh = push_run_fresh [OF inv bound]
  obtain n where n: "fuel = Suc (Suc (Suc (Suc (Suc (Suc n)))))" using fuel fuel_split(2) [of fuel] by auto
  show ?thesis
  proof (cases pc)
    case (PushLoad y)
    then show ?thesis using fresh [of fs "Suc (Suc (Suc (Suc (Suc n))))" y] fuel n by simp
  next
    case (PushSeq y pos)
    show ?thesis
    proof (cases "enqueue_pos q = pos")
      case True
      with fresh [of fs fuel y] PushSeq fuel show ?thesis by simp
    next
      case False
      have "\<exists>q' r. push_run (Suc (Suc (Suc (Suc n)))) fs q (PushSeq y (enqueue_pos q)) = Some (q', r)"
        by (rule fresh) (use fuel n in simp)
      moreover have "\<exists>q' r. push_run (Suc (Suc (Suc (Suc n)))) fs' q (PushSeq y (enqueue_pos q)) = Some (q', r)" if "fs = f # fs'" for f fs'
        by (rule fresh) (use fuel n that in \<open>simp split: if_splits\<close>)
      ultimately show ?thesis using PushSeq n False
        by (cases fs) (auto simp: geom_slot [OF F(1)] Let_def)
    qed
  next
    case (PushCas y pos)
    have "\<exists>q' r. push_run (Suc (Suc (Suc (Suc (Suc n))))) fs q (PushSeq y (enqueue_pos q)) = Some (q', r)"
      by (rule fresh) (use fuel n in simp)
    moreover have "\<exists>q' r. push_run (Suc (Suc (Suc (Suc (Suc n))))) fs' q (PushSeq y (enqueue_pos q)) = Some (q', r)" if "fs = f # fs'" for f fs'
      by (rule fresh) (use fuel n that in \<open>simp split: if_splits\<close>)
    ultimately show ?thesis using PushCas n by (cases fs) auto
  next
    case PushPanic
    with F(7) [of t] t show ?thesis by simp
  qed (use n in simp_all)
qed

lemma pop_run_solo:
  assumes inv: "q_inv c L d q thr" and t: "thr t = Popping pc" and bound: "length L < 2 ^ 62"
    and fuel: "6 + 2 * count_list fs True \<le> fuel"
  shows "\<exists>q' r. pop_run fuel fs q pc = Some (q', r)"
proof -
  note F = q_inv_facts [OF inv]
  note fresh = pop_run_fresh [OF inv bound]
  obtain n where n: "fuel = Suc (Suc (Suc (Suc (Suc (Suc n)))))" using fuel fuel_split(2) [of fuel] by auto
  show ?thesis
  proof (cases pc)
    case PopLoad
    then show ?thesis using fresh [of fs "Suc (Suc (Suc (Suc (Suc n))))"] fuel n by simp
  next
    case (PopSeq pos)
    show ?thesis
    proof (cases "dequeue_pos q = pos")
      case True
      with fresh [of fs fuel] PopSeq fuel show ?thesis by simp
    next
      case False
      have "\<exists>q' r. pop_run (Suc (Suc (Suc (Suc n)))) fs q (PopSeq (dequeue_pos q)) = Some (q', r)"
        by (rule fresh) (use fuel n in simp)
      moreover have "\<exists>q' r. pop_run (Suc (Suc (Suc (Suc n)))) fs' q (PopSeq (dequeue_pos q)) = Some (q', r)" if "fs = f # fs'" for f fs'
        by (rule fresh) (use fuel n that in \<open>simp split: if_splits\<close>)
      ultimately show ?thesis using PopSeq n False
        by (cases fs) (auto simp: geom_slot [OF F(1)] Let_def)
    qed
  next
    case (PopCas pos)
    have "\<exists>q' r. pop_run (Suc (Suc (Suc (Suc (Suc n))))) fs q (PopSeq (dequeue_pos q)) = Some (q', r)"
      by (rule fresh) (use fuel n in simp)
    moreover have "\<exists>q' r. pop_run (Suc (Suc (Suc (Suc (Suc n))))) fs' q (PopSeq (dequeue_pos q)) = Some (q', r)" if "fs = f # fs'" for f fs'
      by (rule fresh) (use fuel n that in \<open>simp split: if_splits\<close>)
    ultimately show ?thesis using PopCas n by (cases fs) auto
  next
    case PopPanic
    with F(7) [of t] t show ?thesis by simp
  qed (use n in simp_all)
qed

text \<open>
  C26: A call in progress finishes within six of its own steps, and two more for each of its
  compare-exchanges that fails spuriously, if the other threads stop, wherever they stopped, even
  inside a slot: no thread holds a lock another one waits for.
\<close>

theorem stalled_threads_block_nobody:
  assumes "exec cap ls s" and "2 \<le> unat cap" and "unat cap \<le> 2 ^ 62" and "length ls < 2 ^ 62"
  shows "(threads s t = Pushing x pc \<longrightarrow> (\<exists>q' r. push_run (6 + 2 * count_list spurious True) spurious (shared s) pc = Some (q', r))) \<and>
    (threads s t = Popping pc' \<longrightarrow> (\<exists>q' r. pop_run (6 + 2 * count_list spurious True) spurious (shared s) pc' = Some (q', r)))"
proof -
  have inv: "q_inv (unat cap) (map snd (enq_log ls)) (length (deq_log ls)) (shared s) (threads s)"
    using exec_inv [OF assms(1-3)] assms(4) by (simp add: conf_inv_def)
  have b: "length (map snd (enq_log ls)) < 2 ^ 62" using log_lengths [of ls] assms(4) by simp
  show ?thesis using push_run_solo [OF inv _ b order_refl] pop_run_solo [OF inv _ b order_refl] by blast
qed

subsection \<open>Scheduled executions\<close>

datatype 'a cmd = DoPush nat 'a | DoPop nat | DoAct nat | DoRet nat

fun cmd_step :: "'a conf \<Rightarrow> 'a cmd \<Rightarrow> ('a label \<times> 'a conf) option" where
  "cmd_step s (DoPush t x) = (case threads s t of
     Idle \<Rightarrow> Some (CallPush t x, s\<lparr>threads := (threads s)(t := Pushing x (PushLoad x))\<rparr>) | _ \<Rightarrow> None)"
| "cmd_step s (DoPop t) = (case threads s t of
     Idle \<Rightarrow> Some (CallPop t, s\<lparr>threads := (threads s)(t := Popping PopLoad)\<rparr>) | _ \<Rightarrow> None)"
| "cmd_step s (DoAct t) = (case threads s t of
     Pushing x pc \<Rightarrow> if push_active pc then
        (case push_step False (shared s) pc of (q', pc') \<Rightarrow>
          Some (PushAct t pc pc', \<lparr>shared = q', threads = (threads s)(t := Pushing x pc')\<rparr>)) else None
   | Popping pc \<Rightarrow> if pop_active pc then
        (case pop_step False (shared s) pc of (q', pc') \<Rightarrow>
          Some (PopAct t pc pc', \<lparr>shared = q', threads = (threads s)(t := Popping pc')\<rparr>)) else None
   | Idle \<Rightarrow> None)"
| "cmd_step s (DoRet t) = (case threads s t of
     Pushing x (PushDone r) \<Rightarrow> Some (RetPush t x r, s\<lparr>threads := (threads s)(t := Idle)\<rparr>)
   | Popping (PopDone r) \<Rightarrow> Some (RetPop t r, s\<lparr>threads := (threads s)(t := Idle)\<rparr>)
   | _ \<Rightarrow> None)"

fun cmd_run :: "'a conf \<Rightarrow> 'a cmd list \<Rightarrow> ('a label list \<times> 'a conf) option" where
  "cmd_run s [] = Some ([], s)"
| "cmd_run s (c # cs) = (case cmd_step s c of None \<Rightarrow> None
     | Some (l, s') \<Rightarrow> (case cmd_run s' cs of None \<Rightarrow> None | Some (ls, s'') \<Rightarrow> Some (l # ls, s'')))"

lemma cmd_step_sound: "cmd_step s c = Some (l, s') \<Longrightarrow> conf_step s l s'"
  by (cases c) (auto intro: conf_step.intros split: thread.splits push_pc.splits pop_pc.splits if_splits prod.splits)

lemma cmd_run_sound: "exec cap ls0 s \<Longrightarrow> cmd_run s cs = Some (ls, s') \<Longrightarrow> exec cap (ls0 @ ls) s'"
proof (induction cs arbitrary: s ls0 ls)
  case (Cons c cs)
  then obtain l s1 ls1 where *: "cmd_step s c = Some (l, s1)" "cmd_run s1 cs = Some (ls1, s')" "ls = l # ls1"
    by (auto split: option.splits)
  have "exec cap (ls0 @ [l]) s1" using Cons.prems(1) cmd_step_sound [OF *(1)] by (rule exec.step)
  from Cons.IH [OF this *(2)] * show ?case by simp
qed simp

definition queue2 :: "'a MpmcQueue" where
  "queue2 = \<lparr>buffer = [\<lparr>sequence = 0, slot_value = None\<rparr>, \<lparr>sequence = 1, slot_value = None\<rparr>],
             mask = 1, enqueue_pos = 0, dequeue_pos = 0\<rparr>"

lemma queue_new_queue2: "queue_new 2 = Some queue2"
proof -
  have "is_power_of_two 2" by (auto simp: is_power_of_two_def intro!: bexI [of _ 1])
  then show ?thesis by (simp add: queue_new_def queue2_def upt_rec)
qed

lemma exec_queue2:
  "cmd_run \<lparr>shared = queue2, threads = (\<lambda>_. Idle)\<rparr> cs = Some (ls, s) \<Longrightarrow> exec 2 ls s"
  using cmd_run_sound [OF exec.start [OF queue_new_queue2]] by fastforce

lemmas run_simps = queue2_def slot_at_def slot_index_def set_value_def set_sequence_def seq_diff_def

text \<open>
  A pop can return None although an earlier push has completed and no other pop was ever
  called: the item sits behind the ticket of a producer that has won its slot and not yet
  published it. None does not mean that the queue is empty.
\<close>

theorem pop_may_miss_a_completed_push:
  "\<exists>ls1 ls2 s. exec 2 (ls1 @ RetPush 1 b (Inr ()) # CallPop 2 # ls2 @ [RetPop 2 None]) s \<and>
     (\<forall>t. CallPop t \<notin> set (ls1 @ ls2)) \<and> returned (ls1 @ ls2) = []"
proof -
  let ?cs = "[DoPush 0 a, DoAct 0, DoAct 0, DoAct 0, DoPush 1 b, DoAct 1, DoAct 1, DoAct 1, DoAct 1, DoAct 1,
    DoRet 1, DoPop 2, DoAct 2, DoAct 2, DoRet 2]"
  obtain ls s where run: "cmd_run \<lparr>shared = queue2, threads = (\<lambda>_. Idle)\<rparr> ?cs = Some (ls, s)"
    and ls: "ls = take 10 ls @ RetPush 1 b (Inr ()) # CallPop 2 # (take 2 (drop 12 ls)) @ [RetPop 2 None]"
      "\<forall>t. CallPop t \<notin> set (take 10 ls @ take 2 (drop 12 ls))" "returned (take 10 ls @ take 2 (drop 12 ls)) = []"
    by (simp add: run_simps returned_def)
  from exec_queue2 [OF run] ls show ?thesis by metis
qed


text \<open>A finished push and pop by two threads, and two producers stopped inside their slots.\<close>

definition handover :: "nat cmd list" where
  "handover = [DoPush 0 7, DoAct 0, DoAct 0, DoAct 0, DoAct 0, DoAct 0, DoRet 0, DoPush 0 8,
     DoAct 0, DoAct 0, DoAct 0, DoAct 0, DoAct 0, DoRet 0,
     DoPop 1, DoAct 1, DoAct 1, DoAct 1, DoAct 1, DoAct 1, DoRet 1]"

definition two_writers :: "nat cmd list" where
  "two_writers = [DoPush 0 7, DoAct 0, DoAct 0, DoAct 0, DoPush 1 8, DoAct 1, DoAct 1, DoAct 1]"

lemma handover_run:
  "\<exists>ls s. exec 2 ls (s :: nat conf) \<and> length ls = 21 \<and> quiescent s \<and> accepted ls = [(0, 7), (0, 8)] \<and> returned ls = [(1, 7)]"
proof -
  obtain ls s where run: "cmd_run \<lparr>shared = queue2, threads = (\<lambda>_. Idle)\<rparr> handover = Some (ls, s)"
    and "length ls = 21" "quiescent s" "accepted ls = [(0, 7), (0, 8)]" "returned ls = [(1, 7)]"
    by (simp add: handover_def run_simps accepted_def returned_def quiescent_def)
  with exec_queue2 [OF run] show ?thesis by blast
qed

lemma two_writers_run:
  "\<exists>ls s. exec 2 ls (s :: nat conf) \<and> length ls = 8 \<and> accessing s 0 = Some 0 \<and> accessing s 1 = Some 1 \<and>
     threads s 0 = Pushing 7 (PushWrite 7 0)"
proof -
  obtain ls s where run: "cmd_run \<lparr>shared = queue2, threads = (\<lambda>_. Idle)\<rparr> two_writers = Some (ls, s)"
    and "length ls = 8" "accessing s 0 = Some 0" "accessing s 1 = Some 1" "threads s 0 = Pushing 7 (PushWrite 7 0)"
    by (simp add: two_writers_def run_simps accessing_def)
  with exec_queue2 [OF run] show ?thesis by blast
qed

theorem slot_access_exclusive_witness:
  "\<exists>ls s. exec 2 ls (s :: nat conf) \<and> accessing s 0 = Some 0 \<and> accessing s 1 = Some 1 \<and>
     (\<forall>t. accessing s t = Some 0 \<longrightarrow> t = 0)"
proof -
  obtain ls and s :: "nat conf" where *: "exec 2 ls s" "length ls = 8" "accessing s 0 = Some 0" "accessing s 1 = Some 1"
    using two_writers_run by blast
  then show ?thesis using slot_access_exclusive [OF *(1), of _ 0 0] by auto
qed

theorem no_thread_panics_witness:
  "\<exists>ls s. exec 2 ls (s :: nat conf) \<and> threads s 0 \<noteq> Pushing 7 PushPanic \<and> threads s 0 \<noteq> Popping PopPanic"
proof -
  obtain ls and s :: "nat conf" where *: "exec 2 ls s" "length ls = 8" using two_writers_run by blast
  then show ?thesis using no_thread_panics [OF *(1), of 0 7] by auto
qed

theorem mpmc_fifo_without_duplication_witness:
  "\<exists>ls s. exec 2 ls (s :: nat conf) \<and> returned ls = [(1, 7)] \<and>
     mset [7] \<subseteq># mset (take (length (deq_log ls)) (map snd (enq_log ls)))"
proof -
  obtain ls and s :: "nat conf" where *: "exec 2 ls s" "length ls = 21" "returned ls = [(1, 7)]"
    using handover_run by blast
  then show ?thesis using mpmc_fifo_without_duplication [OF *(1)] by (force simp: Let_def)
qed

theorem mpmc_no_item_lost_or_duplicated_witness:
  "\<exists>ls s. exec 2 ls (s :: nat conf) \<and> {#7, 8#} = {#7#} + mset (queue_list (shared s))"
proof -
  obtain ls and s :: "nat conf" where *: "exec 2 ls s" "length ls = 21" "quiescent s"
    "accepted ls = [(0, 7), (0, 8)]" "returned ls = [(1, 7)]"
    using handover_run by blast
  then show ?thesis using mpmc_no_item_lost_or_duplicated [OF *(1)] by force
qed

theorem stalled_threads_block_nobody_witness:
  "\<exists>ls s q' r. exec 2 ls (s :: nat conf) \<and> accessing s 1 = Some 1 \<and>
     push_run 10 [True, False, True] (shared s) (PushWrite 7 0) = Some (q', r)"
proof -
  obtain ls and s :: "nat conf" where *: "exec 2 ls s" "length ls = 8" "accessing s 1 = Some 1"
    "threads s 0 = Pushing 7 (PushWrite 7 0)" using two_writers_run by blast
  have "\<exists>q' r. push_run (6 + 2 * count_list [True, False, True] True) [True, False, True] (shared s) (PushWrite 7 0) = Some (q', r)"
    using stalled_threads_block_nobody [OF *(1), of 0 7 "PushWrite 7 0" "[True, False, True]"] *(2,4) by force
  with * show ?thesis by auto
qed

end
