(* ===== verification/QueueSpsc.thy ===== *)
theory QueueSpsc
  imports QueueConcurrent
begin

section \<open>One producer and one consumer: the ring buffer as an atomic queue\<close>

text \<open>
  In the pipeline each queue of \<^verbatim>\<open>engine/src/queue.rs\<close> has one thread that pushes and one that pops.
  Then every interleaving of the atomic accesses is explained by an atomic bounded queue on which a
  call takes effect at one moment between its start and its end: a push when it publishes its slot
  or finds the queue full, a pop when it frees its slot or finds the queue empty. This is what
  allows theory \<open>Pipeline\<close> to treat calls as single actions; with several producers it fails, as
  \<open>pop_may_miss_a_completed_push\<close> shows.
\<close>

subsection \<open>The atomic queue\<close>

datatype ('a, 'r) call = Ready | Asked 'a | Answered 'r

record 'a fifo =
  stored_items :: "'a list"
  push_call :: "('a, 'a + unit) call"
  pop_call :: "(unit, 'a option) call"

datatype 'a fifo_act =
    InvokePush 'a
  | LinearizePush
  | ReturnPush "'a + unit"
  | InvokePop
  | LinearizePop
  | ReturnPop "'a option"

fun atomic_step :: "nat \<Rightarrow> 'a fifo_act \<Rightarrow> 'a fifo \<Rightarrow> 'a fifo option" where
  "atomic_step c (InvokePush x) f = (if push_call f = Ready then Some (f\<lparr>push_call := Asked x\<rparr>) else None)"
| "atomic_step c LinearizePush f = (case push_call f of
     Asked x \<Rightarrow>
       if length (stored_items f) < c
       then Some (f\<lparr>stored_items := stored_items f @ [x], push_call := Answered (Inr ())\<rparr>)
       else Some (f\<lparr>push_call := Answered (Inl x)\<rparr>)
   | _ \<Rightarrow> None)"
| "atomic_step c (ReturnPush r) f = (if push_call f = Answered r then Some (f\<lparr>push_call := Ready\<rparr>) else None)"
| "atomic_step c InvokePop f = (if pop_call f = Ready then Some (f\<lparr>pop_call := Asked ()\<rparr>) else None)"
| "atomic_step c LinearizePop f = (case pop_call f of
     Asked u \<Rightarrow> (case stored_items f of
       [] \<Rightarrow> Some (f\<lparr>pop_call := Answered None\<rparr>)
     | x # xs \<Rightarrow> Some (f\<lparr>stored_items := xs, pop_call := Answered (Some x)\<rparr>))
   | _ \<Rightarrow> None)"
| "atomic_step c (ReturnPop r) f = (if pop_call f = Answered r then Some (f\<lparr>pop_call := Ready\<rparr>) else None)"

fun atomic_run :: "nat \<Rightarrow> 'a fifo_act list \<Rightarrow> 'a fifo \<Rightarrow> 'a fifo option" where
  "atomic_run c [] f = Some f"
| "atomic_run c (a # as) f = (case atomic_step c a f of None \<Rightarrow> None | Some f' \<Rightarrow> atomic_run c as f')"

lemma atomic_run_append:
  "atomic_run c (as @ bs) f = (case atomic_run c as f of None \<Rightarrow> None | Some f' \<Rightarrow> atomic_run c bs f')"
  by (induction as arbitrary: f) (auto split: option.split)

definition empty_fifo :: "'a fifo" where
  "empty_fifo = \<lparr>stored_items = [], push_call = Ready, pop_call = Ready\<rparr>"

text \<open>What each step of the code is in the atomic queue: a call, its moment of effect, a return, or nothing.\<close>

fun fifo_acts :: "'a label \<Rightarrow> 'a fifo_act list" where
  "fifo_acts (CallPush t x) = [InvokePush x]"
| "fifo_acts (PushAct t (PushSeq x pos) (PushDone r)) = [LinearizePush]"
| "fifo_acts (PushAct t (PushStore pos) (PushDone r)) = [LinearizePush]"
| "fifo_acts (RetPush t x r) = [ReturnPush r]"
| "fifo_acts (CallPop t) = [InvokePop]"
| "fifo_acts (PopAct t (PopSeq pos) (PopDone r)) = [LinearizePop]"
| "fifo_acts (PopAct t (PopStore pos v) (PopDone r)) = [LinearizePop]"
| "fifo_acts (RetPop t r) = [ReturnPop r]"
| "fifo_acts l = []"

definition fifo_history :: "'a label list \<Rightarrow> 'a fifo_act list" where
  "fifo_history ls = concat (map fifo_acts ls)"

lemma fifo_history_simps [simp]:
  "fifo_history [] = []" "fifo_history (ls @ [l]) = fifo_history ls @ fifo_acts l"
  by (simp_all add: fifo_history_def)

subsection \<open>One producer, one consumer\<close>

fun called_by :: "nat \<Rightarrow> nat \<Rightarrow> 'a label \<Rightarrow> bool" where
  "called_by p c (CallPush t x) \<longleftrightarrow> t = p"
| "called_by p c (CallPop t) \<longleftrightarrow> t = c"
| "called_by p c l \<longleftrightarrow> True"

text \<open>Nobody else moves a counter, so a position that a thread read last is the current one.\<close>

fun producer_at :: "nat \<Rightarrow> 'a thread \<Rightarrow> bool" where
  "producer_at n (Pushing x (PushSeq y pos)) \<longleftrightarrow> unat pos = n"
| "producer_at n (Pushing x (PushCas y pos)) \<longleftrightarrow> unat pos = n"
| "producer_at n (Pushing x (PushWrite y pos)) \<longleftrightarrow> Suc (unat pos) = n"
| "producer_at n (Pushing x (PushStore pos)) \<longleftrightarrow> Suc (unat pos) = n"
| "producer_at n (Pushing x pc) \<longleftrightarrow> True"
| "producer_at n Idle \<longleftrightarrow> True"
| "producer_at n (Popping pc) \<longleftrightarrow> False"

fun consumer_at :: "nat \<Rightarrow> 'a thread \<Rightarrow> bool" where
  "consumer_at d (Popping (PopSeq pos)) \<longleftrightarrow> unat pos = d"
| "consumer_at d (Popping (PopCas pos)) \<longleftrightarrow> unat pos = d"
| "consumer_at d (Popping (PopTake pos)) \<longleftrightarrow> Suc (unat pos) = d"
| "consumer_at d (Popping (PopStore pos v)) \<longleftrightarrow> Suc (unat pos) = d"
| "consumer_at d (Popping pc) \<longleftrightarrow> True"
| "consumer_at d Idle \<longleftrightarrow> True"
| "consumer_at d (Pushing x pc) \<longleftrightarrow> False"

definition two_threads :: "nat \<Rightarrow> nat \<Rightarrow> 'a label list \<Rightarrow> (nat \<Rightarrow> 'a thread) \<Rightarrow> bool" where
  "two_threads p c ls thr \<longleftrightarrow> p \<noteq> c \<and> (\<forall>t. t \<noteq> p \<and> t \<noteq> c \<longrightarrow> thr t = Idle) \<and>
     producer_at (length (enq_log ls)) (thr p) \<and> consumer_at (length (deq_log ls)) (thr c)"

subsection \<open>The refinement mapping\<close>

fun pushing_call :: "'a thread \<Rightarrow> ('a, 'a + unit) call" where
  "pushing_call (Pushing x (PushDone r)) = Answered r"
| "pushing_call (Pushing x pc) = Asked x"
| "pushing_call th = Ready"

fun popping_call :: "'a thread \<Rightarrow> (unit, 'a option) call" where
  "popping_call (Popping (PopDone r)) = Answered r"
| "popping_call (Popping pc) = Asked ()"
| "popping_call th = Ready"

text \<open>A ticket counts once its slot is published, respectively freed.\<close>

definition settled :: "nat \<Rightarrow> nat option \<Rightarrow> nat" where
  "settled n ticket = (case ticket of None \<Rightarrow> n | Some u \<Rightarrow> n - 1)"

lemma settled_simps [simp]: "settled n None = n" "settled n (Some u) = n - 1"
  by (simp_all add: settled_def)

definition as_fifo :: "nat \<Rightarrow> nat \<Rightarrow> 'a label list \<Rightarrow> 'a conf \<Rightarrow> 'a fifo" where
  "as_fifo p c ls s =
     \<lparr>stored_items = drop (settled (length (deq_log ls)) (cons_ticket (threads s c)))
        (take (settled (length (enq_log ls)) (prod_ticket (threads s p))) (map snd (enq_log ls))),
      push_call = pushing_call (threads s p), pop_call = popping_call (threads s c)\<rparr>"

subsection \<open>What the invariant says of two threads\<close>

lemma ticket_at:
  "producer_at n th \<Longrightarrow> prod_ticket th = Some u \<Longrightarrow> Suc u = n"
  "consumer_at d th \<Longrightarrow> cons_ticket th = Some u \<Longrightarrow> Suc u = d"
  by (cases th rule: prod_ticket.cases; simp) (cases th rule: cons_ticket.cases; simp)

lemma two_threadsD:
  assumes "two_threads p c ls thr"
  shows "p \<noteq> c" "t \<noteq> p \<Longrightarrow> t \<noteq> c \<Longrightarrow> thr t = Idle"
    "producer_at (length (enq_log ls)) (thr p)" "consumer_at (length (deq_log ls)) (thr c)"
    "prod_ticket (thr t) = Some u \<Longrightarrow> t = p \<and> Suc u = length (enq_log ls)"
    "cons_ticket (thr t) = Some u \<Longrightarrow> t = c \<and> Suc u = length (deq_log ls)"
    "thr t = Pushing x pc \<Longrightarrow> t = p" "thr t = Popping po \<Longrightarrow> t = c"
proof -
  show idle: "p \<noteq> c" "t \<noteq> p \<Longrightarrow> t \<noteq> c \<Longrightarrow> thr t = Idle" for t using assms by (auto simp: two_threads_def)
  show "at": "producer_at (length (enq_log ls)) (thr p)" "consumer_at (length (deq_log ls)) (thr c)"
    using assms by (auto simp: two_threads_def)
  show push: "t = p" if "thr t = Pushing x pc" for t x pc using that idle(2) [of t] "at" by fastforce
  show pop: "t = c" if "thr t = Popping po" for t po using that idle(2) [of t] "at" by fastforce
  show "t = p \<and> Suc u = length (enq_log ls)" if "prod_ticket (thr t) = Some u"
  proof -
    have "t = p" using that push [of t] by (cases "thr t") auto
    then show ?thesis using that ticket_at(1) "at"(1) by blast
  qed
  show "t = c \<and> Suc u = length (deq_log ls)" if "cons_ticket (thr t) = Some u"
  proof -
    have "t = c" using that pop [of t] by (cases "thr t") auto
    then show ?thesis using that ticket_at(2) "at"(2) by blast
  qed
qed

text \<open>A producer's ticket has not been won by a consumer; a consumer's slot is not reused.\<close>

lemma ticket_bounds:
  assumes "q_inv cap L d q thr"
  shows "prod_ticket (thr t) = Some u \<Longrightarrow> d \<le> u"
    and "cons_ticket (thr t) = Some u \<Longrightarrow> length L \<le> u + cap"
proof -
  note F = q_inv_facts [OF assms]
  have slot: "slot_inv cap L d (prod_ticket \<circ> thr) (cons_ticket \<circ> thr) (sq q (u mod cap)) (vl q (u mod cap)) (u mod cap)"
    using F(3) by (intro F(10)) simp
  show "d \<le> u" if "prod_ticket (thr t) = Some u"
  proof -
    have e: "sq q (u mod cap) = u" using thread_ok_ticket(1) [OF F(7) that] by blast
    show ?thesis using slot [unfolded e slot_inv_free_iff [OF F(2) refl]] by (simp add: slot_free_def)
  qed
  show "length L \<le> u + cap" if "cons_ticket (thr t) = Some u"
  proof -
    have e: "sq q (u mod cap) = Suc u" using thread_ok_ticket(2) [OF F(7) that] by blast
    show ?thesis using slot [unfolded e slot_inv_full_iff [OF F(2) refl]] by (auto simp: slot_full_def)
  qed
qed

lemma settled_bounds:
  assumes inv: "q_inv cap L d q thr" and two: "two_threads p c ls thr" and L: "length L = length (enq_log ls)"
    and d: "d = length (deq_log ls)"
  shows "length L \<le> settled d (cons_ticket (thr c)) + cap" "settled d (cons_ticket (thr c)) \<le> d"
    "settled (length L) (prod_ticket (thr p)) \<le> length L" "d \<le> settled (length L) (prod_ticket (thr p))"
proof -
  show "length L \<le> settled d (cons_ticket (thr c)) + cap"
    using q_inv_bounded [OF inv] ticket_bounds(2) [OF inv, of c] two_threadsD(6) [OF two, of c] d
    by (cases "cons_ticket (thr c)") fastforce+
  show "d \<le> settled (length L) (prod_ticket (thr p))"
    using q_inv_facts(6) [OF inv] ticket_bounds(1) [OF inv, of p] two_threadsD(5) [OF two, of p] L
    by (cases "prod_ticket (thr p)") fastforce+
qed (simp_all add: settled_def split: option.split)

text \<open>A sequence that is too small means that the atomic queue is full, respectively empty.\<close>

lemma full_when_behind:
  assumes inv: "q_inv cap L d q thr" and two: "two_threads p c ls thr" and L: "length L = length (enq_log ls)"
    and d: "d = length (deq_log ls)" and p: "thr p = Pushing x (PushSeq y pos)" and less: "sq q (length L mod cap) < length L"
  shows "settled d (cons_ticket (thr c)) + cap \<le> length L"
proof -
  note F = q_inv_facts [OF inv]
  let ?i = "length L mod cap"
  have slot: "slot_inv cap L d (prod_ticket \<circ> thr) (cons_ticket \<circ> thr) (sq q ?i) (vl q ?i) ?i"
    using F(3) by (intro F(10)) simp
  have "\<not> slot_free cap (length L) d (prod_ticket \<circ> thr) (sq q ?i) ?i"
  proof
    assume "slot_free cap (length L) d (prod_ticket \<circ> thr) (sq q ?i) ?i"
    then obtain t where "prod_ticket (thr t) = Some (sq q ?i)" using less by (auto simp: slot_free_def)
    then show False using two_threadsD(5) [OF two, of t] p by auto
  qed
  with slot have "slot_full cap L d (cons_ticket \<circ> thr) (sq q ?i) (vl q ?i) ?i" by (simp add: slot_inv_def)
  then obtain u where u: "u mod cap = length L mod cap" "u < length L" "length L \<le> u + cap" "u < d \<longrightarrow> Some u \<in> range (cons_ticket \<circ> thr)"
    by (auto simp: slot_full_def)
  have "u + cap \<le> length L" using u(1,2) F(3) by (intro mod_eq_le [of _ cap]) auto
  with u(3) have eq: "length L = u + cap" by simp
  show ?thesis
  proof (cases "u < d")
    case True
    then obtain t where "cons_ticket (thr t) = Some u" using u(4) by auto
    then have "cons_ticket (thr c) = Some u" "Suc u = d" using two_threadsD(6) [OF two, of t] d by auto
    with eq show ?thesis by auto
  next
    case False
    with eq settled_bounds(2) [OF inv two L d] show ?thesis by simp
  qed
qed

lemma empty_when_behind:
  assumes inv: "q_inv cap L d q thr" and two: "two_threads p c ls thr" and L: "length L = length (enq_log ls)"
    and d: "d = length (deq_log ls)" and c: "thr c = Popping (PopSeq pos)" and less: "sq q (d mod cap) \<le> d"
  shows "settled (length L) (prod_ticket (thr p)) \<le> d"
proof -
  note F = q_inv_facts [OF inv]
  let ?i = "d mod cap"
  have slot: "slot_inv cap L d (prod_ticket \<circ> thr) (cons_ticket \<circ> thr) (sq q ?i) (vl q ?i) ?i"
    using F(3) by (intro F(10)) simp
  have "\<not> slot_full cap L d (cons_ticket \<circ> thr) (sq q ?i) (vl q ?i) ?i"
  proof
    assume "slot_full cap L d (cons_ticket \<circ> thr) (sq q ?i) (vl q ?i) ?i"
    then obtain t where "cons_ticket (thr t) = Some (sq q ?i - 1)" using less by (auto simp: slot_full_def)
    then show False using two_threadsD(6) [OF two, of t] c by auto
  qed
  with slot have free: "slot_free cap (length L) d (prod_ticket \<circ> thr) (sq q ?i) ?i" by (simp add: slot_inv_def)
  then have u: "sq q ?i = d" using less by (simp add: slot_free_def)
  show ?thesis
  proof (cases "d < length L")
    case True
    then obtain t where "prod_ticket (thr t) = Some d" using free u by (auto simp: slot_free_def)
    then have "prod_ticket (thr p) = Some d" "Suc d = length L" using two_threadsD(5) [OF two, of t] L by auto
    then show ?thesis by auto
  qed (use settled_bounds(3) [OF inv two L d] in simp)
qed

lemma push_seq_cases:
  assumes inv: "q_inv cap L d q thr" and two: "two_threads p c ls thr" and L: "length L = length (enq_log ls)"
    and d: "d = length (deq_log ls)" and p: "thr p = Pushing x (PushSeq y pos)" and pos: "unat pos = length L"
    and small: "length L < 2 ^ 62" and st: "push_step spurious q (PushSeq y pos) = (q', pc')"
  obtains (free) "q' = q" "pc' = PushCas y pos"
    | (full) "q' = q" "pc' = PushDone (Inl y)" "settled d (cons_ticket (thr c)) + cap \<le> length L"
proof -
  note F = q_inv_facts [OF inv]
  let ?slot = "buffer q ! (length L mod cap)"
  have slot: "slot_at q pos = Some ?slot" by (simp add: geom_slot [OF F(1)] pos)
  have le: "unat (sequence ?slot) \<le> length L" using fresh_enqueue_slot [OF inv] by (simp add: sq_def)
  have diff: "seq_diff (sequence ?slot) pos = int (unat (sequence ?slot)) - int (length L)"
    using le small pos by (subst seq_diff_nat) auto
  show thesis
  proof (cases "unat (sequence ?slot) = length L")
    case True
    then show thesis using st slot diff by (intro free) auto
  next
    case False
    then have "seq_diff (sequence ?slot) pos < 0" using diff le by linarith
    moreover have "settled d (cons_ticket (thr c)) + cap \<le> length L"
      using False le by (intro full_when_behind [OF inv two L d p]) (simp add: sq_def)
    ultimately show thesis using st slot by (intro full) auto
  qed
qed

lemma pop_seq_cases:
  assumes inv: "q_inv cap L d q thr" and two: "two_threads p c ls thr" and L: "length L = length (enq_log ls)"
    and d: "d = length (deq_log ls)" and c: "thr c = Popping (PopSeq pos)" and pos: "unat pos = d"
    and small: "length L < 2 ^ 62" and st: "pop_step spurious q (PopSeq pos) = (q', pc')"
  obtains (full) "q' = q" "pc' = PopCas pos"
    | (empty) "q' = q" "pc' = PopDone None" "settled (length L) (prod_ticket (thr p)) \<le> d"
proof -
  note F = q_inv_facts [OF inv]
  let ?slot = "buffer q ! (d mod cap)"
  have slot: "slot_at q pos = Some ?slot" by (simp add: geom_slot [OF F(1)] pos)
  have d1: "unat (pos + 1) = Suc d" using unat_Suc_word [of pos] pos F(6) small by simp
  have le: "unat (sequence ?slot) \<le> Suc d" using fresh_dequeue_slot [OF inv] by (simp add: sq_def)
  have diff: "seq_diff (sequence ?slot) (pos + 1) = int (unat (sequence ?slot)) - int (Suc d)"
    using le small F(6) d1 by (subst seq_diff_nat) auto
  show thesis
  proof (cases "unat (sequence ?slot) = Suc d")
    case True
    then show thesis using st slot diff by (intro full) auto
  next
    case False
    then have "seq_diff (sequence ?slot) (pos + 1) < 0" using diff le by linarith
    moreover have "settled (length L) (prod_ticket (thr p)) \<le> d"
      using False le by (intro empty_when_behind [OF inv two L d c]) (simp add: sq_def)
    ultimately show thesis using st slot by (intro empty) auto
  qed
qed

subsection \<open>Every step is a step of the atomic queue\<close>

lemma drop_take_snoc: "f \<le> e \<Longrightarrow> e < length L \<Longrightarrow> drop f (take (Suc e) L) = drop f (take e L) @ [L ! e]"
  by (simp add: take_Suc_conv_app_nth)

lemma drop_take_Cons: "f < e \<Longrightarrow> e \<le> length L \<Longrightarrow> drop f (take e L) = L ! f # drop (Suc f) (take e L)"
  by (simp add: Cons_nth_drop_Suc [symmetric])

lemma push_act_atomic:
  assumes inv: "conf_inv cap ls s" and two: "two_threads p c ls (threads s)" and t: "threads s p = Pushing x pc"
    and act: "push_active pc" and st: "push_step spurious (shared s) pc = (q', pc')" and bound: "length ls < 2 ^ 62"
    and s': "s' = \<lparr>shared = q', threads = (threads s)(p := Pushing x pc')\<rparr>"
  shows "producer_at (length (enq_log (ls @ [PushAct p pc pc']))) (Pushing x pc') \<and>
    atomic_run cap (fifo_acts (PushAct p pc pc')) (as_fifo p c ls s) = Some (as_fifo p c (ls @ [PushAct p pc pc']) s')"
proof -
  define L d where "L = map snd (enq_log ls)" and "d = length (deq_log ls)"
  have inv': "q_inv cap L d (shared s) (threads s)" using inv by (simp add: conf_inv_def L_def d_def)
  have len: "length L = length (enq_log ls)" by (simp add: L_def)
  have small: "length L < 2 ^ 62" using log_lengths [of ls] bound by (simp add: len)
  note F = q_inv_facts [OF inv'] and D = two_threadsD [OF two] and B = settled_bounds [OF inv' two len d_def]
  have pc: "p \<noteq> c" by (rule D(1))
  have "at": "producer_at (length L) (Pushing x pc)" using D(3) t len by simp
  have ok: "thread_ok cap L d (shared s) (Pushing x pc)" using F(7) [of p] t by simp
  show ?thesis
  proof (cases pc)
    case (PushSeq y pos)
    then have pos: "unat pos = length L" and y: "y = x" using "at" ok by auto
    from push_seq_cases [OF inv' two len d_def t [unfolded PushSeq] pos small st [unfolded PushSeq]]
    show ?thesis
      by cases (use PushSeq t pc pos s' y in \<open>simp_all add: as_fifo_def L_def [symmetric] d_def [symmetric] len [symmetric]\<close>)
  next
    case (PushCas y pos)
    then have pos: "unat pos = length L" and y: "y = x" using "at" ok by auto
    then have "enqueue_pos (shared s) = pos" using F(4) by (simp add: word_unat_eq_iff)
    then show ?thesis
      using st PushCas t pc pos y s' by (cases spurious) (auto simp: as_fifo_def L_def)
  next
    case (PushStore pos)
    then have pos: "Suc (unat pos) = length L" and item: "L ! unat pos = x" using "at" ok by auto
    have b: "d \<le> unat pos" using B(4) t PushStore pos by simp
    let ?f = "settled d (cons_ticket (threads s c))"
    have f: "?f \<le> unat pos" "unat pos - ?f < cap" using B(1,2) b pos by auto
    have after: "drop ?f L = drop ?f (take (unat pos) L) @ [x]"
      using drop_take_snoc [OF f(1), of L] pos item by simp
    have e: "length L - 1 = unat pos" using pos by simp
    have pc': "pc' = PushDone (Inr ())" using st PushStore by simp
    have "as_fifo p c ls s = \<lparr>stored_items = drop ?f (take (unat pos) L), push_call = Asked x, pop_call = popping_call (threads s c)\<rparr>"
      by (simp add: as_fifo_def t PushStore len [symmetric] L_def [symmetric] d_def [symmetric] e [simplified])
    moreover have "as_fifo p c (ls @ [PushAct p pc pc']) s' =
        \<lparr>stored_items = drop ?f L, push_call = Answered (Inr ()), pop_call = popping_call (threads s c)\<rparr>"
      using pc by (simp add: as_fifo_def s' pc' PushStore L_def [symmetric] d_def [symmetric] len [symmetric])
    moreover have "length (drop ?f (take (unat pos) L)) < cap" using f pos by simp
    ultimately show ?thesis unfolding after by (simp add: PushStore pc' e)
  next
    case (PushLoad y)
    then have "pc' = PushSeq y (enqueue_pos (shared s))" using st by auto
    then show ?thesis using PushLoad t pc s' F(4) by (simp add: as_fifo_def len [symmetric])
  next
    case (PushWrite y pos)
    then have "pc' = PushStore pos" using st by auto
    then show ?thesis using PushWrite t pc s' "at" by (simp add: as_fifo_def len [symmetric])
  qed (use act in auto)
qed

lemma pop_act_atomic:
  assumes inv: "conf_inv cap ls s" and two: "two_threads p c ls (threads s)" and t: "threads s c = Popping pc"
    and act: "pop_active pc" and st: "pop_step spurious (shared s) pc = (q', pc')" and bound: "length ls < 2 ^ 62"
    and s': "s' = \<lparr>shared = q', threads = (threads s)(c := Popping pc')\<rparr>"
  shows "consumer_at (length (deq_log (ls @ [PopAct c pc pc']))) (Popping pc') \<and>
    atomic_run cap (fifo_acts (PopAct c pc pc')) (as_fifo p c ls s) = Some (as_fifo p c (ls @ [PopAct c pc pc']) s')"
proof -
  define L d where "L = map snd (enq_log ls)" and "d = length (deq_log ls)"
  have inv': "q_inv cap L d (shared s) (threads s)" using inv by (simp add: conf_inv_def L_def d_def)
  have len: "length L = length (enq_log ls)" by (simp add: L_def)
  have small: "length L < 2 ^ 62" using log_lengths [of ls] bound by (simp add: len)
  note F = q_inv_facts [OF inv'] and D = two_threadsD [OF two] and B = settled_bounds [OF inv' two len d_def]
  have pc: "p \<noteq> c" by (rule D(1))
  have "at": "consumer_at d (Popping pc)" using D(4) t d_def by simp
  have ok: "thread_ok cap L d (shared s) (Popping pc)" using F(7) [of c] t by simp
  show ?thesis
  proof (cases pc)
    case (PopSeq pos)
    then have pos: "unat pos = d" using "at" by simp
    from pop_seq_cases [OF inv' two len d_def t [unfolded PopSeq] pos small st [unfolded PopSeq]]
    show ?thesis
      by cases (use PopSeq t pc pos s' in \<open>simp_all add: as_fifo_def L_def [symmetric] d_def [symmetric] len [symmetric]\<close>)
  next
    case (PopCas pos)
    then have pos: "unat pos = d" using "at" by simp
    then have "dequeue_pos (shared s) = pos" using F(5) by (simp add: word_unat_eq_iff)
    then show ?thesis
      using st PopCas t pc pos s' by (cases spurious) (auto simp: as_fifo_def d_def)
  next
    case (PopStore pos v)
    then have pos: "Suc (unat pos) = d" and item: "v = Some (L ! unat pos)" using "at" ok by auto
    let ?e = "settled (length L) (prod_ticket (threads s p))"
    have e: "unat pos < ?e" "?e \<le> length L" using B(3,4) pos by auto
    have d1: "d - 1 = unat pos" using pos by simp
    have pc': "pc' = PopDone (Some (L ! unat pos))" using st PopStore item by simp
    show ?thesis
      using PopStore t pc s' drop_take_Cons [OF e] d1 pos unfolding pc'
      by (simp add: as_fifo_def L_def [symmetric] d_def [symmetric] len [symmetric])
  next
    case PopLoad
    then have "pc' = PopSeq (dequeue_pos (shared s))" using st by auto
    then show ?thesis using PopLoad t pc s' F(5) by (simp add: as_fifo_def d_def)
  next
    case (PopTake pos)
    then have "\<exists>v. pc' = PopStore pos v" using st by auto
    then show ?thesis using PopTake t pc s' "at" by (auto simp: as_fifo_def d_def)
  qed (use act in auto)
qed

lemma called_step:
  assumes two: "two_threads p c ls (threads s)" and st: "conf_step s l s'" and by_them: "called_by p c l"
    and inv: "conf_inv cap ls s" and bound: "length ls < 2 ^ 62"
  shows "two_threads p c (ls @ [l]) (threads s') \<and>
    atomic_run cap (fifo_acts l) (as_fifo p c ls s) = Some (as_fifo p c (ls @ [l]) s')"
proof -
  note D = two_threadsD [OF two]
  note ok = q_inv_facts(7) [OF inv [unfolded conf_inv_def]]
  from st show ?thesis
  proof cases
    case (call_push t x)
    then have "t = p" using by_them by simp
    with call_push D(1-4) show ?thesis by (simp add: two_threads_def as_fifo_def)
  next
    case (call_pop t)
    then have "t = c" using by_them by simp
    with call_pop D(1-4) show ?thesis by (simp add: two_threads_def as_fifo_def)
  next
    case (push_act t x pc f q' pc')
    then have "t = p" using D(7) by blast
    from push_act_atomic [OF inv two push_act(3) [unfolded this] push_act(4,5) bound push_act(2) [unfolded this]]
    show ?thesis using push_act(1,2) D(1,2,4) \<open>t = p\<close> by (auto simp: two_threads_def)
  next
    case (pop_act t pc f q' pc')
    then have "t = c" using D(8) by blast
    from pop_act_atomic [OF inv two pop_act(3) [unfolded this] pop_act(4,5) bound pop_act(2) [unfolded this]]
    show ?thesis using pop_act(1,2) D(1,2,3) \<open>t = c\<close> by (auto simp: two_threads_def)
  next
    case (ret_push t x r)
    then have "t = p" using D(7) by blast
    with ret_push D(1-4) show ?thesis by (simp add: two_threads_def as_fifo_def)
  next
    case (ret_pop t r)
    then have "t = c" using D(8) by blast
    with ret_pop D(1-4) show ?thesis by (simp add: two_threads_def as_fifo_def)
  qed
qed

lemma exec_atomic:
  assumes "exec cap ls s" and "2 \<le> unat cap" and "unat cap \<le> 2 ^ 62" and "length ls \<le> 2 ^ 62"
    and "p \<noteq> c" and "\<forall>l \<in> set ls. called_by p c l"
  shows "two_threads p c ls (threads s) \<and> atomic_run (unat cap) (fifo_history ls) empty_fifo = Some (as_fifo p c ls s)"
  using assms
proof (induction rule: exec.induct)
  case (start q)
  then show ?case by (simp add: two_threads_def empty_fifo_def as_fifo_def)
next
  case (step ls s l s')
  then have IH: "two_threads p c ls (threads s)" "atomic_run (unat cap) (fifo_history ls) empty_fifo = Some (as_fifo p c ls s)"
    and b: "length ls < 2 ^ 62" by auto
  have "conf_inv (unat cap) ls s" using exec_inv [OF step.hyps(1) step.prems(1,2)] b by simp
  with called_step [OF IH(1) step.hyps(2) _ _ b] step.prems(5) IH(2) show ?case by (simp add: atomic_run_append)
qed

lemma as_fifo_idle:
  assumes "exec cap ls s" and "2 \<le> unat cap" and "unat cap \<le> 2 ^ 62" and "length ls \<le> 2 ^ 62" and "quiescent s"
  shows "stored_items (as_fifo p c ls s) = queue_list (shared s)"
proof -
  have idle: "threads s = (\<lambda>_. Idle)" using assms(5) by (auto simp: quiescent_def)
  have inv: "q_inv (unat cap) (map snd (enq_log ls)) (length (deq_log ls)) (shared s) (\<lambda>_. Idle)"
    using exec_inv [OF assms(1-4)] by (simp add: conf_inv_def idle)
  have "queue_list (shared s) = drop (length (deq_log ls)) (map snd (enq_log ls))"
    using log_lengths [of ls] assms(4) by (intro quiescent_contents [OF inv]) simp
  then show ?thesis by (simp add: as_fifo_def idle)
qed

subsection \<open>The contents of the atomic queue\<close>

text \<open>What a client of the queue sees of a run: its contents, and how each step of a thread changes them.\<close>

definition spsc_run :: "usize \<Rightarrow> nat \<Rightarrow> nat \<Rightarrow> 'a label list \<Rightarrow> 'a conf \<Rightarrow> bool" where
  "spsc_run cap p c ls s \<longleftrightarrow> exec cap ls s \<and> p \<noteq> c \<and> (\<forall>l \<in> set ls. called_by p c l) \<and> 2 \<le> unat cap \<and> unat cap \<le> 2 ^ 62"

definition items :: "nat \<Rightarrow> nat \<Rightarrow> 'a label list \<Rightarrow> 'a conf \<Rightarrow> 'a list" where
  "items p c ls s = stored_items (as_fifo p c ls s)"

lemma spsc_start:
  assumes "queue_new cap = Some q" and "2 \<le> unat cap" and "unat cap \<le> 2 ^ 62" and "p \<noteq> c"
  shows "spsc_run cap p c [] \<lparr>shared = q, threads = (\<lambda>_. Idle)\<rparr>" "items p c [] \<lparr>shared = q, threads = (\<lambda>_. Idle)\<rparr> = []"
  using assms by (auto simp: spsc_run_def items_def as_fifo_def intro: exec.start)

lemma spsc_next:
  assumes "spsc_run cap p c ls s" and "conf_step s l s'" and "called_by p c l" and "length ls < 2 ^ 62"
  shows "spsc_run cap p c (ls @ [l]) s'"
    and "atomic_run (unat cap) (fifo_acts l) (as_fifo p c ls s) = Some (as_fifo p c (ls @ [l]) s')"
proof -
  have r: "exec cap ls s" "2 \<le> unat cap" "unat cap \<le> 2 ^ 62" "p \<noteq> c" "\<forall>l \<in> set ls. called_by p c l"
    using assms(1) by (simp_all add: spsc_run_def)
  have b: "length ls \<le> 2 ^ 62" using assms(4) by simp
  show "spsc_run cap p c (ls @ [l]) s'" using r assms(2,3) by (auto simp: spsc_run_def intro: exec.step)
  have "two_threads p c ls (threads s)" using exec_atomic [OF r(1-3) b r(4,5)] by blast
  then show "atomic_run (unat cap) (fifo_acts l) (as_fifo p c ls s) = Some (as_fifo p c (ls @ [l]) s')"
    using called_step [OF _ assms(2,3) exec_inv [OF r(1-3) b] assms(4)] by blast
qed

lemma atomic_step_items:
  "atomic_step n (InvokePush x) f = Some f' \<Longrightarrow> stored_items f' = stored_items f"
  "atomic_step n (ReturnPush r) f = Some f' \<Longrightarrow> stored_items f' = stored_items f"
  "atomic_step n InvokePop f = Some f' \<Longrightarrow> stored_items f' = stored_items f"
  "atomic_step n (ReturnPop v) f = Some f' \<Longrightarrow> stored_items f' = stored_items f"
  by (auto split: if_splits)

lemma atomic_push_result:
  assumes "atomic_step n LinearizePush f = Some f'" and "push_call f = Asked x"
  shows "if length (stored_items f) < n then stored_items f' = stored_items f @ [x] \<and> push_call f' = Answered (Inr ())
    else stored_items f' = stored_items f \<and> push_call f' = Answered (Inl x)"
  using assms by (auto split: if_splits)

lemma atomic_pop_result:
  assumes "atomic_step n LinearizePop f = Some f'" and "pop_call f = Asked ()"
  shows "case stored_items f of [] \<Rightarrow> stored_items f' = [] \<and> pop_call f' = Answered None
    | x # xs \<Rightarrow> stored_items f' = xs \<and> pop_call f' = Answered (Some x)"
  using assms by (auto split: list.splits)

lemma atomic_run_single: "atomic_run n [a] f = Some f' \<Longrightarrow> atomic_step n a f = Some f'"
  by (simp split: option.splits)

lemma spsc_call:
  assumes "spsc_run cap p c ls s" and "length ls < 2 ^ 62"
  shows "threads s p = Idle \<Longrightarrow> s' = s\<lparr>threads := (threads s)(p := Pushing x (PushLoad x))\<rparr> \<Longrightarrow>
      \<exists>l. spsc_run cap p c (ls @ [l]) s' \<and> items p c (ls @ [l]) s' = items p c ls s"
    and "threads s c = Idle \<Longrightarrow> s' = s\<lparr>threads := (threads s)(c := Popping PopLoad)\<rparr> \<Longrightarrow>
      \<exists>l. spsc_run cap p c (ls @ [l]) s' \<and> items p c (ls @ [l]) s' = items p c ls s"
proof -
  show "\<exists>l. spsc_run cap p c (ls @ [l]) s' \<and> items p c (ls @ [l]) s' = items p c ls s"
    if t: "threads s p = Idle" and s': "s' = s\<lparr>threads := (threads s)(p := Pushing x (PushLoad x))\<rparr>"
  proof -
    have "conf_step s (CallPush p x) s'" unfolding s' using t by (rule call_push)
    moreover have "called_by p c (CallPush p x)" by simp
    ultimately have n: "spsc_run cap p c (ls @ [CallPush p x]) s'"
        "atomic_run (unat cap) (fifo_acts (CallPush p x)) (as_fifo p c ls s) = Some (as_fifo p c (ls @ [CallPush p x]) s')"
      using spsc_next [OF assms(1) _ _ assms(2)] by blast+
    from n(1) atomic_step_items(1) [OF atomic_run_single [OF n(2) [unfolded fifo_acts.simps]]] show ?thesis
      by (intro exI [of _ "CallPush p x"]) (simp add: items_def)
  qed
  show "\<exists>l. spsc_run cap p c (ls @ [l]) s' \<and> items p c (ls @ [l]) s' = items p c ls s"
    if t: "threads s c = Idle" and s': "s' = s\<lparr>threads := (threads s)(c := Popping PopLoad)\<rparr>"
  proof -
    have "conf_step s (CallPop c) s'" unfolding s' using t by (rule call_pop)
    moreover have "called_by p c (CallPop c)" by simp
    ultimately have n: "spsc_run cap p c (ls @ [CallPop c]) s'"
        "atomic_run (unat cap) (fifo_acts (CallPop c)) (as_fifo p c ls s) = Some (as_fifo p c (ls @ [CallPop c]) s')"
      using spsc_next [OF assms(1) _ _ assms(2)] by blast+
    from n(1) atomic_step_items(3) [OF atomic_run_single [OF n(2) [unfolded fifo_acts.simps]]] show ?thesis
      by (intro exI [of _ "CallPop c"]) (simp add: items_def)
  qed
qed

lemma spsc_return:
  assumes "spsc_run cap p c ls s" and "length ls < 2 ^ 62"
  shows "threads s p = Pushing x (PushDone r) \<Longrightarrow> s' = s\<lparr>threads := (threads s)(p := Idle)\<rparr> \<Longrightarrow>
      \<exists>l. spsc_run cap p c (ls @ [l]) s' \<and> items p c (ls @ [l]) s' = items p c ls s"
    and "threads s c = Popping (PopDone v) \<Longrightarrow> s' = s\<lparr>threads := (threads s)(c := Idle)\<rparr> \<Longrightarrow>
      \<exists>l. spsc_run cap p c (ls @ [l]) s' \<and> items p c (ls @ [l]) s' = items p c ls s"
proof -
  show "\<exists>l. spsc_run cap p c (ls @ [l]) s' \<and> items p c (ls @ [l]) s' = items p c ls s"
    if t: "threads s p = Pushing x (PushDone r)" and s': "s' = s\<lparr>threads := (threads s)(p := Idle)\<rparr>"
  proof -
    have "conf_step s (RetPush p x r) s'" unfolding s' using t by (rule ret_push)
    moreover have "called_by p c (RetPush p x r)" by simp
    ultimately have n: "spsc_run cap p c (ls @ [RetPush p x r]) s'"
        "atomic_run (unat cap) (fifo_acts (RetPush p x r)) (as_fifo p c ls s) = Some (as_fifo p c (ls @ [RetPush p x r]) s')"
      using spsc_next [OF assms(1) _ _ assms(2)] by blast+
    from n(1) atomic_step_items(2) [OF atomic_run_single [OF n(2) [unfolded fifo_acts.simps]]] show ?thesis
      by (intro exI [of _ "RetPush p x r"]) (simp add: items_def)
  qed
  show "\<exists>l. spsc_run cap p c (ls @ [l]) s' \<and> items p c (ls @ [l]) s' = items p c ls s"
    if t: "threads s c = Popping (PopDone v)" and s': "s' = s\<lparr>threads := (threads s)(c := Idle)\<rparr>"
  proof -
    have "conf_step s (RetPop c v) s'" unfolding s' using t by (rule ret_pop)
    moreover have "called_by p c (RetPop c v)" by simp
    ultimately have n: "spsc_run cap p c (ls @ [RetPop c v]) s'"
        "atomic_run (unat cap) (fifo_acts (RetPop c v)) (as_fifo p c ls s) = Some (as_fifo p c (ls @ [RetPop c v]) s')"
      using spsc_next [OF assms(1) _ _ assms(2)] by blast+
    from n(1) atomic_step_items(4) [OF atomic_run_single [OF n(2) [unfolded fifo_acts.simps]]] show ?thesis
      by (intro exI [of _ "RetPop c v"]) (simp add: items_def)
  qed
qed

text \<open>The step of a push or pop that decides its result is the one at which the contents change.\<close>

lemma fifo_acts_decide:
  "push_active pc \<Longrightarrow> push_step f q pc = (q', pc') \<Longrightarrow>
    fifo_acts (PushAct t pc pc') = (if \<exists>r. pc' = PushDone r then [LinearizePush] else [])"
  "pop_active po \<Longrightarrow> pop_step f q po = (q', po') \<Longrightarrow>
    fifo_acts (PopAct t po po') = (if \<exists>v. po' = PopDone v then [LinearizePop] else [])"
  by (cases pc; auto simp: Let_def split: option.splits if_splits)
    (cases po; auto simp: Let_def split: option.splits if_splits)

lemma spsc_push_act:
  assumes run: "spsc_run cap p c ls s" and b: "length ls < 2 ^ 62" and t: "threads s p = Pushing x pc" and act: "push_active pc"
    and st: "push_step f (shared s) pc = (q', pc')" and s': "s' = \<lparr>shared = q', threads = (threads s)(p := Pushing x pc')\<rparr>"
  obtains (silent) l where "spsc_run cap p c (ls @ [l]) s'" "\<And>r. pc' \<noteq> PushDone r" "items p c (ls @ [l]) s' = items p c ls s"
    | (room) l where "spsc_run cap p c (ls @ [l]) s'" "pc' = PushDone (Inr ())" "length (items p c ls s) < unat cap"
        "items p c (ls @ [l]) s' = items p c ls s @ [x]"
    | (full) l where "spsc_run cap p c (ls @ [l]) s'" "pc' = PushDone (Inl x)" "unat cap \<le> length (items p c ls s)"
        "items p c (ls @ [l]) s' = items p c ls s"
proof -
  let ?l = "PushAct p pc pc'"
  have "conf_step s ?l s'" unfolding s' using t act st by (rule push_act)
  note n = spsc_next [OF run this _ b]
  have run': "spsc_run cap p c (ls @ [?l]) s'" using n(1) by simp
  have asked: "push_call (as_fifo p c ls s) = Asked x" using t act by (cases pc) (simp_all add: as_fifo_def)
  show thesis
  proof (cases "\<exists>r. pc' = PushDone r")
    case False
    then have "as_fifo p c (ls @ [?l]) s' = as_fifo p c ls s" using n(2) fifo_acts_decide(1) [OF act st] by simp
    with run' False show thesis by (intro silent) (auto simp: items_def)
  next
    case True
    then obtain r where r: "pc' = PushDone r" by blast
    have "push_call (as_fifo p c (ls @ [?l]) s') = Answered r" by (simp add: as_fifo_def s' r)
    moreover have step: "atomic_step (unat cap) LinearizePush (as_fifo p c ls s) = Some (as_fifo p c (ls @ [?l]) s')"
      using n(2) fifo_acts_decide(1) [OF act st] True by (intro atomic_run_single) simp
    ultimately have *: "if length (items p c ls s) < unat cap
        then items p c (ls @ [?l]) s' = items p c ls s @ [x] \<and> r = Inr ()
        else items p c (ls @ [?l]) s' = items p c ls s \<and> r = Inl x"
      using atomic_push_result [OF step asked, folded items_def] by (auto split: if_splits)
    then show thesis
    proof (cases "length (items p c ls s) < unat cap")
      case True
      with * have "r = Inr ()" "items p c (ls @ [?l]) s' = items p c ls s @ [x]" by simp_all
      with run' r True show thesis by (intro room [of ?l]) (simp_all only:)
    next
      case False
      with * have "r = Inl x" "items p c (ls @ [?l]) s' = items p c ls s" by simp_all
      with run' r False show thesis by (intro full [of ?l]) (simp_all only: not_less)
    qed
  qed
qed

lemma spsc_pop_act:
  assumes run: "spsc_run cap p c ls s" and b: "length ls < 2 ^ 62" and t: "threads s c = Popping pc" and act: "pop_active pc"
    and st: "pop_step f (shared s) pc = (q', pc')" and s': "s' = \<lparr>shared = q', threads = (threads s)(c := Popping pc')\<rparr>"
  obtains (silent) l where "spsc_run cap p c (ls @ [l]) s'" "\<And>v. pc' \<noteq> PopDone v" "items p c (ls @ [l]) s' = items p c ls s"
    | (item) l x where "spsc_run cap p c (ls @ [l]) s'" "pc' = PopDone (Some x)"
        "items p c ls s = x # items p c (ls @ [l]) s'"
    | (empty) l where "spsc_run cap p c (ls @ [l]) s'" "pc' = PopDone None" "items p c ls s = []" "items p c (ls @ [l]) s' = []"
proof -
  let ?l = "PopAct c pc pc'"
  have "conf_step s ?l s'" unfolding s' using t act st by (rule pop_act)
  note n = spsc_next [OF run this _ b]
  have run': "spsc_run cap p c (ls @ [?l]) s'" using n(1) by simp
  have asked: "pop_call (as_fifo p c ls s) = Asked ()" using t act by (cases pc) (simp_all add: as_fifo_def)
  show thesis
  proof (cases "\<exists>v. pc' = PopDone v")
    case False
    then have "as_fifo p c (ls @ [?l]) s' = as_fifo p c ls s" using n(2) fifo_acts_decide(2) [OF act st] by simp
    with run' False show thesis by (intro silent) (auto simp: items_def)
  next
    case True
    then obtain v where v: "pc' = PopDone v" by blast
    have "pop_call (as_fifo p c (ls @ [?l]) s') = Answered v" by (simp add: as_fifo_def s' v)
    moreover have step: "atomic_step (unat cap) LinearizePop (as_fifo p c ls s) = Some (as_fifo p c (ls @ [?l]) s')"
      using n(2) fifo_acts_decide(2) [OF act st] True by (intro atomic_run_single) simp
    ultimately have *: "case items p c ls s of [] \<Rightarrow> items p c (ls @ [?l]) s' = [] \<and> v = None
        | x # xs \<Rightarrow> items p c (ls @ [?l]) s' = xs \<and> v = Some x"
      using atomic_pop_result [OF step asked, folded items_def] by (auto split: list.splits)
    then show thesis
    proof (cases "items p c ls s")
      case Nil
      with * have "v = None" "items p c (ls @ [?l]) s' = []" by simp_all
      with run' v Nil show thesis by (intro empty [of ?l]) (simp_all only:)
    next
      case (Cons x xs)
      with * have "v = Some x" "items p c (ls @ [?l]) s' = xs" by simp_all
      with run' v Cons show thesis by (intro item [of ?l x]) (simp_all only:)
    qed
  qed
qed

lemma spsc_thread_ok:
  assumes "spsc_run cap p c ls s" and "length ls \<le> 2 ^ 62"
  shows "threads s t = Pushing x pc \<Longrightarrow> pc \<noteq> PushPanic" "threads s t = Popping po \<Longrightarrow> po \<noteq> PopPanic"
proof -
  have "conf_inv (unat cap) ls s" using assms exec_inv by (auto simp: spsc_run_def)
  then have "thread_ok (unat cap) (map snd (enq_log ls)) (length (deq_log ls)) (shared s) (threads s t)"
    unfolding conf_inv_def by (rule q_inv_facts(7))
  then show "threads s t = Pushing x pc \<Longrightarrow> pc \<noteq> PushPanic" "threads s t = Popping po \<Longrightarrow> po \<noteq> PopPanic" by auto
qed

subsection \<open>Linearizability\<close>

text \<open>
  C5: With one producer and one consumer the queue is linearizable. In every interleaving of the
  atomic accesses, spurious failures included, each call has the result that an atomic bounded
  FIFO gives at one step of that call: a push is rejected only when the FIFO holds capacity
  items at that moment, a pop returns None only when it is empty. Between calls the FIFO holds
  the contents of the buffer.
\<close>

theorem single_producer_queue_is_atomic:
  assumes "exec cap ls s" and "2 \<le> unat cap" and "unat cap \<le> 2 ^ 62" and "length ls \<le> 2 ^ 62"
    and "p \<noteq> c" and "\<forall>l \<in> set ls. called_by p c l"
  shows "\<exists>f. atomic_run (unat cap) (fifo_history ls) empty_fifo = Some f \<and>
    (quiescent s \<longrightarrow> f = \<lparr>stored_items = queue_list (shared s), push_call = Ready, pop_call = Ready\<rparr>)"
proof -
  have "as_fifo p c ls s = \<lparr>stored_items = queue_list (shared s), push_call = Ready, pop_call = Ready\<rparr>" if "quiescent s"
    using as_fifo_idle [OF assms(1-4) that] that by (simp add: as_fifo_def quiescent_def)
  then show ?thesis using exec_atomic [OF assms] by blast
qed

text \<open>The consumer looks for an item while the producer is between its claim and its store.\<close>

theorem single_producer_queue_is_atomic_witness:
  "\<exists>ls s. exec 2 ls (s :: nat conf) \<and> fifo_history ls = [InvokePush 7, InvokePop, LinearizePop, ReturnPop None,
       LinearizePush, ReturnPush (Inr ())] \<and>
     atomic_run 2 (fifo_history ls) empty_fifo = Some \<lparr>stored_items = queue_list (shared s), push_call = Ready, pop_call = Ready\<rparr>"
proof -
  let ?cs = "[DoPush 0 7, DoAct 0, DoAct 0, DoAct 0, DoPop 1, DoAct 1, DoAct 1, DoRet 1, DoAct 0, DoAct 0, DoRet 0]"
  obtain ls and s :: "nat conf" where run: "cmd_run \<lparr>shared = queue2, threads = (\<lambda>_. Idle)\<rparr> ?cs = Some (ls, s)"
    and h: "fifo_history ls = [InvokePush 7, InvokePop, LinearizePop, ReturnPop None, LinearizePush, ReturnPush (Inr ())]"
    and l: "length ls = 11" "\<forall>l \<in> set ls. called_by 0 1 l" and q: "quiescent s"
    by (simp add: run_simps fifo_history_def quiescent_def)
  have "unat (2 :: usize) = 2" by simp
  then have "\<exists>f. atomic_run 2 (fifo_history ls) empty_fifo = Some f \<and>
      (quiescent s \<longrightarrow> f = \<lparr>stored_items = queue_list (shared s), push_call = Ready, pop_call = Ready\<rparr>)"
    using single_producer_queue_is_atomic [OF exec_queue2 [OF run], of 0 1] l by simp
  with exec_queue2 [OF run] h q show ?thesis by blast
qed

end
