(* ===== verification/QueueWeak.thy ===== *)
theory QueueWeak
  imports QueueConcurrent
begin

unbundle bit_operations_syntax

section \<open>The ring buffer under the memory orderings of the source\<close>

text \<open>
  \<^verbatim>\<open>engine/src/queue.rs\<close> names a memory ordering at each atomic access: the counters are
  \<open>Relaxed\<close>, a slot's \<open>sequence\<close> is loaded with \<open>Acquire\<close> and stored with \<open>Release\<close>. This
  theory runs \<open>push\<close> and \<open>pop\<close> on a release/acquire machine with views. Every atomic
  location keeps the history of its messages; a thread's view records, per location, the
  oldest message it may still read, and each message carries the view its writer released.
  A load may return any message its thread's view allows, so that loads can be stale; an
  acquiring load takes over the view of the message it reads. The value of a slot is not
  atomic: an access by a thread whose view lacks the newest write of that slot is a data
  race, and it is recorded.

  A store is appended to the history of its location. For the counters that is all coherence
  allows, since every write of them is a compare-exchange; for the sequence numbers
  \<open>stores_are_coherent\<close> shows that the storing thread has seen the newest message, so no
  other position is left. A load reads a message that has already been stored.
\<close>

subsection \<open>Memory\<close>

datatype ordering = Relaxed | Acquire | Release

datatype location = EnqueuePos | DequeuePos | Sequence nat | Value nat

type_synonym view = "location \<Rightarrow> nat"
type_synonym message = "usize \<times> view"

definition join :: "view \<Rightarrow> view \<Rightarrow> view" where
  "join V W = (\<lambda>l. max (V l) (W l))"

text \<open>\<open>cells\<close> and \<open>writes\<close>: the contents of each slot's \<open>UnsafeCell\<close> and how often it was written.\<close>

record 'a WeakQueue =
  history :: "location \<Rightarrow> message list"
  cells :: "nat \<Rightarrow> 'a option"
  writes :: "nat \<Rightarrow> nat"
  raced :: bool
  w_mask :: usize
  w_len :: nat

text \<open>\<open>load(ordering)\<close> of the message with the given index.\<close>

definition load :: "ordering \<Rightarrow> 'a WeakQueue \<Rightarrow> view \<Rightarrow> location \<Rightarrow> nat \<Rightarrow> usize \<times> view" where
  "load ord q V l n = (case history q l ! n of (v, W) \<Rightarrow>
     (v, if ord = Acquire then join (V(l := n)) W else V(l := n)))"

text \<open>\<open>store(v, ordering)\<close>: only a releasing store hands on the thread's view.\<close>

definition store :: "ordering \<Rightarrow> 'a WeakQueue \<Rightarrow> view \<Rightarrow> location \<Rightarrow> usize \<Rightarrow> 'a WeakQueue \<times> view" where
  "store ord q V l v = (let V' = V(l := length (history q l)) in
     (q\<lparr>history := (history q)(l := history q l @
         [(v, if ord = Release then V' else (\<lambda>_. 0)(l := length (history q l)))])\<rparr>, V'))"

text \<open>
  \<open>compare_exchange_weak(old, new, success, failure)\<close>: success reads the newest message and
  continues its release sequence; a failure (spurious ones included) is a load.
\<close>

definition compare_exchange_weak :: "ordering \<Rightarrow> ordering \<Rightarrow> 'a WeakQueue \<Rightarrow> view \<Rightarrow> location
    \<Rightarrow> usize \<Rightarrow> usize \<Rightarrow> bool \<Rightarrow> nat \<Rightarrow> 'a WeakQueue \<times> view \<times> (usize + unit)" where
  "compare_exchange_weak success failure q V l old new spurious n =
     (case last (history q l) of (v, W) \<Rightarrow>
        if v = old \<and> \<not> spurious
        then let m = length (history q l);
                 V' = (if success = Acquire then join (V(l := m)) W else V(l := m)) in
             (q\<lparr>history := (history q)(l := history q l @
                 [(new, if success = Release then join V' W else W(l := m))])\<rparr>, V', Inr ())
        else case load failure q V l n of (cur, V') \<Rightarrow> (q, V', Inl cur))"

text \<open>A write through \<open>slot.value.get()\<close>, with the value it replaces.\<close>

definition write_cell :: "'a WeakQueue \<Rightarrow> view \<Rightarrow> nat \<Rightarrow> 'a option \<Rightarrow> 'a option \<times> 'a WeakQueue \<times> view" where
  "write_cell q V i v =
     (cells q i,
      q\<lparr>cells := (cells q)(i := v), writes := (writes q)(i := Suc (writes q i)),
        raced := (raced q \<or> V (Value i) < writes q i)\<rparr>,
      V(Value i := Suc (writes q i)))"

subsection \<open>The code with its orderings\<close>

definition weak_new :: "usize \<Rightarrow> 'a WeakQueue option" where
  "weak_new capacity =
     (if is_power_of_two capacity
      then Some \<lparr>history = (\<lambda>l. case l of Sequence i \<Rightarrow> [(of_nat i, \<lambda>_. 0)] | _ \<Rightarrow> [(0, \<lambda>_. 0)]),
                 cells = (\<lambda>_. None), writes = (\<lambda>_. 0), raced = False,
                 w_mask = capacity - 1, w_len = unat capacity\<rparr>
      else None)"

definition w_index :: "'a WeakQueue \<Rightarrow> usize \<Rightarrow> nat" where
  "w_index q pos = unat (pos AND w_mask q)"

fun weak_push_step :: "bool \<Rightarrow> nat \<Rightarrow> 'a WeakQueue \<Rightarrow> view \<Rightarrow> 'a push_pc
    \<Rightarrow> 'a WeakQueue \<times> view \<times> 'a push_pc" where
  "weak_push_step spurious n q V (PushLoad item) =
     (case load Relaxed q V EnqueuePos n of (pos, V') \<Rightarrow> (q, V', PushSeq item pos))"
| "weak_push_step spurious n q V (PushSeq item pos) =
     (if w_index q pos < w_len q
      then case load Acquire q V (Sequence (w_index q pos)) n of (seq, V') \<Rightarrow>
        (let diff = seq_diff seq pos in
         (q, V', if diff = 0 then PushCas item pos
                 else if diff < 0 then PushDone (Inl item)
                 else PushLoad item))
      else (q, V, PushPanic))"
| "weak_push_step spurious n q V (PushCas item pos) =
     (case compare_exchange_weak Relaxed Relaxed q V EnqueuePos pos (pos + 1) spurious n of
        (q', V', Inr u) \<Rightarrow> (q', V', PushWrite item pos)
      | (q', V', Inl cur) \<Rightarrow> (q', V', PushSeq item cur))"
| "weak_push_step spurious n q V (PushWrite item pos) =
     (case write_cell q V (w_index q pos) (Some item) of (old, q', V') \<Rightarrow> (q', V', PushStore pos))"
| "weak_push_step spurious n q V (PushStore pos) =
     (case store Release q V (Sequence (w_index q pos)) (pos + 1) of (q', V') \<Rightarrow>
        (q', V', PushDone (Inr ())))"
| "weak_push_step spurious n q V (PushDone r) = (q, V, PushDone r)"
| "weak_push_step spurious n q V PushPanic = (q, V, PushPanic)"

fun weak_pop_step :: "bool \<Rightarrow> nat \<Rightarrow> 'a WeakQueue \<Rightarrow> view \<Rightarrow> 'a pop_pc
    \<Rightarrow> 'a WeakQueue \<times> view \<times> 'a pop_pc" where
  "weak_pop_step spurious n q V PopLoad =
     (case load Relaxed q V DequeuePos n of (pos, V') \<Rightarrow> (q, V', PopSeq pos))"
| "weak_pop_step spurious n q V (PopSeq pos) =
     (if w_index q pos < w_len q
      then case load Acquire q V (Sequence (w_index q pos)) n of (seq, V') \<Rightarrow>
        (let diff = seq_diff seq (pos + 1) in
         (q, V', if diff = 0 then PopCas pos
                 else if diff < 0 then PopDone None
                 else PopLoad))
      else (q, V, PopPanic))"
| "weak_pop_step spurious n q V (PopCas pos) =
     (case compare_exchange_weak Relaxed Relaxed q V DequeuePos pos (pos + 1) spurious n of
        (q', V', Inr u) \<Rightarrow> (q', V', PopTake pos)
      | (q', V', Inl cur) \<Rightarrow> (q', V', PopSeq cur))"
| "weak_pop_step spurious n q V (PopTake pos) =
     (case write_cell q V (w_index q pos) None of (item, q', V') \<Rightarrow> (q', V', PopStore pos item))"
| "weak_pop_step spurious n q V (PopStore pos item) =
     (case store Release q V (Sequence (w_index q pos)) (pos + w_mask q + 1) of (q', V') \<Rightarrow>
        (q', V', PopDone item))"
| "weak_pop_step spurious n q V (PopDone r) = (q, V, PopDone r)"
| "weak_pop_step spurious n q V PopPanic = (q, V, PopPanic)"

text \<open>The location a step loads from, and the messages it may read there.\<close>

fun push_reads :: "'a WeakQueue \<Rightarrow> 'a push_pc \<Rightarrow> location option" where
  "push_reads q (PushLoad item) = Some EnqueuePos"
| "push_reads q (PushSeq item pos) = Some (Sequence (w_index q pos))"
| "push_reads q (PushCas item pos) = Some EnqueuePos"
| "push_reads q pc = None"

fun pop_reads :: "'a WeakQueue \<Rightarrow> 'a pop_pc \<Rightarrow> location option" where
  "pop_reads q PopLoad = Some DequeuePos"
| "pop_reads q (PopSeq pos) = Some (Sequence (w_index q pos))"
| "pop_reads q (PopCas pos) = Some DequeuePos"
| "pop_reads q pc = None"

definition readable :: "'a WeakQueue \<Rightarrow> view \<Rightarrow> location option \<Rightarrow> nat \<Rightarrow> bool" where
  "readable q V r n = (case r of None \<Rightarrow> True | Some l \<Rightarrow> V l \<le> n \<and> n < length (history q l))"

subsection \<open>Configurations and executions\<close>

record 'a weak_conf =
  queue :: "'a WeakQueue"
  w_threads :: "nat \<Rightarrow> 'a thread"
  views :: "nat \<Rightarrow> view"

inductive weak_step :: "'a weak_conf \<Rightarrow> 'a label \<Rightarrow> 'a weak_conf \<Rightarrow> bool" where
  weak_call_push: "w_threads s t = Idle \<Longrightarrow>
    weak_step s (CallPush t x) (s\<lparr>w_threads := (w_threads s)(t := Pushing x (PushLoad x))\<rparr>)"
| weak_call_pop: "w_threads s t = Idle \<Longrightarrow>
    weak_step s (CallPop t) (s\<lparr>w_threads := (w_threads s)(t := Popping PopLoad)\<rparr>)"
| weak_push_act: "w_threads s t = Pushing x pc \<Longrightarrow> push_active pc \<Longrightarrow>
    readable (queue s) (views s t) (push_reads (queue s) pc) n \<Longrightarrow>
    weak_push_step spurious n (queue s) (views s t) pc = (q', V', pc') \<Longrightarrow>
    weak_step s (PushAct t pc pc')
      \<lparr>queue = q', w_threads = (w_threads s)(t := Pushing x pc'), views = (views s)(t := V')\<rparr>"
| weak_pop_act: "w_threads s t = Popping pc \<Longrightarrow> pop_active pc \<Longrightarrow>
    readable (queue s) (views s t) (pop_reads (queue s) pc) n \<Longrightarrow>
    weak_pop_step spurious n (queue s) (views s t) pc = (q', V', pc') \<Longrightarrow>
    weak_step s (PopAct t pc pc')
      \<lparr>queue = q', w_threads = (w_threads s)(t := Popping pc'), views = (views s)(t := V')\<rparr>"
| weak_ret_push: "w_threads s t = Pushing x (PushDone r) \<Longrightarrow>
    weak_step s (RetPush t x r) (s\<lparr>w_threads := (w_threads s)(t := Idle)\<rparr>)"
| weak_ret_pop: "w_threads s t = Popping (PopDone r) \<Longrightarrow>
    weak_step s (RetPop t r) (s\<lparr>w_threads := (w_threads s)(t := Idle)\<rparr>)"

text \<open>
  Threads may also synchronise outside the queue (a spawn, a join, a lock): a thread then
  learns what another one knows.
\<close>

inductive weak_exec :: "usize \<Rightarrow> 'a label list \<Rightarrow> 'a weak_conf \<Rightarrow> bool" for capacity :: usize where
  weak_start: "weak_new capacity = Some q \<Longrightarrow>
    weak_exec capacity [] \<lparr>queue = q, w_threads = (\<lambda>_. Idle), views = (\<lambda>_ _. 0)\<rparr>"
| weak_next: "weak_exec capacity ls s \<Longrightarrow> weak_step s l s' \<Longrightarrow> weak_exec capacity (ls @ [l]) s'"
| weak_sync: "weak_exec capacity ls s \<Longrightarrow> V \<le> views s t' \<Longrightarrow>
    weak_exec capacity ls (s\<lparr>views := (views s)(t := join (views s t) V)\<rparr>)"

subsection \<open>The newest messages as a queue\<close>

definition newest :: "'a WeakQueue \<Rightarrow> location \<Rightarrow> usize" where
  "newest q l = fst (last (history q l))"

definition sc_queue :: "'a WeakQueue \<Rightarrow> 'a MpmcQueue" where
  "sc_queue q = \<lparr>buffer = map (\<lambda>i. \<lparr>sequence = newest q (Sequence i), slot_value = cells q i\<rparr>) [0..<w_len q],
     mask = w_mask q, enqueue_pos = newest q EnqueuePos, dequeue_pos = newest q DequeuePos\<rparr>"

definition sc_conf :: "'a weak_conf \<Rightarrow> 'a conf" where
  "sc_conf s = \<lparr>shared = sc_queue (queue s), threads = w_threads s\<rparr>"

lemma sc_queue_sel [simp]:
  "enqueue_pos (sc_queue q) = newest q EnqueuePos" "dequeue_pos (sc_queue q) = newest q DequeuePos"
  "mask (sc_queue q) = w_mask q" "length (buffer (sc_queue q)) = w_len q"
  "slot_index (sc_queue q) pos = w_index q pos"
  by (simp_all add: sc_queue_def slot_index_def w_index_def)

lemma sc_conf_sel [simp]: "shared (sc_conf s) = sc_queue (queue s)" "threads (sc_conf s) = w_threads s"
  by (simp_all add: sc_conf_def)

lemma sc_queue_slot:
  "i < w_len q \<Longrightarrow> sq (sc_queue q) i = unat (newest q (Sequence i))"
  "i < w_len q \<Longrightarrow> vl (sc_queue q) i = cells q i"
  by (simp_all add: sq_def vl_def sc_queue_def)

lemma sc_queue_append:
  "sc_queue (q\<lparr>history := (history q)(EnqueuePos := h @ [(v, W)])\<rparr>) = (sc_queue q)\<lparr>enqueue_pos := v\<rparr>"
  "sc_queue (q\<lparr>history := (history q)(DequeuePos := h @ [(v, W)])\<rparr>) = (sc_queue q)\<lparr>dequeue_pos := v\<rparr>"
  by (simp_all add: sc_queue_def newest_def)

lemma map_upt_upd: "i < n \<Longrightarrow> map (f(i := v)) [0..<n] = (map f [0..<n])[i := v]"
  by (auto simp: list_eq_iff_nth_eq nth_list_update)

lemma sc_queue_sequence:
  assumes "w_index q pos < w_len q"
  shows "sc_queue (q\<lparr>history := (history q)(Sequence (w_index q pos) := h @ [(v, W)])\<rparr>) =
    set_sequence (sc_queue q) pos v"
proof -
  let ?i = "w_index q pos" and ?f = "\<lambda>i. \<lparr>sequence = newest q (Sequence i), slot_value = cells q i\<rparr>"
  have "(\<lambda>i. \<lparr>sequence = newest (q\<lparr>history := (history q)(Sequence ?i := h @ [(v, W)])\<rparr>) (Sequence i), slot_value = cells q i\<rparr>) =
      ?f(?i := (?f ?i)\<lparr>sequence := v\<rparr>)"
    by (auto simp: fun_eq_iff newest_def)
  then show ?thesis
    using assms by (simp add: set_sequence_def) (simp add: sc_queue_def newest_def map_upt_upd)
qed

lemma sc_queue_cell:
  assumes "w_index q pos < w_len q"
  shows "sc_queue (q\<lparr>cells := (cells q)(w_index q pos := v), writes := n, raced := r\<rparr>) =
    set_value (sc_queue q) pos v"
proof -
  let ?i = "w_index q pos" and ?f = "\<lambda>i. \<lparr>sequence = newest q (Sequence i), slot_value = cells q i\<rparr>"
  have "(\<lambda>i. \<lparr>sequence = newest q (Sequence i), slot_value = ((cells q)(?i := v)) i\<rparr>) =
      ?f(?i := (?f ?i)\<lparr>slot_value := v\<rparr>)"
    by (auto simp: fun_eq_iff)
  then show ?thesis
    using assms by (simp add: set_value_def) (simp add: sc_queue_def newest_def map_upt_upd)
qed

subsection \<open>The invariant\<close>

text \<open>
  The values of a location ascend, so a stale message carries a smaller value and a message
  with the newest value is the newest one.
\<close>

definition ascending :: "message list \<Rightarrow> bool" where
  "ascending h \<longleftrightarrow> h \<noteq> [] \<and> (\<forall>m \<in> set (butlast h). unat (fst m) < unat (fst (last h)))"

lemma ascending_single [simp]: "ascending [m]"
  by (simp add: ascending_def)

lemma ascending_append:
  assumes "ascending h" and "unat (fst (last h)) < unat v"
  shows "ascending (h @ [(v, W)])"
proof -
  have "h = butlast h @ [last h]" using assms(1) by (simp add: ascending_def)
  then have "set h = set (butlast h) \<union> {last h}" by (metis list.set(1,2) set_append)
  with assms show ?thesis by (auto simp: ascending_def)
qed

lemma ascending_nth:
  assumes "ascending h" and "n < length h"
  shows "unat (fst (h ! n)) \<le> unat (fst (last h))"
    and "unat (fst (last h)) \<le> unat (fst (h ! n)) \<Longrightarrow> h ! n = last h \<and> Suc n = length h"
proof -
  have ne: "h \<noteq> []" using assms(1) by (simp add: ascending_def)
  consider "Suc n = length h" | "n < length (butlast h)" using assms(2) by fastforce
  then have "unat (fst (h ! n)) < unat (fst (last h)) \<or> h ! n = last h \<and> Suc n = length h"
  proof cases
    case 1
    then have "n = length h - 1" by simp
    then show ?thesis using ne 1 by (simp add: last_conv_nth)
  next
    case 2
    then have "h ! n \<in> set (butlast h)" by (metis nth_butlast nth_mem)
    with assms(1) show ?thesis by (simp add: ascending_def)
  qed
  then show "unat (fst (h ! n)) \<le> unat (fst (last h))"
    and "unat (fst (last h)) \<le> unat (fst (h ! n)) \<Longrightarrow> h ! n = last h \<and> Suc n = length h"
    by auto
qed

text \<open>A view that has seen all writes of a slot's value and all stores of its sequence.\<close>

definition covers :: "'a WeakQueue \<Rightarrow> view \<Rightarrow> nat \<Rightarrow> bool" where
  "covers q V i \<longleftrightarrow> writes q i \<le> V (Value i) \<and> length (history q (Sequence i)) \<le> Suc (V (Sequence i))"

definition same_slot :: "'a WeakQueue \<Rightarrow> 'a WeakQueue \<Rightarrow> nat \<Rightarrow> bool" where
  "same_slot q q' i \<longleftrightarrow> writes q' i = writes q i \<and> history q' (Sequence i) = history q (Sequence i)"

lemma same_slot_refl [simp]: "same_slot q q i"
  by (simp add: same_slot_def)

lemma covers_same: "covers q V i \<Longrightarrow> same_slot q q' i \<Longrightarrow> covers q' V i"
  by (simp add: covers_def same_slot_def)

lemma covers_mono: "covers q V i \<Longrightarrow> V (Value i) \<le> W (Value i) \<Longrightarrow> V (Sequence i) \<le> W (Sequence i) \<Longrightarrow> covers q W i"
  by (auto simp: covers_def)

lemma covers_join: "covers q V i \<Longrightarrow> covers q (join V W) i" "covers q W i \<Longrightarrow> covers q (join V W) i"
  by (auto simp: covers_def join_def)

text \<open>
  The ticket whose slot a thread owns, and the ticket it owns or is about to compete for with
  a chance to win.
\<close>

definition owner_ticket :: "'a thread \<Rightarrow> nat option" where
  "owner_ticket th = (case prod_ticket th of Some p \<Rightarrow> Some p | None \<Rightarrow> cons_ticket th)"

fun claim_ticket :: "nat \<Rightarrow> nat \<Rightarrow> 'a thread \<Rightarrow> nat option" where
  "claim_ticket e d (Pushing x (PushCas y pos)) = (if unat pos = e then Some e else None)"
| "claim_ticket e d (Popping (PopCas pos)) = (if unat pos = d then Some d else None)"
| "claim_ticket e d th = owner_ticket th"

definition unowned :: "nat \<Rightarrow> (nat \<Rightarrow> 'a thread) \<Rightarrow> nat \<Rightarrow> bool" where
  "unowned c thr i \<longleftrightarrow> (\<forall>t p. owner_ticket (thr t) = Some p \<longrightarrow> p mod c \<noteq> i)"

definition claims_seen :: "nat \<Rightarrow> nat \<Rightarrow> nat \<Rightarrow> 'a WeakQueue \<Rightarrow> (nat \<Rightarrow> 'a thread) \<Rightarrow> (nat \<Rightarrow> view) \<Rightarrow> bool" where
  "claims_seen c e d q thr vs \<longleftrightarrow> (\<forall>t p. claim_ticket e d (thr t) = Some p \<longrightarrow> covers q (vs t) (p mod c))"

definition slots_released :: "nat \<Rightarrow> 'a WeakQueue \<Rightarrow> (nat \<Rightarrow> 'a thread) \<Rightarrow> bool" where
  "slots_released c q thr \<longleftrightarrow>
     (\<forall>i < c. unowned c thr i \<longrightarrow> covers q (snd (last (history q (Sequence i)))) i)"

definition histories_ascend :: "nat \<Rightarrow> 'a WeakQueue \<Rightarrow> bool" where
  "histories_ascend c q \<longleftrightarrow> ascending (history q EnqueuePos) \<and> ascending (history q DequeuePos) \<and>
     (\<forall>i < c. ascending (history q (Sequence i)))"

definition weak_inv :: "nat \<Rightarrow> 'a label list \<Rightarrow> 'a weak_conf \<Rightarrow> bool" where
  "weak_inv c ls s \<longleftrightarrow> hist_ok c ls (sc_conf s) \<and> w_len (queue s) = c \<and> histories_ascend c (queue s) \<and>
     claims_seen c (length (enq_log ls)) (length (deq_log ls)) (queue s) (w_threads s) (views s) \<and>
     slots_released c (queue s) (w_threads s) \<and> \<not> raced (queue s)"

lemma weak_invD:
  assumes "weak_inv c ls s"
  shows "hist_ok c ls (sc_conf s)" "w_len (queue s) = c" "histories_ascend c (queue s)"
    "claims_seen c (length (enq_log ls)) (length (deq_log ls)) (queue s) (w_threads s) (views s)"
    "slots_released c (queue s) (w_threads s)" "\<not> raced (queue s)"
    "q_inv c (map snd (enq_log ls)) (length (deq_log ls)) (sc_queue (queue s)) (w_threads s)"
  using assms hist_okD(2) [of c ls "sc_conf s"] by (auto simp: weak_inv_def)

lemma claims_seenD: "claims_seen c e d q thr vs \<Longrightarrow> claim_ticket e d (thr t) = Some p \<Longrightarrow> covers q (vs t) (p mod c)"
  by (simp add: claims_seen_def)

lemma claims_seen_upd:
  assumes "claims_seen c e d q thr vs"
    and "\<And>t' p. t' \<noteq> t \<Longrightarrow> claim_ticket e' d' (thr t') = Some p \<Longrightarrow>
      claim_ticket e d (thr t') = Some p \<and> same_slot q q' (p mod c)"
    and "\<And>p. claim_ticket e' d' th = Some p \<Longrightarrow> covers q' V (p mod c)"
  shows "claims_seen c e' d' q' (thr(t := th)) (vs(t := V))"
  unfolding claims_seen_def using assms covers_same by (fastforce simp: claims_seen_def)

lemma slots_released_upd:
  assumes "slots_released c q thr"
    and "\<And>i. i < c \<Longrightarrow> unowned c (thr(t := th)) i \<Longrightarrow>
      unowned c thr i \<and> same_slot q q' i \<or> covers q' (snd (last (history q' (Sequence i)))) i"
  shows "slots_released c q' (thr(t := th))"
  unfolding slots_released_def using assms covers_same
  by (fastforce simp: slots_released_def same_slot_def)

lemma unowned_same: "owner_ticket th = owner_ticket (thr t) \<Longrightarrow> unowned c (thr(t := th)) i = unowned c thr i"
  by (auto simp: unowned_def split: if_splits)

lemma unowned_back:
  assumes "unowned c (thr(t := th)) i" and "\<And>p. owner_ticket (thr t) = Some p \<Longrightarrow> p mod c \<noteq> i"
  shows "unowned c thr i"
  using assms unfolding unowned_def by (metis fun_upd_other)

text \<open>Nobody else can own or claim a slot that has an owner.\<close>

lemma owner_facts:
  assumes ok: "thread_ok c L d q th" and p: "owner_ticket th = Some p"
  shows "sq q (p mod c) = p \<and> p < length L \<and> prod_ticket th = Some p \<or>
    sq q (p mod c) = Suc p \<and> p < d \<and> cons_ticket th = Some p"
proof (cases "prod_ticket th")
  case None
  with p have "cons_ticket th = Some p" by (simp add: owner_ticket_def)
  with thread_ok_ticket(2) [OF ok] show ?thesis by blast
next
  case (Some p')
  with p have "prod_ticket th = Some p" by (simp add: owner_ticket_def)
  with thread_ok_ticket(1) [OF ok] show ?thesis by blast
qed

lemma owner_is_claim: "owner_ticket th = Some p \<Longrightarrow> claim_ticket e d th = Some p"
  by (cases "(e, d, th)" rule: claim_ticket.cases) (auto simp: owner_ticket_def)

lemma owner_ticketD: "owner_ticket th = Some p \<Longrightarrow> prod_ticket th = Some p \<or> cons_ticket th = Some p"
  by (auto simp: owner_ticket_def split: option.splits)

lemma claim_disj:
  "claim_ticket e d th = Some p \<Longrightarrow> owner_ticket th = Some p \<or>
     (\<exists>x y pos. th = Pushing x (PushCas y pos) \<and> unat pos = e \<and> p = e) \<or>
     (\<exists>pos. th = Popping (PopCas pos) \<and> unat pos = d \<and> p = d)"
  by (cases "(e, d, th)" rule: claim_ticket.cases) (simp_all split: if_splits)

lemma claim_cases:
  assumes "claim_ticket e d th = Some p"
  obtains (owned) "owner_ticket th = Some p"
    | (enq) x y pos where "th = Pushing x (PushCas y pos)" "unat pos = e" "p = e"
    | (deq) pos where "th = Popping (PopCas pos)" "unat pos = d" "p = d"
  using claim_disj [OF assms] by blast

lemma claim_disjoint:
  assumes inv: "q_inv c L d q thr" and neq: "t' \<noteq> t"
    and own: "owner_ticket (thr t) = Some p" and claim: "claim_ticket (length L) d (thr t') = Some p'"
  shows "p' mod c \<noteq> p mod c"
proof
  assume eq: "p' mod c = p mod c"
  note F = q_inv_facts [OF inv]
  note o = owner_facts [OF F(7) own]
  from claim show False
  proof (cases rule: claim_cases)
    case owned
    from owners_distinct [OF inv neq owner_ticketD [OF owned] owner_ticketD [OF own]] eq show False by simp
  next
    case (enq x y pos)
    then have "sq q (p' mod c) = length L" using F(7) [of t'] by auto
    with enq o eq F(6) have "Suc p = length L" by auto
    with enq eq show False using succ_mod_neq [OF F(2), of p] by simp
  next
    case (deq pos)
    then have "sq q (p' mod c) = Suc d" using F(7) [of t'] by auto
    with deq o eq have "p = Suc d" by auto
    with deq eq show False using succ_mod_neq [OF F(2), of d] by simp
  qed
qed

subsection \<open>Steps that only load\<close>

lemma weak_inv_silent:
  assumes inv: "weak_inv c ls s" and l: "silent_label l"
    and ok: "thread_ok c (map snd (enq_log ls)) (length (deq_log ls)) (sc_queue (queue s)) th"
    and same: "prod_ticket th = prod_ticket (w_threads s t)" "cons_ticket th = cons_ticket (w_threads s t)"
      "waiting_ticket th = waiting_ticket (w_threads s t)" "pending_return th = pending_return (w_threads s t)"
      "pending_accept th = pending_accept (w_threads s t)"
    and seen: "\<And>p. claim_ticket (length (enq_log ls)) (length (deq_log ls)) th = Some p \<Longrightarrow> covers (queue s) V (p mod c)"
    and s': "queue s' = queue s" "w_threads s' = (w_threads s)(t := th)" "views s' = (views s)(t := V)"
  shows "weak_inv c (ls @ [l]) s'"
proof -
  note W = weak_invD [OF inv]
  have "hist_ok c (ls @ [l]) (sc_conf s')"
    by (rule hist_ok_silent [OF W(1) l, of th t]) (use ok same s' in simp_all)
  moreover have "claims_seen c (length (enq_log ls)) (length (deq_log ls)) (queue s) (w_threads s') (views s')"
    unfolding s' by (rule claims_seen_upd [OF W(4)]) (use seen in simp_all)
  moreover have "slots_released c (queue s) (w_threads s')"
    unfolding s'
  proof (rule slots_released_upd [OF W(5)])
    have "owner_ticket th = owner_ticket (w_threads s t)" by (simp only: owner_ticket_def same)
    then show "unowned c (w_threads s) i \<and> same_slot (queue s) (queue s) i \<or>
        covers (queue s) (snd (last (history (queue s) (Sequence i)))) i"
      if "unowned c ((w_threads s)(t := th)) i" for i
      using that by (simp add: unowned_same)
  qed
  ultimately show ?thesis
    using W l s' by (simp add: weak_inv_def)
qed

lemma upd_same_view: "vs = vs(t := vs t)"
  by simp

text \<open>Stale loads of the counters are bounded by the newest value.\<close>

lemma weak_counters:
  assumes inv: "weak_inv c ls s"
  shows "n < length (history (queue s) EnqueuePos) \<Longrightarrow>
      unat (fst (history (queue s) EnqueuePos ! n)) \<le> length (enq_log ls)"
    and "n < length (history (queue s) DequeuePos) \<Longrightarrow>
      unat (fst (history (queue s) DequeuePos ! n)) \<le> length (deq_log ls)"
  using ascending_nth(1) [of "history (queue s) EnqueuePos" n] ascending_nth(1) [of "history (queue s) DequeuePos" n]
    weak_invD(3) [OF inv] q_inv_facts(4,5) [OF weak_invD(7) [OF inv]]
  by (simp_all add: histories_ascend_def newest_def)

lemma weak_index: "weak_inv c ls s \<Longrightarrow> w_index (queue s) pos = unat pos mod c \<and> unat pos mod c < c \<and> unat pos mod c < w_len (queue s)"
  using geom_index [OF q_inv_facts(1) [OF weak_invD(7)], of c ls s pos] q_inv_facts(3) [OF weak_invD(7), of c ls s]
    weak_invD(2) [of c ls s]
  by simp

text \<open>
  A load of a slot's sequence that finds the slot ready for the newest ticket has read the
  newest message, and acquiring it makes everything done to the slot visible.
\<close>

lemma weak_sequence_read:
  assumes inv: "weak_inv c ls s" and n: "n < length (history (queue s) (Sequence (p mod c)))"
    and read: "history (queue s) (Sequence (p mod c)) ! n = (v, W)"
    and ready: "p = length (enq_log ls) \<and> unat v = p \<or> p = length (deq_log ls) \<and> unat v = Suc p"
  shows "sq (sc_queue (queue s)) (p mod c) = unat v"
    and "covers (queue s) (join V W) (p mod c)"
proof -
  let ?h = "history (queue s) (Sequence (p mod c))" and ?i = "p mod c"
  note q = weak_invD(7) [OF inv]
  note F = q_inv_facts [OF q]
  have i: "?i < c" "?i < w_len (queue s)" using F(3) weak_invD(2) [OF inv] by simp_all
  have asc: "ascending ?h" using weak_invD(3) [OF inv] i by (simp add: histories_ascend_def)
  have sq: "sq (sc_queue (queue s)) ?i = unat (fst (last ?h))" using i by (simp add: sc_queue_slot newest_def)
  have "sq (sc_queue (queue s)) ?i \<le> unat v"
    using ready fresh_enqueue_slot [OF q] fresh_dequeue_slot [OF q] by auto
  then have last: "last ?h = (v, W)" using ascending_nth(2) [OF asc n] read sq by simp
  then show v: "sq (sc_queue (queue s)) ?i = unat v" using sq by simp
  have "unowned c (w_threads s) ?i"
    unfolding unowned_def
  proof (intro allI impI notI)
    fix t p'
    assume own: "owner_ticket (w_threads s t) = Some p'" and eq: "p' mod c = ?i"
    from owner_facts [OF F(7) own] v eq ready F(6)
    have "p = Suc p' \<or> p' = Suc p" by auto
    then show False using eq succ_mod_neq [OF F(2)] by metis
  qed
  then have "covers (queue s) W ?i"
    using weak_invD(5) [OF inv, unfolded slots_released_def, rule_format, OF i(1)] last by simp
  then show "covers (queue s) (join V W) ?i" by (rule covers_join)
qed

lemma weak_push_load:
  assumes inv: "weak_inv c ls s" and t: "w_threads s t = Pushing x pc" and pc: "pending_accept (Pushing x pc) = []"
    and own: "owner_ticket (Pushing x pc) = None"
    and n: "n < length (history (queue s) EnqueuePos)"
    and l: "l = PushAct t pc (PushSeq x (fst (history (queue s) EnqueuePos ! n)))"
    and s': "queue s' = queue s" "views s' = (views s)(t := V)"
      "w_threads s' = (w_threads s)(t := Pushing x (PushSeq x (fst (history (queue s) EnqueuePos ! n))))"
  shows "weak_inv c (ls @ [l]) s'"
proof (rule weak_inv_silent [OF inv _ _ _ _ _ _ _ _ s'(1,3,2)])
  show "silent_label l" using l by (cases pc) auto
qed (use weak_counters(1) [OF inv n] t pc own in \<open>auto simp: owner_ticket_def split: option.splits\<close>)

lemma weak_push_seq:
  assumes inv: "weak_inv c ls s" and t: "w_threads s t = Pushing x (PushSeq y pos)"
    and n: "n < length (history (queue s) (Sequence (w_index (queue s) pos)))"
    and st: "weak_push_step f n (queue s) (views s t) (PushSeq y pos) = (q', V', pc')"
    and l: "l = PushAct t (PushSeq y pos) pc'"
    and s': "queue s' = q'" "w_threads s' = (w_threads s)(t := Pushing x pc')" "views s' = (views s)(t := V')"
  shows "weak_inv c (ls @ [l]) s'"
proof -
  note q = weak_invD(7) [OF inv]
  have ok: "y = x" "unat pos \<le> length (enq_log ls)" using q_inv_facts(7) [OF q, of t] t by auto
  have i: "w_index (queue s) pos = unat pos mod c" "w_index (queue s) pos < w_len (queue s)"
    using weak_index [OF inv, of pos] by auto
  obtain v W where vW: "history (queue s) (Sequence (unat pos mod c)) ! n = (v, W)" by (cases "history (queue s) (Sequence (unat pos mod c)) ! n")
  have st': "q' = queue s" "V' = join ((views s t)(Sequence (unat pos mod c) := n)) W"
    and pc': "pc' = (if v = pos then PushCas y pos else if seq_diff v pos < 0 then PushDone (Inl y) else PushLoad y)"
    using st i vW by (auto simp: load_def Let_def seq_diff_0)
  have key: "sq (sc_queue (queue s)) (unat pos mod c) = unat pos \<and> covers (queue s) V' (unat pos mod c)"
    if "unat pos = length (enq_log ls)" "v = pos"
    unfolding st' using weak_sequence_read [OF inv n [unfolded i] vW] that by blast
  show ?thesis
  proof (rule weak_inv_silent [OF inv _ _ _ _ _ _ _ _ _ s'(2,3)])
    show "queue s' = queue s" using s' st' by simp
    show "covers (queue s) V' (p mod c)"
      if "claim_ticket (length (enq_log ls)) (length (deq_log ls)) (Pushing x pc') = Some p" for p
      using that key pc' by (auto simp: owner_ticket_def split: if_splits)
    show "thread_ok c (map snd (enq_log ls)) (length (deq_log ls)) (sc_queue (queue s)) (Pushing x pc')"
      using key pc' ok by auto
    show "silent_label l" using l pc' by auto
  qed (use t pc' in auto)
qed

lemma weak_pop_load:
  assumes inv: "weak_inv c ls s" and t: "w_threads s t = Popping pc" and pc: "pending_return (Popping pc) = []"
    and own: "owner_ticket (Popping pc) = None"
    and n: "n < length (history (queue s) DequeuePos)"
    and l: "l = PopAct t pc (PopSeq (fst (history (queue s) DequeuePos ! n)))"
    and s': "queue s' = queue s" "views s' = (views s)(t := V)"
      "w_threads s' = (w_threads s)(t := Popping (PopSeq (fst (history (queue s) DequeuePos ! n))))"
  shows "weak_inv c (ls @ [l]) s'"
proof (rule weak_inv_silent [OF inv _ _ _ _ _ _ _ _ s'(1,3,2)])
  show "silent_label l" using l by (cases pc) auto
  show "waiting_ticket (Popping (PopSeq (fst (history (queue s) DequeuePos ! n)))) = waiting_ticket (w_threads s t)"
    "pending_return (Popping (PopSeq (fst (history (queue s) DequeuePos ! n)))) = pending_return (w_threads s t)"
    using t own pc by (cases pc; simp add: owner_ticket_def)+
qed (use weak_counters(2) [OF inv n] t own in \<open>auto simp: owner_ticket_def split: option.splits\<close>)

lemma weak_pop_seq:
  assumes inv: "weak_inv c ls s" and t: "w_threads s t = Popping (PopSeq pos)" and b: "length ls < 2 ^ 62"
    and n: "n < length (history (queue s) (Sequence (w_index (queue s) pos)))"
    and st: "weak_pop_step f n (queue s) (views s t) (PopSeq pos) = (q', V', pc')"
    and l: "l = PopAct t (PopSeq pos) pc'"
    and s': "queue s' = q'" "w_threads s' = (w_threads s)(t := Popping pc')" "views s' = (views s)(t := V')"
  shows "weak_inv c (ls @ [l]) s'"
proof -
  note q = weak_invD(7) [OF inv]
  have ok: "unat pos \<le> length (deq_log ls)" using q_inv_facts(7) [OF q, of t] t by auto
  have i: "w_index (queue s) pos = unat pos mod c" "w_index (queue s) pos < w_len (queue s)"
    using weak_index [OF inv, of pos] by auto
  obtain v W where vW: "history (queue s) (Sequence (unat pos mod c)) ! n = (v, W)" by (cases "history (queue s) (Sequence (unat pos mod c)) ! n")
  have st': "q' = queue s" "V' = join ((views s t)(Sequence (unat pos mod c) := n)) W"
    and pc': "pc' = (if v = pos + 1 then PopCas pos else if seq_diff v (pos + 1) < 0 then PopDone None else PopLoad)"
    using st i vW by (auto simp: load_def Let_def seq_diff_0)
  have suc: "unat (pos + 1) = Suc (unat pos)"
    using unat_Suc_word [of pos] ok b log_lengths [of ls] by simp
  have key: "sq (sc_queue (queue s)) (unat pos mod c) = Suc (unat pos) \<and> covers (queue s) V' (unat pos mod c)"
    if "unat pos = length (deq_log ls)" "v = pos + 1"
    unfolding st' using weak_sequence_read [OF inv n [unfolded i] vW] that suc by auto
  show ?thesis
  proof (rule weak_inv_silent [OF inv _ _ _ _ _ _ _ _ _ s'(2,3)])
    show "queue s' = queue s" using s' st' by simp
    show "covers (queue s) V' (p mod c)"
      if "claim_ticket (length (enq_log ls)) (length (deq_log ls)) (Popping pc') = Some p" for p
      using that key pc' by (auto simp: owner_ticket_def split: if_splits)
    show "thread_ok c (map snd (enq_log ls)) (length (deq_log ls)) (sc_queue (queue s)) (Popping pc')"
      using key pc' ok by auto
    show "silent_label l" using l pc' by auto
  qed (use t pc' in auto)
qed

subsection \<open>Steps that write\<close>

lemma sc_push_act:
  assumes "w_threads s t = Pushing x pc" and "push_active pc"
    and "push_step f (sc_queue (queue s)) pc = (sc_queue q', pc')"
    and "queue s' = q'" and "w_threads s' = (w_threads s)(t := Pushing x pc')"
  shows "conf_step (sc_conf s) (PushAct t pc pc') (sc_conf s')"
  using push_act [of "sc_conf s" t x pc f "sc_queue q'" pc'] assms by (simp add: sc_conf_def)

lemma sc_pop_act:
  assumes "w_threads s t = Popping pc" and "pop_active pc"
    and "pop_step f (sc_queue (queue s)) pc = (sc_queue q', pc')"
    and "queue s' = q'" and "w_threads s' = (w_threads s)(t := Popping pc')"
  shows "conf_step (sc_conf s) (PopAct t pc pc') (sc_conf s')"
  using pop_act [of "sc_conf s" t pc f "sc_queue q'" pc'] assms by (simp add: sc_conf_def)

text \<open>A claim that outlives a won compare-exchange of another thread was one before.\<close>

lemma claim_after_win:
  assumes ok: "thread_ok c L d q th"
  shows "claim_ticket (Suc (length L)) d th = Some p \<Longrightarrow> claim_ticket (length L) d th = Some p"
    and "claim_ticket e (Suc d) th = Some p \<Longrightarrow> claim_ticket e d th = Some p"
  using ok by (cases "(c, L, d, q, th)" rule: thread_ok.cases; simp split: if_splits)+

lemma histories_ascend_append:
  assumes "histories_ascend c q" and "unat (newest q l) < unat v"
  shows "histories_ascend c (q\<lparr>history := (history q)(l := history q l @ [(v, W)])\<rparr>)"
proof (cases "l = EnqueuePos \<or> l = DequeuePos \<or> (\<exists>i < c. l = Sequence i)")
  case True
  then have "ascending (history q l)" using assms(1) by (auto simp: histories_ascend_def)
  then have "ascending (history q l @ [(v, W)])"
    by (rule ascending_append) (use assms(2) in \<open>simp add: newest_def\<close>)
  with assms(1) show ?thesis by (auto simp: histories_ascend_def)
qed (use assms(1) in \<open>auto simp: histories_ascend_def\<close>)

lemma weak_enq:
  assumes inv: "weak_inv c ls s" and t: "w_threads s t = Pushing x (PushCas y pos)" and b: "length ls < 2 ^ 62"
    and pos: "newest (queue s) EnqueuePos = pos"
    and l: "l = PushAct t (PushCas y pos) (PushWrite y pos)"
    and q': "q' = (queue s)\<lparr>history := (history (queue s))(EnqueuePos := history (queue s) EnqueuePos @ [(pos + 1, W)])\<rparr>"
    and s': "queue s' = q'" "w_threads s' = (w_threads s)(t := Pushing x (PushWrite y pos))"
      "views s' = (views s)(t := (views s t)(EnqueuePos := m))"
  shows "weak_inv c (ls @ [l]) s'"
proof -
  note I = weak_invD [OF inv]
  note F = q_inv_facts [OF I(7)]
  let ?e = "length (enq_log ls)" and ?d = "length (deq_log ls)"
  have e: "unat pos = ?e" using F(4) pos by simp
  have "conf_step (sc_conf s) l (sc_conf s')"
    unfolding l by (rule sc_push_act [of _ _ _ _ False, OF t _ _ s'(1,2)]) (use pos in \<open>simp_all add: q' sc_queue_append\<close>)
  then have "hist_ok c (ls @ [l]) (sc_conf s')" using hist_ok_step [OF I(1) _ b] by blast
  moreover have "histories_ascend c (queue s')"
    unfolding s' q' by (rule histories_ascend_append [OF I(3)])
      (use pos e b log_lengths [of ls] unat_Suc_word [of pos] in simp)
  moreover have "claims_seen c (Suc ?e) ?d (queue s') (w_threads s') (views s')"
    unfolding s'
  proof (rule claims_seen_upd [OF I(4)])
    show "claim_ticket ?e ?d (w_threads s t') = Some p \<and> same_slot (queue s) q' (p mod c)"
      if "claim_ticket (Suc ?e) ?d (w_threads s t') = Some p" for t' p
      using claim_after_win(1) [OF F(7) [of t']] that by (auto simp: q' same_slot_def)
    have "covers (queue s) (views s t) (unat pos mod c)"
      using claims_seenD [OF I(4), of t ?e] t e by simp
    then show "covers q' ((views s t)(EnqueuePos := m)) (p mod c)"
      if "claim_ticket (Suc ?e) ?d (Pushing x (PushWrite y pos)) = Some p" for p
      using that by (auto simp: q' owner_ticket_def covers_def)
  qed
  moreover have "slots_released c (queue s') (w_threads s')"
    unfolding s'
  proof (rule slots_released_upd [OF I(5)])
    have "owner_ticket (w_threads s t) = None" using t by (simp add: owner_ticket_def)
    then show "unowned c (w_threads s) i \<and> same_slot (queue s) q' i \<or> covers q' (snd (last (history q' (Sequence i)))) i"
      if "unowned c ((w_threads s)(t := Pushing x (PushWrite y pos))) i" for i
      using unowned_back [OF that] by (simp add: q' same_slot_def)
  qed
  ultimately show ?thesis
    using I l s' by (simp add: weak_inv_def q')
qed

lemma weak_deq:
  assumes inv: "weak_inv c ls s" and t: "w_threads s t = Popping (PopCas pos)" and b: "length ls < 2 ^ 62"
    and pos: "newest (queue s) DequeuePos = pos"
    and l: "l = PopAct t (PopCas pos) (PopTake pos)"
    and q': "q' = (queue s)\<lparr>history := (history (queue s))(DequeuePos := history (queue s) DequeuePos @ [(pos + 1, W)])\<rparr>"
    and s': "queue s' = q'" "w_threads s' = (w_threads s)(t := Popping (PopTake pos))"
      "views s' = (views s)(t := (views s t)(DequeuePos := m))"
  shows "weak_inv c (ls @ [l]) s'"
proof -
  note I = weak_invD [OF inv]
  note F = q_inv_facts [OF I(7)]
  let ?e = "length (enq_log ls)" and ?d = "length (deq_log ls)"
  have d: "unat pos = ?d" using F(5) pos by simp
  have "conf_step (sc_conf s) l (sc_conf s')"
    unfolding l by (rule sc_pop_act [of _ _ _ False, OF t _ _ s'(1,2)]) (use pos in \<open>simp_all add: q' sc_queue_append\<close>)
  then have "hist_ok c (ls @ [l]) (sc_conf s')" using hist_ok_step [OF I(1) _ b] by blast
  moreover have "histories_ascend c (queue s')"
    unfolding s' q' by (rule histories_ascend_append [OF I(3)])
      (use pos d b log_lengths [of ls] unat_Suc_word [of pos] in simp)
  moreover have "claims_seen c ?e (Suc ?d) (queue s') (w_threads s') (views s')"
    unfolding s'
  proof (rule claims_seen_upd [OF I(4)])
    show "claim_ticket ?e ?d (w_threads s t') = Some p \<and> same_slot (queue s) q' (p mod c)"
      if "claim_ticket ?e (Suc ?d) (w_threads s t') = Some p" for t' p
      using claim_after_win(2) [OF F(7) [of t']] that by (auto simp: q' same_slot_def)
    have "covers (queue s) (views s t) (unat pos mod c)"
      using claims_seenD [OF I(4), of t ?d] t d by simp
    then show "covers q' ((views s t)(DequeuePos := m)) (p mod c)"
      if "claim_ticket ?e (Suc ?d) (Popping (PopTake pos)) = Some p" for p
      using that by (auto simp: q' owner_ticket_def covers_def)
  qed
  moreover have "slots_released c (queue s') (w_threads s')"
    unfolding s'
  proof (rule slots_released_upd [OF I(5)])
    have "owner_ticket (w_threads s t) = None" using t by (simp add: owner_ticket_def)
    then show "unowned c (w_threads s) i \<and> same_slot (queue s) q' i \<or> covers q' (snd (last (history q' (Sequence i)))) i"
      if "unowned c ((w_threads s)(t := Popping (PopTake pos))) i" for i
      using unowned_back [OF that] by (simp add: q' same_slot_def)
  qed
  ultimately show ?thesis
    using I l s' by (simp add: weak_inv_def q')
qed

text \<open>
  The two accesses to a slot's value: whoever makes one owns the slot and has seen its newest
  write, so there is no race; the slot stays owned.
\<close>

lemma weak_write_cell:
  assumes inv: "weak_inv c ls s" and b: "length ls < 2 ^ 62"
    and own: "owner_ticket (w_threads s t) = Some (unat pos)" "owner_ticket th = Some (unat pos)"
    and claim: "\<And>e d. claim_ticket e d th = Some (unat pos)"
    and st: "write_cell (queue s) (views s t) (w_index (queue s) pos) v = (old, q', V')"
    and s': "queue s' = q'" "w_threads s' = (w_threads s)(t := th)" "views s' = (views s)(t := V')"
    and sc: "conf_step (sc_conf s) l (sc_conf s')" and l: "enq_event l = []" "deq_event l = []"
  shows "weak_inv c (ls @ [l]) s'"
proof -
  note I = weak_invD [OF inv]
  note F = q_inv_facts [OF I(7)]
  let ?e = "length (enq_log ls)" and ?d = "length (deq_log ls)" and ?i = "unat pos mod c"
  have i: "w_index (queue s) pos = ?i" using weak_index [OF inv, of pos] by simp
  have seen: "covers (queue s) (views s t) ?i"
    by (rule claims_seenD [OF I(4) owner_is_claim [OF own(1)]])
  have q': "q' = (queue s)\<lparr>cells := (cells (queue s))(?i := v), writes := (writes (queue s))(?i := Suc (writes (queue s) ?i)), raced := False\<rparr>"
    and V': "V' = (views s t)(Value ?i := Suc (writes (queue s) ?i))"
    using st seen I(6) by (auto simp: write_cell_def i covers_def)
  have other: "same_slot (queue s) q' j" if "j \<noteq> ?i" for j
    using that by (simp add: q' same_slot_def)
  have "claims_seen c ?e ?d q' (w_threads s') (views s')"
    unfolding s'
  proof (rule claims_seen_upd [OF I(4)])
    show "claim_ticket ?e ?d (w_threads s t') = Some p \<and> same_slot (queue s) q' (p mod c)"
      if "t' \<noteq> t" "claim_ticket ?e ?d (w_threads s t') = Some p" for t' p
      using that(2) claim_disjoint [OF I(7) that(1) own(1)] other by simp
    show "covers q' V' (p mod c)" if "claim_ticket ?e ?d th = Some p" for p
      using that claim seen by (auto simp: covers_def q' V')
  qed
  moreover have "slots_released c q' (w_threads s')"
    unfolding s'
  proof (rule slots_released_upd [OF I(5)])
    fix j
    assume un: "unowned c ((w_threads s)(t := th)) j"
    then have "?i \<noteq> j" using own(2) unfolding unowned_def by (metis fun_upd_same)
    with un own(1) show "unowned c (w_threads s) j \<and> same_slot (queue s) q' j \<or>
        covers q' (snd (last (history q' (Sequence j)))) j"
      using unowned_back [OF un] other by auto
  qed
  moreover have "histories_ascend c q'" using I(3) by (simp add: q' histories_ascend_def)
  ultimately show ?thesis
    using hist_ok_step [OF I(1) sc b] I l s' by (simp add: weak_inv_def) (simp add: q')
qed

text \<open>
  The two stores of a slot's sequence: the storing thread owns the slot and releases what it
  has seen and done, so the slot is handed over.
\<close>

lemma weak_store_sequence:
  assumes inv: "weak_inv c ls s" and b: "length ls < 2 ^ 62"
    and own: "owner_ticket (w_threads s t) = Some (unat pos)" and free: "owner_ticket th = None"
    and claim: "\<And>e d. claim_ticket e d th = None"
    and st: "store Release (queue s) (views s t) (Sequence (w_index (queue s) pos)) v = (q', V')"
    and up: "sq (sc_queue (queue s)) (unat pos mod c) < unat v"
    and s': "queue s' = q'" "w_threads s' = (w_threads s)(t := th)" "views s' = (views s)(t := V')"
    and sc: "conf_step (sc_conf s) l (sc_conf s')" and l: "enq_event l = []" "deq_event l = []"
  shows "weak_inv c (ls @ [l]) s'"
proof -
  note I = weak_invD [OF inv]
  note F = q_inv_facts [OF I(7)]
  let ?e = "length (enq_log ls)" and ?d = "length (deq_log ls)" and ?i = "unat pos mod c"
  have i: "w_index (queue s) pos = ?i" "?i < w_len (queue s)" using weak_index [OF inv, of pos] by simp_all
  let ?h = "history (queue s) (Sequence ?i)"
  have seen: "covers (queue s) (views s t) ?i"
    by (rule claims_seenD [OF I(4) owner_is_claim [OF own]])
  have V': "V' = (views s t)(Sequence ?i := length ?h)"
    and q': "q' = (queue s)\<lparr>history := (history (queue s))(Sequence ?i := ?h @ [(v, V')])\<rparr>"
    using st by (auto simp: store_def i Let_def)
  have other: "same_slot (queue s) q' j" if "j \<noteq> ?i" for j
    using that by (simp add: q' same_slot_def)
  have "claims_seen c ?e ?d q' (w_threads s') (views s')"
    unfolding s'
  proof (rule claims_seen_upd [OF I(4)])
    show "claim_ticket ?e ?d (w_threads s t') = Some p \<and> same_slot (queue s) q' (p mod c)"
      if "t' \<noteq> t" "claim_ticket ?e ?d (w_threads s t') = Some p" for t' p
      using that(2) claim_disjoint [OF I(7) that(1) own] other by simp
  qed (simp add: claim)
  moreover have "slots_released c q' (w_threads s')"
    unfolding s'
  proof (rule slots_released_upd [OF I(5)])
    fix j
    assume un: "unowned c ((w_threads s)(t := th)) j"
    have "covers q' V' ?i" using seen by (simp add: covers_def q' V')
    then have "covers q' (snd (last (history q' (Sequence ?i)))) ?i" by (simp add: q')
    then show "unowned c (w_threads s) j \<and> same_slot (queue s) q' j \<or>
        covers q' (snd (last (history q' (Sequence j)))) j"
      using unowned_back [OF un] own other [of j] by (cases "j = ?i") auto
  qed
  moreover have "histories_ascend c q'"
    unfolding q' by (rule histories_ascend_append [OF I(3)])
      (use up i in \<open>simp add: sc_queue_slot\<close>)
  ultimately show ?thesis
    using hist_ok_step [OF I(1) sc b] I l s' by (simp add: weak_inv_def) (simp add: q')
qed

subsection \<open>Every step\<close>

lemma weak_push_cas:
  assumes inv: "weak_inv c ls s" and b: "length ls < 2 ^ 62"
    and pc: "pc = PushCas y pos"
    and t: "w_threads s t = Pushing x pc" and act: "push_active pc"
    and rd: "readable (queue s) (views s t) (push_reads (queue s) pc) n"
    and st: "weak_push_step f n (queue s) (views s t) pc = (q', V', pc')"
    and s': "queue s' = q'" "w_threads s' = (w_threads s)(t := Pushing x pc')" "views s' = (views s)(t := V')"
  shows "weak_inv c (ls @ [PushAct t pc pc']) s'"
proof -
  note I = weak_invD [OF inv]
  have ok: "thread_ok c (map snd (enq_log ls)) (length (deq_log ls)) (sc_queue (queue s)) (Pushing x pc)"
    using q_inv_facts(7) [OF I(7), of t] t by simp
  obtain v W where vW: "last (history (queue s) EnqueuePos) = (v, W)" by fastforce
  show ?thesis
  proof (cases "v = pos \<and> \<not> f")
    case True
    with st vW pc
    have "pc' = PushWrite y pos" "V' = (views s t)(EnqueuePos := length (history (queue s) EnqueuePos))"
      "q' = (queue s)\<lparr>history := (history (queue s))(EnqueuePos := history (queue s) EnqueuePos
          @ [(pos + 1, W(EnqueuePos := length (history (queue s) EnqueuePos)))])\<rparr>"
      by (auto simp: compare_exchange_weak_def Let_def)
    with True vW pc t s' show ?thesis by (intro weak_enq [OF inv _ b]) (simp_all add: newest_def)
  next
    case False
    with st vW pc
    have "q' = queue s" "pc' = PushSeq y (fst (history (queue s) EnqueuePos ! n))"
      by (auto simp: compare_exchange_weak_def load_def split: prod.splits if_splits)
    with pc ok rd t s' show ?thesis
      by (intro weak_push_load [OF inv, of t x pc n _ s' V']) (simp_all add: readable_def owner_ticket_def)
  qed
qed

lemma weak_push_write:
  assumes inv: "weak_inv c ls s" and b: "length ls < 2 ^ 62"
    and pc: "pc = PushWrite y pos"
    and t: "w_threads s t = Pushing x pc" and act: "push_active pc"
    and rd: "readable (queue s) (views s t) (push_reads (queue s) pc) n"
    and st: "weak_push_step f n (queue s) (views s t) pc = (q', V', pc')"
    and s': "queue s' = q'" "w_threads s' = (w_threads s)(t := Pushing x pc')" "views s' = (views s)(t := V')"
  shows "weak_inv c (ls @ [PushAct t pc pc']) s'"
proof -
  note I = weak_invD [OF inv]
  have ok: "thread_ok c (map snd (enq_log ls)) (length (deq_log ls)) (sc_queue (queue s)) (Pushing x pc)"
    using q_inv_facts(7) [OF I(7), of t] t by simp
  have i: "w_index (queue s) pos < w_len (queue s)" using weak_index [OF inv] by simp
  obtain old where w: "write_cell (queue s) (views s t) (w_index (queue s) pos) (Some y) = (old, q', V')"
    and pc': "pc' = PushStore pos" using st pc by (auto split: prod.splits)
  have sc: "conf_step (sc_conf s) (PushAct t pc pc') (sc_conf s')"
    by (rule sc_push_act [of _ _ _ _ False, OF t act _ s'(1,2)])
      (use w i in \<open>auto simp: pc pc' write_cell_def sc_queue_cell\<close>)
  show ?thesis
    by (rule weak_write_cell [OF inv b _ _ _ w s' sc])
      (use t in \<open>simp_all add: pc pc' owner_ticket_def\<close>)
qed

lemma weak_push_store:
  assumes inv: "weak_inv c ls s" and b: "length ls < 2 ^ 62"
    and pc: "pc = PushStore pos"
    and t: "w_threads s t = Pushing x pc" and act: "push_active pc"
    and rd: "readable (queue s) (views s t) (push_reads (queue s) pc) n"
    and st: "weak_push_step f n (queue s) (views s t) pc = (q', V', pc')"
    and s': "queue s' = q'" "w_threads s' = (w_threads s)(t := Pushing x pc')" "views s' = (views s)(t := V')"
  shows "weak_inv c (ls @ [PushAct t pc pc']) s'"
proof -
  note I = weak_invD [OF inv]
  have ok: "thread_ok c (map snd (enq_log ls)) (length (deq_log ls)) (sc_queue (queue s)) (Pushing x pc)"
    using q_inv_facts(7) [OF I(7), of t] t by simp
  have i: "w_index (queue s) pos < w_len (queue s)" using weak_index [OF inv] by simp
  have w: "store Release (queue s) (views s t) (Sequence (w_index (queue s) pos)) (pos + 1) = (q', V')"
    and pc': "pc' = PushDone (Inr ())" using st pc by (auto split: prod.splits)
  have "conf_step (sc_conf s) (PushAct t pc pc') (sc_conf s')"
    by (rule sc_push_act [of _ _ _ _ False, OF t act _ s'(1,2)])
      (use w i in \<open>auto simp: pc pc' store_def Let_def sc_queue_sequence\<close>)
  moreover have "unat (pos + 1) = Suc (unat pos)"
    using unat_Suc_word [of pos] ok pc b log_lengths [of ls] by simp
  ultimately show ?thesis
    by (intro weak_store_sequence [OF inv b _ _ _ w _ s'])
      (use t ok in \<open>simp_all add: pc pc' owner_ticket_def\<close>)
qed

lemma weak_inv_push_act:
  assumes inv: "weak_inv c ls s" and b: "length ls < 2 ^ 62"
    and t: "w_threads s t = Pushing x pc" and act: "push_active pc"
    and rd: "readable (queue s) (views s t) (push_reads (queue s) pc) n"
    and st: "weak_push_step f n (queue s) (views s t) pc = (q', V', pc')"
    and s': "queue s' = q'" "w_threads s' = (w_threads s)(t := Pushing x pc')" "views s' = (views s)(t := V')"
  shows "weak_inv c (ls @ [PushAct t pc pc']) s'"
proof -
  note I = weak_invD [OF inv]
  have ok: "thread_ok c (map snd (enq_log ls)) (length (deq_log ls)) (sc_queue (queue s)) (Pushing x pc)"
    using q_inv_facts(7) [OF I(7), of t] t by simp
  show ?thesis
  proof (cases pc)
    case (PushLoad y)
    with st s' show ?thesis
      using ok t rd by (intro weak_push_load [OF inv, of t x pc n _ s' V'])
        (auto simp: readable_def load_def owner_ticket_def split: prod.splits)
  next
    case (PushSeq y pos)
    with rd have "n < length (history (queue s) (Sequence (w_index (queue s) pos)))" by (simp add: readable_def)
    with PushSeq show ?thesis using weak_push_seq [OF inv _ _ _ _ s'] t st by blast
  next
    case (PushCas y pos)
    then show ?thesis by (rule weak_push_cas [OF inv b _ t act rd st s'])
  next
    case (PushWrite y pos)
    then show ?thesis by (rule weak_push_write [OF inv b _ t act rd st s'])
  next
    case (PushStore pos)
    then show ?thesis by (rule weak_push_store [OF inv b _ t act rd st s'])
  qed (use act in auto)
qed

lemma weak_pop_cas:
  assumes inv: "weak_inv c ls s" and b: "length ls < 2 ^ 62"
    and pc: "pc = PopCas pos"
    and t: "w_threads s t = Popping pc" and act: "pop_active pc"
    and rd: "readable (queue s) (views s t) (pop_reads (queue s) pc) n"
    and st: "weak_pop_step f n (queue s) (views s t) pc = (q', V', pc')"
    and s': "queue s' = q'" "w_threads s' = (w_threads s)(t := Popping pc')" "views s' = (views s)(t := V')"
  shows "weak_inv c (ls @ [PopAct t pc pc']) s'"
proof -
  note I = weak_invD [OF inv]
  have ok: "thread_ok c (map snd (enq_log ls)) (length (deq_log ls)) (sc_queue (queue s)) (Popping pc)"
    using q_inv_facts(7) [OF I(7), of t] t by simp
  obtain v W where vW: "last (history (queue s) DequeuePos) = (v, W)" by fastforce
  show ?thesis
  proof (cases "v = pos \<and> \<not> f")
    case True
    with st vW pc
    have "pc' = PopTake pos" "V' = (views s t)(DequeuePos := length (history (queue s) DequeuePos))"
      "q' = (queue s)\<lparr>history := (history (queue s))(DequeuePos := history (queue s) DequeuePos
          @ [(pos + 1, W(DequeuePos := length (history (queue s) DequeuePos)))])\<rparr>"
      by (auto simp: compare_exchange_weak_def Let_def)
    with True vW pc t s' show ?thesis by (intro weak_deq [OF inv _ b]) (simp_all add: newest_def)
  next
    case False
    with st vW pc
    have "q' = queue s" "pc' = PopSeq (fst (history (queue s) DequeuePos ! n))"
      by (auto simp: compare_exchange_weak_def load_def split: prod.splits if_splits)
    with pc rd t s' show ?thesis
      by (intro weak_pop_load [OF inv, of t pc n _ s' V']) (simp_all add: readable_def owner_ticket_def)
  qed
qed

lemma weak_pop_take:
  assumes inv: "weak_inv c ls s" and b: "length ls < 2 ^ 62"
    and pc: "pc = PopTake pos"
    and t: "w_threads s t = Popping pc" and act: "pop_active pc"
    and rd: "readable (queue s) (views s t) (pop_reads (queue s) pc) n"
    and st: "weak_pop_step f n (queue s) (views s t) pc = (q', V', pc')"
    and s': "queue s' = q'" "w_threads s' = (w_threads s)(t := Popping pc')" "views s' = (views s)(t := V')"
  shows "weak_inv c (ls @ [PopAct t pc pc']) s'"
proof -
  note I = weak_invD [OF inv]
  have ok: "thread_ok c (map snd (enq_log ls)) (length (deq_log ls)) (sc_queue (queue s)) (Popping pc)"
    using q_inv_facts(7) [OF I(7), of t] t by simp
  have i: "w_index (queue s) pos < w_len (queue s)" using weak_index [OF inv] by simp
  obtain old where w: "write_cell (queue s) (views s t) (w_index (queue s) pos) None = (old, q', V')"
    and pc': "pc' = PopStore pos old" using st pc by (auto split: prod.splits)
  have "slot_value (buffer (sc_queue (queue s)) ! w_index (queue s) pos) = cells (queue s) (w_index (queue s) pos)"
    using i by (simp add: sc_queue_def)
  with w have sc: "conf_step (sc_conf s) (PopAct t pc pc') (sc_conf s')"
    by (intro sc_pop_act [of _ _ _ False, OF t act _ s'(1,2)])
      (use i in \<open>auto simp: pc pc' write_cell_def sc_queue_cell\<close>)
  show ?thesis
    by (rule weak_write_cell [OF inv b _ _ _ w s' sc])
      (use t in \<open>simp_all add: pc pc' owner_ticket_def\<close>)
qed

lemma weak_pop_store:
  assumes inv: "weak_inv c ls s" and b: "length ls < 2 ^ 62"
    and pc: "pc = PopStore pos v"
    and t: "w_threads s t = Popping pc" and act: "pop_active pc"
    and rd: "readable (queue s) (views s t) (pop_reads (queue s) pc) n"
    and st: "weak_pop_step f n (queue s) (views s t) pc = (q', V', pc')"
    and s': "queue s' = q'" "w_threads s' = (w_threads s)(t := Popping pc')" "views s' = (views s)(t := V')"
  shows "weak_inv c (ls @ [PopAct t pc pc']) s'"
proof -
  note I = weak_invD [OF inv]
  have ok: "thread_ok c (map snd (enq_log ls)) (length (deq_log ls)) (sc_queue (queue s)) (Popping pc)"
    using q_inv_facts(7) [OF I(7), of t] t by simp
  have i: "w_index (queue s) pos < w_len (queue s)" using weak_index [OF inv] by simp
  have w: "store Release (queue s) (views s t) (Sequence (w_index (queue s) pos)) (pos + w_mask (queue s) + 1) = (q', V')"
    and pc': "pc' = PopDone v" using st pc by (auto split: prod.splits)
  have "conf_step (sc_conf s) (PopAct t pc pc') (sc_conf s')"
    by (rule sc_pop_act [of _ _ _ False, OF t act _ s'(1,2)])
      (use w i in \<open>auto simp: pc pc' store_def Let_def sc_queue_sequence\<close>)
  moreover have "unat (pos + w_mask (queue s) + 1) = unat pos + c"
    using unat_pos_plus_cap [OF q_inv_facts(1) [OF I(7)], of pos] ok pc b log_lengths [of ls] by simp
  moreover have "2 \<le> c" by (rule q_inv_facts(2) [OF I(7)])
  ultimately show ?thesis
    by (intro weak_store_sequence [OF inv b _ _ _ w _ s'])
      (use t ok in \<open>simp_all add: pc pc' owner_ticket_def\<close>)
qed

lemma weak_inv_pop_act:
  assumes inv: "weak_inv c ls s" and b: "length ls < 2 ^ 62"
    and t: "w_threads s t = Popping pc" and act: "pop_active pc"
    and rd: "readable (queue s) (views s t) (pop_reads (queue s) pc) n"
    and st: "weak_pop_step f n (queue s) (views s t) pc = (q', V', pc')"
    and s': "queue s' = q'" "w_threads s' = (w_threads s)(t := Popping pc')" "views s' = (views s)(t := V')"
  shows "weak_inv c (ls @ [PopAct t pc pc']) s'"
proof -
  note I = weak_invD [OF inv]
  have ok: "thread_ok c (map snd (enq_log ls)) (length (deq_log ls)) (sc_queue (queue s)) (Popping pc)"
    using q_inv_facts(7) [OF I(7), of t] t by simp
  show ?thesis
  proof (cases pc)
    case PopLoad
    with st s' show ?thesis
      using t rd by (intro weak_pop_load [OF inv, of t pc n _ s' V'])
        (auto simp: readable_def load_def owner_ticket_def split: prod.splits)
  next
    case (PopSeq pos)
    with rd have "n < length (history (queue s) (Sequence (w_index (queue s) pos)))" by (simp add: readable_def)
    with PopSeq show ?thesis using weak_pop_seq [OF inv _ b _ _ _ s'] t st by blast
  next
    case (PopCas pos)
    then show ?thesis by (rule weak_pop_cas [OF inv b _ t act rd st s'])
  next
    case (PopTake pos)
    then show ?thesis by (rule weak_pop_take [OF inv b _ t act rd st s'])
  next
    case (PopStore pos v)
    then show ?thesis by (rule weak_pop_store [OF inv b _ t act rd st s'])
  qed (use act in auto)
qed

lemma weak_inv_return:
  assumes inv: "weak_inv c ls s" and b: "length ls < 2 ^ 62"
    and sc: "conf_step (sc_conf s) l (sc_conf s')" and l: "enq_event l = []" "deq_event l = []"
    and own: "owner_ticket (w_threads s t) = None"
    and s': "queue s' = queue s" "w_threads s' = (w_threads s)(t := Idle)" "views s' = views s"
  shows "weak_inv c (ls @ [l]) s'"
proof -
  note I = weak_invD [OF inv]
  have "claims_seen c (length (enq_log ls)) (length (deq_log ls)) (queue s) ((w_threads s)(t := Idle)) ((views s)(t := views s t))"
    by (rule claims_seen_upd [OF I(4)]) (simp_all add: owner_ticket_def)
  moreover have "slots_released c (queue s) ((w_threads s)(t := Idle))"
    by (rule slots_released_upd [OF I(5)]) (use own unowned_back in fastforce)
  ultimately show ?thesis
    using hist_ok_step [OF I(1) sc b] I l s' by (simp add: weak_inv_def)
qed

lemma weak_inv_step:
  assumes inv: "weak_inv c ls s" and st: "weak_step s l s'" and b: "length ls < 2 ^ 62"
  shows "weak_inv c (ls @ [l]) s'"
  using st
proof cases
  case (weak_push_act t x pc n f q' V' pc')
  with weak_inv_push_act [OF inv b weak_push_act(3-6), of s'] show ?thesis by simp
next
  case (weak_pop_act t pc n f q' V' pc')
  with weak_inv_pop_act [OF inv b weak_pop_act(3-6), of s'] show ?thesis by simp
next
  case (weak_call_push t x)
  then have "weak_inv c (ls @ [CallPush t x]) s'"
    by (intro weak_inv_silent [OF inv, of _ "Pushing x (PushLoad x)" t "views s t"]) (simp_all add: owner_ticket_def)
  with weak_call_push show ?thesis by simp
next
  case (weak_call_pop t)
  then have "weak_inv c (ls @ [CallPop t]) s'"
    by (intro weak_inv_silent [OF inv, of _ "Popping PopLoad" t "views s t"]) (simp_all add: owner_ticket_def)
  with weak_call_pop show ?thesis by simp
next
  case (weak_ret_push t x r)
  then have "conf_step (sc_conf s) (RetPush t x r) (sc_conf s')"
    using ret_push [of "sc_conf s" t x r] by (simp add: sc_conf_def)
  with weak_ret_push have "weak_inv c (ls @ [RetPush t x r]) s'"
    by (intro weak_inv_return [OF inv b, of _ s' t]) (simp_all add: owner_ticket_def)
  with weak_ret_push show ?thesis by simp
next
  case (weak_ret_pop t r)
  then have "conf_step (sc_conf s) (RetPop t r) (sc_conf s')"
    using ret_pop [of "sc_conf s" t r] by (simp add: sc_conf_def)
  with weak_ret_pop have "weak_inv c (ls @ [RetPop t r]) s'"
    by (intro weak_inv_return [OF inv b, of _ s' t]) (simp_all add: owner_ticket_def)
  with weak_ret_pop show ?thesis by simp
qed

lemma sc_queue_new:
  assumes "weak_new cap = Some q"
  shows "queue_new cap = Some (sc_queue q)"
proof -
  have *: "(\<lambda>i. \<lparr>sequence = newest q (Sequence i), slot_value = cells q i\<rparr>) =
      (\<lambda>i. \<lparr>sequence = of_nat i, slot_value = None\<rparr>)"
    using assms by (auto simp: weak_new_def newest_def split: if_splits)
  show ?thesis
    unfolding sc_queue_def * using assms by (auto simp: weak_new_def queue_new_def newest_def split: if_splits)
qed

lemma weak_inv_start:
  assumes q: "weak_new cap = Some q" and cap: "2 \<le> unat cap" "unat cap \<le> 2 ^ 62"
  shows "weak_inv (unat cap) [] \<lparr>queue = q, w_threads = (\<lambda>_. Idle), views = (\<lambda>_ _. 0)\<rparr>"
proof -
  have "hist_ok (unat cap) [] \<lparr>shared = sc_queue q, threads = (\<lambda>_. Idle)\<rparr>"
    by (rule hist_ok_start [OF sc_queue_new [OF q] cap])
  then show ?thesis
    using q by (auto simp: weak_inv_def sc_conf_def histories_ascend_def claims_seen_def slots_released_def covers_def
        owner_ticket_def weak_new_def split: if_splits)
qed

lemma weak_inv_sync:
  assumes "weak_inv c ls s"
  shows "weak_inv c ls (s\<lparr>views := (views s)(t := join (views s t) V)\<rparr>)"
proof -
  note I = weak_invD [OF assms]
  have "claims_seen c (length (enq_log ls)) (length (deq_log ls)) (queue s) (w_threads s)
      ((views s)(t := join (views s t) V))"
    using I(4) by (auto simp: claims_seen_def intro: covers_join)
  with I show ?thesis by (simp add: weak_inv_def sc_conf_def)
qed

lemma weak_exec_inv:
  assumes "weak_exec cap ls s" and "2 \<le> unat cap" and "unat cap \<le> 2 ^ 62" and "length ls \<le> 2 ^ 62"
  shows "weak_inv (unat cap) ls s"
  using assms
  by (induction rule: weak_exec.induct) (auto intro: weak_inv_start weak_inv_step weak_inv_sync)

subsection \<open>Interleavings as executions that never read stale messages\<close>

fun is_atomic :: "location \<Rightarrow> bool" where
  "is_atomic (Value i) = False"
| "is_atomic l = True"

definition in_bounds :: "'a WeakQueue \<Rightarrow> view \<Rightarrow> bool" where
  "in_bounds q V \<longleftrightarrow> (\<forall>l. is_atomic l \<longrightarrow> V l < length (history q l))"

definition messages_in_bounds :: "'a WeakQueue \<Rightarrow> bool" where
  "messages_in_bounds q \<longleftrightarrow> (\<forall>l. is_atomic l \<longrightarrow> history q l \<noteq> [] \<and> (\<forall>m \<in> set (history q l). in_bounds q (snd m)))"

lemma in_bounds_join: "in_bounds q V \<Longrightarrow> in_bounds q W \<Longrightarrow> in_bounds q (join V W)"
  by (auto simp: in_bounds_def join_def)

lemma in_bounds_upd: "in_bounds q V \<Longrightarrow> is_atomic l \<Longrightarrow> n < length (history q l) \<Longrightarrow> in_bounds q (V(l := n))"
  by (simp add: in_bounds_def)

lemma load_newest:
  assumes "messages_in_bounds q" and "in_bounds q V" and "is_atomic l"
  obtains V' where "load ord q V l (length (history q l) - 1) = (newest q l, V')" and "in_bounds q V'"
    and "readable q V (Some l) (length (history q l) - 1)"
proof -
  let ?n = "length (history q l) - 1"
  obtain v W where vW: "last (history q l) = (v, W)" by fastforce
  have ne: "history q l \<noteq> []" using assms(1,3) by (simp add: messages_in_bounds_def)
  then have n: "?n < length (history q l)" and nth: "history q l ! ?n = (v, W)"
    using vW by (simp_all add: last_conv_nth)
  have "in_bounds q W"
    using assms(1,3) ne vW last_in_set [OF ne] by (force simp: messages_in_bounds_def)
  then have "in_bounds q (if ord = Acquire then join (V(l := ?n)) W else V(l := ?n))"
    using in_bounds_join [OF in_bounds_upd [OF assms(2,3) n]] in_bounds_upd [OF assms(2,3) n] by simp
  moreover have "load ord q V l ?n = (newest q l, if ord = Acquire then join (V(l := ?n)) W else V(l := ?n))"
    using nth vW by (simp add: load_def newest_def)
  moreover have "readable q V (Some l) ?n"
    using assms(2,3) n by (auto simp: readable_def in_bounds_def)
  ultimately show thesis using that by blast
qed

lemma in_bounds_append:
  assumes "in_bounds q V"
  shows "in_bounds (q\<lparr>history := (history q)(l := history q l @ [m])\<rparr>) V"
    and "in_bounds (q\<lparr>history := (history q)(l := history q l @ [m])\<rparr>) (V(l := length (history q l)))"
  using assms by (auto simp: in_bounds_def less_Suc_eq)

lemma messages_in_bounds_append:
  assumes "messages_in_bounds q" and "in_bounds q V"
  shows "messages_in_bounds (q\<lparr>history := (history q)(l := history q l @ [(v, V(l := length (history q l)))])\<rparr>)"
  using assms in_bounds_append by (fastforce simp: messages_in_bounds_def)

lemma bounds_cell [simp]:
  "in_bounds (q\<lparr>cells := f, writes := g, raced := r\<rparr>) V = in_bounds q V"
  "messages_in_bounds (q\<lparr>cells := f, writes := g, raced := r\<rparr>) = messages_in_bounds q"
  by (simp_all add: in_bounds_def messages_in_bounds_def)

lemma in_bounds_value [simp]: "in_bounds q (V(Value i := n)) = in_bounds q V"
  unfolding in_bounds_def by (metis fun_upd_apply is_atomic.simps(1))

text \<open>Every atomic step on the newest messages is a step of the machine, and stays within bounds.\<close>

definition bounded_step :: "'a WeakQueue \<Rightarrow> view \<Rightarrow> bool" where
  "bounded_step q V \<longleftrightarrow> messages_in_bounds q \<and> in_bounds q V"

lemma newest_cas:
  assumes b: "bounded_step q V" and l: "is_atomic l"
  shows "\<exists>n q' V' r. readable q V (Some l) n \<and>
     compare_exchange_weak Relaxed Relaxed q V l old new f n = (q', V', r) \<and> bounded_step q' V' \<and>
     (if newest q l = old \<and> \<not> f
      then r = Inr () \<and> (\<exists>W. q' = q\<lparr>history := (history q)(l := history q l @ [(new, W)])\<rparr>)
      else r = Inl (newest q l) \<and> q' = q)"
proof -
  have b': "messages_in_bounds q" "in_bounds q V" using b by (simp_all add: bounded_step_def)
  obtain V' where ld: "load Relaxed q V l (length (history q l) - 1) = (newest q l, V')" "in_bounds q V'"
    and rd: "readable q V (Some l) (length (history q l) - 1)"
    using load_newest [OF b' l] by blast
  obtain v W where vW: "last (history q l) = (v, W)" by fastforce
  then have v: "newest q l = v" by (simp add: newest_def)
  have "history q l \<noteq> []" using b'(1) l by (simp add: messages_in_bounds_def)
  then have W: "in_bounds q W" using b'(1) l vW last_in_set by (force simp: messages_in_bounds_def)
  show ?thesis
  proof (cases "v = old \<and> \<not> f")
    case True
    with vW v rd W b' show ?thesis
      by (intro exI [of _ "length (history q l) - 1"])
        (auto simp: compare_exchange_weak_def Let_def bounded_step_def messages_in_bounds_append intro: in_bounds_append)
  next
    case False
    with vW v rd ld b' show ?thesis
      by (intro exI [of _ "length (history q l) - 1"]) (auto simp: compare_exchange_weak_def bounded_step_def)
  qed
qed

lemma newest_push_step:
  assumes b: "bounded_step q V" and i: "\<And>pos. w_index q pos < w_len q"
    and st: "push_step f (sc_queue q) pc = (q1, pc')"
  shows "\<exists>n q' V'. readable q V (push_reads q pc) n \<and> weak_push_step f n q V pc = (q', V', pc') \<and>
     sc_queue q' = q1 \<and> bounded_step q' V'"
proof (cases pc)
  case (PushLoad y)
  with b st show ?thesis
    using load_newest [of q V EnqueuePos Relaxed] by (fastforce simp: bounded_step_def)
next
  case (PushSeq y pos)
  have "slot_at (sc_queue q) pos = Some \<lparr>sequence = newest q (Sequence (w_index q pos)), slot_value = cells q (w_index q pos)\<rparr>"
    using i by (simp add: slot_at_def) (simp add: sc_queue_def)
  moreover obtain V' where "load Acquire q V (Sequence (w_index q pos)) (length (history q (Sequence (w_index q pos))) - 1)
      = (newest q (Sequence (w_index q pos)), V')" "in_bounds q V'"
    "readable q V (Some (Sequence (w_index q pos))) (length (history q (Sequence (w_index q pos))) - 1)"
    using load_newest [of q V "Sequence (w_index q pos)" Acquire] b by (auto simp: bounded_step_def)
  ultimately show ?thesis
    using st b i PushSeq
    by (intro exI [of _ "length (history q (Sequence (w_index q pos))) - 1"])
      (auto simp: bounded_step_def Let_def split: if_splits)
next
  case (PushCas y pos)
  then show ?thesis
    using newest_cas [OF b, of EnqueuePos pos "pos + 1" f] st
    by (fastforce simp: sc_queue_append split: if_splits)
next
  case (PushWrite y pos)
  with b st i show ?thesis
    by (intro exI [of _ 0]) (auto simp: readable_def write_cell_def sc_queue_cell bounded_step_def)
next
  case (PushStore pos)
  with b st i show ?thesis
    by (intro exI [of _ 0]) (auto simp: readable_def store_def Let_def sc_queue_sequence bounded_step_def
        intro: in_bounds_append messages_in_bounds_append)
qed (use b st in \<open>auto simp: readable_def\<close>)

lemma newest_pop_step:
  assumes b: "bounded_step q V" and i: "\<And>pos. w_index q pos < w_len q"
    and st: "pop_step f (sc_queue q) pc = (q1, pc')"
  shows "\<exists>n q' V'. readable q V (pop_reads q pc) n \<and> weak_pop_step f n q V pc = (q', V', pc') \<and>
     sc_queue q' = q1 \<and> bounded_step q' V'"
proof (cases pc)
  case PopLoad
  with b st show ?thesis
    using load_newest [of q V DequeuePos Relaxed] by (fastforce simp: bounded_step_def)
next
  case (PopSeq pos)
  have "slot_at (sc_queue q) pos = Some \<lparr>sequence = newest q (Sequence (w_index q pos)), slot_value = cells q (w_index q pos)\<rparr>"
    using i by (simp add: slot_at_def) (simp add: sc_queue_def)
  moreover obtain V' where "load Acquire q V (Sequence (w_index q pos)) (length (history q (Sequence (w_index q pos))) - 1)
      = (newest q (Sequence (w_index q pos)), V')" "in_bounds q V'"
    "readable q V (Some (Sequence (w_index q pos))) (length (history q (Sequence (w_index q pos))) - 1)"
    using load_newest [of q V "Sequence (w_index q pos)" Acquire] b by (auto simp: bounded_step_def)
  ultimately show ?thesis
    using st b i PopSeq
    by (intro exI [of _ "length (history q (Sequence (w_index q pos))) - 1"])
      (auto simp: bounded_step_def Let_def split: if_splits)
next
  case (PopCas pos)
  then show ?thesis
    using newest_cas [OF b, of DequeuePos pos "pos + 1" f] st
    by (fastforce simp: sc_queue_append split: if_splits)
next
  case (PopTake pos)
  have "slot_value (buffer (sc_queue q) ! w_index q pos) = cells q (w_index q pos)"
    using i by (simp add: sc_queue_def)
  with b st i PopTake show ?thesis
    by (intro exI [of _ 0]) (auto simp: readable_def write_cell_def sc_queue_cell bounded_step_def)
next
  case (PopStore pos v)
  with b st i show ?thesis
    by (intro exI [of _ 0]) (auto simp: readable_def store_def Let_def sc_queue_sequence bounded_step_def
        intro: in_bounds_append messages_in_bounds_append)
qed (use b st in \<open>auto simp: readable_def\<close>)

lemma weak_history_grows:
  "weak_push_step f n q V pc = (q', V', pc') \<Longrightarrow> length (history q l) \<le> length (history q' l)"
  "weak_pop_step f n q V pp = (q', V', pp') \<Longrightarrow> length (history q l) \<le> length (history q' l)"
  by (cases pc; auto simp: load_def store_def compare_exchange_weak_def write_cell_def Let_def split: prod.splits if_splits)
    (cases pp; auto simp: load_def store_def compare_exchange_weak_def write_cell_def Let_def split: prod.splits if_splits)

lemma in_bounds_grow: "in_bounds q V \<Longrightarrow> (\<And>l. length (history q l) \<le> length (history q' l)) \<Longrightarrow> in_bounds q' V"
  unfolding in_bounds_def by (meson order_less_le_trans)

definition mirrors :: "'a conf \<Rightarrow> 'a weak_conf \<Rightarrow> bool" where
  "mirrors s w \<longleftrightarrow> sc_conf w = s \<and> (\<forall>t. bounded_step (queue w) (views w t))"

lemma mirrors_step:
  assumes m: "mirrors s w" and i: "\<And>pos. w_index (queue w) pos < w_len (queue w)" and st: "conf_step s l s'"
  shows "\<exists>w'. weak_step w l w' \<and> mirrors s' w'"
proof -
  have s: "s = sc_conf w" and b: "\<And>t. bounded_step (queue w) (views w t)" using m by (simp_all add: mirrors_def)
  have keep: "bounded_step q' (views w t)" if "bounded_step q' V" "\<And>l. length (history (queue w) l) \<le> length (history q' l)" for q' V t
    using that b [of t] in_bounds_grow by (auto simp: bounded_step_def)
  from st show ?thesis
  proof cases
    case (push_act t x pc f q1 pc')
    then obtain n q' V' where *: "readable (queue w) (views w t) (push_reads (queue w) pc) n"
      "weak_push_step f n (queue w) (views w t) pc = (q', V', pc')" "sc_queue q' = q1" "bounded_step q' V'"
      using newest_push_step [OF b [of t] i, of f pc q1 pc'] s by auto
    let ?w = "\<lparr>queue = q', w_threads = (w_threads w)(t := Pushing x pc'), views = (views w)(t := V')\<rparr>"
    have "weak_step w l ?w" using weak_push_act [OF _ _ *(1,2), of x] push_act s by simp
    moreover have "mirrors s' ?w"
      using push_act s * keep [OF *(4)] weak_history_grows(1) [OF *(2)] by (simp add: mirrors_def sc_conf_def)
    ultimately show ?thesis by blast
  next
    case (pop_act t pc f q1 pc')
    then obtain n q' V' where *: "readable (queue w) (views w t) (pop_reads (queue w) pc) n"
      "weak_pop_step f n (queue w) (views w t) pc = (q', V', pc')" "sc_queue q' = q1" "bounded_step q' V'"
      using newest_pop_step [OF b [of t] i, of f pc q1 pc'] s by auto
    let ?w = "\<lparr>queue = q', w_threads = (w_threads w)(t := Popping pc'), views = (views w)(t := V')\<rparr>"
    have "weak_step w l ?w" using weak_pop_act [OF _ _ *(1,2)] pop_act s by simp
    moreover have "mirrors s' ?w"
      using pop_act s * keep [OF *(4)] weak_history_grows(2) [OF *(2)] by (simp add: mirrors_def sc_conf_def)
    ultimately show ?thesis by blast
  qed (use b s in \<open>fastforce simp: mirrors_def sc_conf_def intro: weak_step.intros\<close>)+
qed

lemma mirrors_exec:
  fixes s :: "'a conf"
  assumes "exec cap ls s" and "2 \<le> unat cap" and "unat cap \<le> 2 ^ 62" and "length ls \<le> 2 ^ 62"
  shows "\<exists>w. weak_exec cap ls w \<and> mirrors s w"
  using assms
proof (induction rule: exec.induct)
  case (start q)
  from start.hyps obtain w :: "'a WeakQueue" where w: "weak_new cap = Some w" by (auto simp: weak_new_def queue_new_def split: if_splits)
  then have q: "q = sc_queue w" using sc_queue_new [OF w] start.hyps by simp
  let ?w = "\<lparr>queue = w, w_threads = (\<lambda>_. Idle), views = (\<lambda>_ _. 0)\<rparr>"
  have "bounded_step w (\<lambda>_. 0)"
    using w by (auto simp: weak_new_def bounded_step_def in_bounds_def messages_in_bounds_def
        split: if_splits location.splits)
  then have "mirrors \<lparr>shared = q, threads = (\<lambda>_. Idle)\<rparr> ?w" by (simp add: mirrors_def sc_conf_def q)
  with weak_start [OF w] show ?case by blast
next
  case (step ls s l s')
  then obtain w where w: "weak_exec cap ls w" "mirrors s w" by auto
  have "w_index (queue w) pos < w_len (queue w)" for pos
    using weak_index [OF weak_exec_inv [OF w(1)]] step.prems by simp
  from mirrors_step [OF w(2) this step.hyps(2)] weak_next [OF w(1)] show ?case by blast
qed

subsection \<open>Properties of every execution\<close>

text \<open>
  C2: With the memory orderings the source names, no execution has a data race on a slot's
  value: each access to the UnsafeCell, by any thread and whatever stale values its loads
  returned, happens after every earlier access to that slot. This is what the unsafe impls of
  Sync and Send claim. Capacity at least 2, at most 2^62 atomic steps since creation.
\<close>

theorem value_accesses_never_race:
  assumes "weak_exec cap ls s" and "2 \<le> unat cap" and "unat cap \<le> 2 ^ 62" and "length ls \<le> 2 ^ 62"
  shows "\<not> raced (queue s)"
  using weak_invD(6) [OF weak_exec_inv [OF assms]] .

text \<open>
  A thread that is about to store a slot's sequence has seen the newest message there, so
  appending to the history is the only place coherence leaves for its store.
\<close>

lemma stores_are_coherent:
  assumes "weak_exec cap ls s" and "2 \<le> unat cap" and "unat cap \<le> 2 ^ 62" and "length ls \<le> 2 ^ 62"
    and "w_threads s t = Pushing x (PushStore pos) \<or> w_threads s t = Popping (PopStore pos v)"
  shows "length (history (queue s) (Sequence (w_index (queue s) pos))) \<le>
    Suc (views s t (Sequence (w_index (queue s) pos)))"
proof -
  note inv = weak_exec_inv [OF assms(1-4)]
  have "owner_ticket (w_threads s t) = Some (unat pos)" using assms(5) by (auto simp: owner_ticket_def)
  then have "covers (queue s) (views s t) (unat pos mod unat cap)"
    by (rule claims_seenD [OF weak_invD(4) [OF inv] owner_is_claim])
  then show ?thesis using weak_index [OF inv, of pos] by (simp add: covers_def)
qed

text \<open>
  C4: The conclusions for interleavings survive stale loads: in every execution with the
  memory orderings of the source there is one order of all enqueued items in which each
  producer's accepted items appear in its program order, the items handed to consumers are
  among the first d, none is delivered twice, each consumer received its items in that order,
  and at most capacity items are outstanding.
\<close>

theorem weak_fifo_without_duplication:
  assumes "weak_exec cap ls s" and "2 \<le> unat cap" and "unat cap \<le> 2 ^ 62" and "length ls \<le> 2 ^ 62"
  shows "let L = map snd (enq_log ls); d = length (deq_log ls) in
     d \<le> length L \<and> length L \<le> d + unat cap \<and>
     mset (map snd (returned ls)) \<subseteq># mset (take d L) \<and>
     (\<forall>t. subseq (of_thread t (returned ls)) (take d L)) \<and>
     (\<forall>t. subseq (of_thread t (accepted ls)) L)"
  by (rule hist_fifo [OF weak_invD(1) [OF weak_exec_inv [OF assms]]])

text \<open>
  C3: When every thread is between calls, the items whose push returned Ok are exactly the
  items returned by pop together with the newest contents of the buffer, in every execution
  with the memory orderings of the source.
\<close>

theorem weak_no_item_lost_or_duplicated:
  assumes "weak_exec cap ls s" and "2 \<le> unat cap" and "unat cap \<le> 2 ^ 62" and "length ls \<le> 2 ^ 62"
    and "\<And>t. w_threads s t = Idle"
  shows "mset (map snd (accepted ls)) = mset (map snd (returned ls)) + mset (queue_list (sc_queue (queue s)))"
  using hist_quiescent [OF weak_invD(1) [OF weak_exec_inv [OF assms(1-4)]] _ assms(4)] assms(5)
  by (simp add: quiescent_def)

text \<open>
  Every interleaving of the atomic steps is one of the executions with the memory
  orderings of the source, with the same events and the same newest values: what is shown for
  the latter holds for the former.
\<close>

theorem interleavings_are_weak_executions:
  assumes "exec cap ls s" and "2 \<le> unat cap" and "unat cap \<le> 2 ^ 62" and "length ls \<le> 2 ^ 62"
  shows "\<exists>w. weak_exec cap ls w \<and> sc_conf w = s"
  using mirrors_exec [OF assms] by (auto simp: mirrors_def)

subsection \<open>Scheduled executions\<close>

text \<open>A command of the scheduler of \<^verbatim>\<open>QueueConcurrent\<close>, with the message its load reads.\<close>

fun weak_cmd_step :: "'a weak_conf \<Rightarrow> 'a cmd \<times> nat \<Rightarrow> ('a label \<times> 'a weak_conf) option" where
  "weak_cmd_step s (DoPush t x, n) = (case w_threads s t of
     Idle \<Rightarrow> Some (CallPush t x, s\<lparr>w_threads := (w_threads s)(t := Pushing x (PushLoad x))\<rparr>) | _ \<Rightarrow> None)"
| "weak_cmd_step s (DoPop t, n) = (case w_threads s t of
     Idle \<Rightarrow> Some (CallPop t, s\<lparr>w_threads := (w_threads s)(t := Popping PopLoad)\<rparr>) | _ \<Rightarrow> None)"
| "weak_cmd_step s (DoAct t, n) = (case w_threads s t of
     Pushing x pc \<Rightarrow> if push_active pc \<and> readable (queue s) (views s t) (push_reads (queue s) pc) n then
        (case weak_push_step False n (queue s) (views s t) pc of (q', V', pc') \<Rightarrow>
          Some (PushAct t pc pc', \<lparr>queue = q', w_threads = (w_threads s)(t := Pushing x pc'), views = (views s)(t := V')\<rparr>)) else None
   | Popping pc \<Rightarrow> if pop_active pc \<and> readable (queue s) (views s t) (pop_reads (queue s) pc) n then
        (case weak_pop_step False n (queue s) (views s t) pc of (q', V', pc') \<Rightarrow>
          Some (PopAct t pc pc', \<lparr>queue = q', w_threads = (w_threads s)(t := Popping pc'), views = (views s)(t := V')\<rparr>)) else None
   | Idle \<Rightarrow> None)"
| "weak_cmd_step s (DoRet t, n) = (case w_threads s t of
     Pushing x (PushDone r) \<Rightarrow> Some (RetPush t x r, s\<lparr>w_threads := (w_threads s)(t := Idle)\<rparr>)
   | Popping (PopDone r) \<Rightarrow> Some (RetPop t r, s\<lparr>w_threads := (w_threads s)(t := Idle)\<rparr>)
   | _ \<Rightarrow> None)"

fun weak_cmd_run :: "'a weak_conf \<Rightarrow> ('a cmd \<times> nat) list \<Rightarrow> ('a label list \<times> 'a weak_conf) option" where
  "weak_cmd_run s [] = Some ([], s)"
| "weak_cmd_run s (c # cs) = (case weak_cmd_step s c of None \<Rightarrow> None
     | Some (l, s') \<Rightarrow> (case weak_cmd_run s' cs of None \<Rightarrow> None | Some (ls, s'') \<Rightarrow> Some (l # ls, s'')))"

lemma weak_cmd_step_sound: "weak_cmd_step s c = Some (l, s') \<Longrightarrow> weak_step s l s'"
  by (cases "(s, c)" rule: weak_cmd_step.cases)
    (auto intro: weak_step.intros split: thread.splits push_pc.splits pop_pc.splits if_splits prod.splits)

lemma weak_cmd_run_sound: "weak_exec cap ls0 s \<Longrightarrow> weak_cmd_run s cs = Some (ls, s') \<Longrightarrow> weak_exec cap (ls0 @ ls) s'"
proof (induction cs arbitrary: s ls0 ls)
  case (Cons c cs)
  then obtain l s1 ls1 where *: "weak_cmd_step s c = Some (l, s1)" "weak_cmd_run s1 cs = Some (ls1, s')" "ls = l # ls1"
    by (auto split: option.splits)
  have "weak_exec cap (ls0 @ [l]) s1" using Cons.prems(1) weak_cmd_step_sound [OF *(1)] by (rule weak_next)
  from Cons.IH [OF this *(2)] * show ?case by simp
qed simp

definition weak_queue2 :: "'a WeakQueue" where
  "weak_queue2 = \<lparr>history = (\<lambda>l. case l of Sequence i \<Rightarrow> [(of_nat i, \<lambda>_. 0)] | _ \<Rightarrow> [(0, \<lambda>_. 0)]),
     cells = (\<lambda>_. None), writes = (\<lambda>_. 0), raced = False, w_mask = 1, w_len = 2\<rparr>"

lemma weak_exec_queue2:
  assumes "weak_cmd_run \<lparr>queue = weak_queue2, w_threads = (\<lambda>_. Idle), views = (\<lambda>_ _. 0)\<rparr> cs = Some (ls, s)"
  shows "weak_exec 2 ls s"
proof -
  have "is_power_of_two 2" by (auto simp: is_power_of_two_def intro!: bexI [of _ 1])
  then have "weak_new 2 = Some weak_queue2" by (simp add: weak_new_def weak_queue2_def)
  from weak_cmd_run_sound [OF weak_start [OF this] assms] show ?thesis by simp
qed

lemma join_apply: "join V W l = max (V l) (W l)"
  by (simp add: join_def)

lemmas weak_run_simps = Let_def join_apply readable_def load_def store_def compare_exchange_weak_def write_cell_def w_index_def seq_diff_def

text \<open>
  C40: A load may be stale: a pop can return None although a push has completed, no other call
  was ever made and nobody is inside the queue, because nothing makes the consumer see the
  producer's store. Under interleaving alone this cannot happen.
\<close>

theorem pop_may_not_see_a_finished_push:
  "\<exists>ls s. weak_exec 2 (CallPush 0 a # ls @ [RetPush 0 a (Inr ()), CallPop 1, PopAct 1 PopLoad (PopSeq 0),
     PopAct 1 (PopSeq 0) (PopDone None), RetPop 1 None]) s \<and>
     (\<forall>t. w_threads s t = Idle) \<and> queue_list (sc_queue (queue s)) = [a]"
proof -
  let ?cs = "[(DoPush 0 a, 0), (DoAct 0, 0), (DoAct 0, 0), (DoAct 0, 0), (DoAct 0, 0), (DoAct 0, 0), (DoRet 0, 0),
    (DoPop 1, 0), (DoAct 1, 0), (DoAct 1, 0), (DoRet 1, 0)]"
  obtain ls s where run: "weak_cmd_run \<lparr>queue = weak_queue2, w_threads = (\<lambda>_. Idle), views = (\<lambda>_ _. 0)\<rparr> ?cs = Some (ls, s)"
    and ls: "ls = CallPush 0 a # (take 5 (drop 1 ls)) @ [RetPush 0 a (Inr ()), CallPop 1, PopAct 1 PopLoad (PopSeq 0),
     PopAct 1 (PopSeq 0) (PopDone None), RetPop 1 None]" and idle: "\<forall>t. w_threads s t = Idle"
    and hist: "accepted ls = [(0, a)]" "returned ls = []" "length ls = 11"
    by (simp add: weak_queue2_def weak_run_simps accepted_def returned_def)
  note ex = weak_exec_queue2 [OF run]
  have "mset (map snd (accepted ls)) = mset (map snd (returned ls)) + mset (queue_list (sc_queue (queue s)))"
    using hist_quiescent [OF weak_invD(1) [OF weak_exec_inv [OF ex]]] idle hist(3) by (simp add: quiescent_def)
  then have "queue_list (sc_queue (queue s)) = [a]" using hist by simp
  with ex ls idle show ?thesis by metis
qed

text \<open>The hand-over of \<^verbatim>\<open>QueueConcurrent\<close>, as an execution of the machine.\<close>

lemma weak_handover_run:
  "\<exists>ls s. weak_exec 2 ls (s :: nat weak_conf) \<and> length ls = 21 \<and> (\<forall>t. w_threads s t = Idle) \<and>
     accepted ls = [(0, 7), (0, 8)] \<and> returned ls = [(1, 7)] \<and> writes (queue s) 0 = 2"
proof -
  let ?cs = "[(DoPush 0 7, 0), (DoAct 0, 0), (DoAct 0, 0), (DoAct 0, 0), (DoAct 0, 0), (DoAct 0, 0), (DoRet 0, 0),
    (DoPush 0 8, 0), (DoAct 0, 1), (DoAct 0, 0), (DoAct 0, 1), (DoAct 0, 0), (DoAct 0, 0), (DoRet 0, 0),
    (DoPop 1, 0), (DoAct 1, 0), (DoAct 1, 1), (DoAct 1, 0), (DoAct 1, 0), (DoAct 1, 0), (DoRet 1, 0)]"
  obtain ls and s :: "nat weak_conf"
    where run: "weak_cmd_run \<lparr>queue = weak_queue2, w_threads = (\<lambda>_. Idle), views = (\<lambda>_ _. 0)\<rparr> ?cs = Some (ls, s)"
    and "length ls = 21" "\<forall>t. w_threads s t = Idle" "accepted ls = [(0, 7), (0, 8)]" "returned ls = [(1, 7)]"
      "writes (queue s) 0 = 2"
    by (simp add: weak_queue2_def weak_run_simps accepted_def returned_def)
  with weak_exec_queue2 [OF run] show ?thesis by blast
qed

theorem value_accesses_never_race_witness:
  "\<exists>ls s. weak_exec 2 ls (s :: nat weak_conf) \<and> writes (queue s) 0 = 2 \<and> \<not> raced (queue s)"
proof -
  obtain ls and s :: "nat weak_conf" where *: "weak_exec 2 ls s" "length ls = 21" "writes (queue s) 0 = 2"
    using weak_handover_run by blast
  then show ?thesis using value_accesses_never_race [OF *(1)] by auto
qed

theorem weak_fifo_without_duplication_witness:
  "\<exists>ls s. weak_exec 2 ls (s :: nat weak_conf) \<and> returned ls = [(1, 7)] \<and>
     mset [7] \<subseteq># mset (take (length (deq_log ls)) (map snd (enq_log ls)))"
proof -
  obtain ls and s :: "nat weak_conf" where *: "weak_exec 2 ls s" "length ls = 21" "returned ls = [(1, 7)]"
    using weak_handover_run by blast
  then show ?thesis using weak_fifo_without_duplication [OF *(1)] by (force simp: Let_def)
qed

theorem weak_no_item_lost_or_duplicated_witness:
  "\<exists>ls s. weak_exec 2 ls (s :: nat weak_conf) \<and> {#7, 8#} = {#7#} + mset (queue_list (sc_queue (queue s)))"
proof -
  obtain ls and s :: "nat weak_conf" where *: "weak_exec 2 ls s" "length ls = 21" "\<forall>t. w_threads s t = Idle"
    "accepted ls = [(0, 7), (0, 8)]" "returned ls = [(1, 7)]"
    using weak_handover_run by blast
  then show ?thesis using weak_no_item_lost_or_duplicated [OF *(1)] by force
qed

theorem interleavings_are_weak_executions_witness:
  "\<exists>ls w. weak_exec 2 ls (w :: nat weak_conf) \<and> accessing (sc_conf w) 0 = Some 0 \<and> accessing (sc_conf w) 1 = Some 1"
proof -
  obtain ls and s :: "nat conf" where *: "exec 2 ls s" "length ls = 8" "accessing s 0 = Some 0" "accessing s 1 = Some 1"
    using two_writers_run by blast
  obtain w where "weak_exec 2 ls w" "sc_conf w = s"
    using interleavings_are_weak_executions [OF *(1)] *(2) by auto
  with * show ?thesis by blast
qed

end
