(* ===== verification/StressTest.thy ===== *)
theory StressTest
  imports QueueWeak
begin

section \<open>The concurrent stress test\<close>

text \<open>
  The test \<^verbatim>\<open>concurrent_stress_no_lost_or_duplicated_items\<close> of \<^verbatim>\<open>engine/src/queue.rs\<close>: producers \<open>0 ..< P\<close>
  push the items \<open>p * N + i\<close> in order and retry when the queue is full; consumers \<open>P ..< P + C\<close> pop,
  mark each item in the shared vector \<open>seen\<close>, failing if it is marked already, and count it; they leave
  when the producers are done and the count has reached the total. The queue runs with the memory
  orderings of its source, and the threads may learn from each other in any way besides. The vector
  \<open>seen\<close> is guarded by a mutex and read and written in one order, and so are the additions to the
  count; the two loads before a consumer leaves may be stale (\<open>stale_load\<close>: an older value is \<open>False\<close>, or a
  smaller count, and sends the consumer round its loop again).
\<close>

subsection \<open>The test\<close>

datatype consumer_pc = Looping | Marking nat | Counting | CheckDone | CheckTotal | Exited

record StressTest =
  conf :: "nat weak_conf"
  next_index :: "nat \<Rightarrow> nat"
  producer_exited :: "nat \<Rightarrow> bool"
  consumer :: "nat \<Rightarrow> consumer_pc"
  seen :: "bool list"
  total_popped :: nat
  producers_done :: bool
  assertion_failed :: bool

definition stress_item :: "nat \<Rightarrow> nat \<Rightarrow> nat \<Rightarrow> nat" where
  "stress_item N p i = p * N + i"

definition stress_new :: "nat \<Rightarrow> nat weak_conf \<Rightarrow> StressTest" where
  "stress_new n c = \<lparr>conf = c, next_index = (\<lambda>_. 0), producer_exited = (\<lambda>_. False), consumer = (\<lambda>_. Looping),
     seen = replicate n False, total_popped = 0, producers_done = False, assertion_failed = False\<rparr>"

text \<open>One step of a thread of the test, for \<open>P\<close> producers of \<open>N\<close> items each and \<open>C\<close> consumers.\<close>

inductive stress_step :: "nat \<Rightarrow> nat \<Rightarrow> nat \<Rightarrow> StressTest \<Rightarrow> nat label list \<Rightarrow> StressTest \<Rightarrow> bool" for P N C where
  call_push: "p < P \<Longrightarrow> next_index s p < N \<Longrightarrow>
    weak_step (conf s) (CallPush p (stress_item N p (next_index s p))) c' \<Longrightarrow>
    stress_step P N C s [CallPush p (stress_item N p (next_index s p))] (s\<lparr>conf := c'\<rparr>)"
| push_ok: "weak_step (conf s) (RetPush p x (Inr ())) c' \<Longrightarrow>
    stress_step P N C s [RetPush p x (Inr ())] (s\<lparr>conf := c', next_index := (next_index s)(p := Suc (next_index s p))\<rparr>)"
| push_retry: "weak_step (conf s) (RetPush p x (Inl y)) c' \<Longrightarrow>
    stress_step P N C s [RetPush p x (Inl y)] (s\<lparr>conf := c'\<rparr>)"
| producer_exit: "p < P \<Longrightarrow> next_index s p = N \<Longrightarrow>
    stress_step P N C s [] (s\<lparr>producer_exited := (producer_exited s)(p := True)\<rparr>)"
| inside_push: "weak_step (conf s) (PushAct t pc pc') c' \<Longrightarrow> stress_step P N C s [PushAct t pc pc'] (s\<lparr>conf := c'\<rparr>)"
| inside_pop: "weak_step (conf s) (PopAct t po po') c' \<Longrightarrow> stress_step P N C s [PopAct t po po'] (s\<lparr>conf := c'\<rparr>)"
| call_pop: "P \<le> t \<Longrightarrow> t < P + C \<Longrightarrow> consumer s t = Looping \<Longrightarrow> weak_step (conf s) (CallPop t) c' \<Longrightarrow>
    stress_step P N C s [CallPop t] (s\<lparr>conf := c'\<rparr>)"
| pop_some: "weak_step (conf s) (RetPop t (Some x)) c' \<Longrightarrow>
    stress_step P N C s [RetPop t (Some x)] (s\<lparr>conf := c', consumer := (consumer s)(t := Marking x)\<rparr>)"
| pop_none: "weak_step (conf s) (RetPop t None) c' \<Longrightarrow>
    stress_step P N C s [RetPop t None] (s\<lparr>conf := c', consumer := (consumer s)(t := CheckDone)\<rparr>)"
| mark: "consumer s t = Marking x \<Longrightarrow>
    stress_step P N C s [] (s\<lparr>consumer := (consumer s)(t := Counting), seen := (seen s)[x := True],
      assertion_failed := (assertion_failed s \<or> \<not> x < length (seen s) \<or> seen s ! x)\<rparr>)"
| count: "consumer s t = Counting \<Longrightarrow>
    stress_step P N C s [] (s\<lparr>consumer := (consumer s)(t := Looping), total_popped := Suc (total_popped s)\<rparr>)"
| check_done: "consumer s t = CheckDone \<Longrightarrow>
    stress_step P N C s [] (s\<lparr>consumer := (consumer s)(t := if producers_done s then CheckTotal else Looping)\<rparr>)"
| check_total: "consumer s t = CheckTotal \<Longrightarrow>
    stress_step P N C s [] (s\<lparr>consumer := (consumer s)(t := if P * N \<le> total_popped s then Exited else Looping)\<rparr>)"
| stale_load: "consumer s t \<in> {CheckDone, CheckTotal} \<Longrightarrow>
    stress_step P N C s [] (s\<lparr>consumer := (consumer s)(t := Looping)\<rparr>)"
| joined_producers: "\<forall>p < P. producer_exited s p \<Longrightarrow> stress_step P N C s [] (s\<lparr>producers_done := True\<rparr>)"
| learn: "V \<le> views (conf s) t' \<Longrightarrow>
    stress_step P N C s [] (s\<lparr>conf := (conf s)\<lparr>views := (views (conf s))(t := join (views (conf s) t) V)\<rparr>\<rparr>)"

inductive stress_run :: "nat \<Rightarrow> nat \<Rightarrow> nat \<Rightarrow> usize \<Rightarrow> StressTest \<Rightarrow> nat label list \<Rightarrow> bool" for P N C capacity where
  stress_start: "weak_new capacity = Some q \<Longrightarrow>
    stress_run P N C capacity (stress_new (P * N) \<lparr>queue = q, w_threads = (\<lambda>_. Idle), views = (\<lambda>_ _. 0)\<rparr>) []"
| stress_next: "stress_run P N C capacity s ls \<Longrightarrow> stress_step P N C s ls' s' \<Longrightarrow> stress_run P N C capacity s' (ls @ ls')"

text \<open>After the joins the test asserts that all items were seen.\<close>

definition stress_finished :: "nat \<Rightarrow> nat \<Rightarrow> StressTest \<Rightarrow> bool" where
  "stress_finished P C s \<longleftrightarrow> producers_done s \<and> (\<forall>t. P \<le> t \<and> t < P + C \<longrightarrow> consumer s t = Exited)"

definition total_seen :: "StressTest \<Rightarrow> nat" where
  "total_seen s = length (filter id (seen s))"

subsection \<open>The queue within the test\<close>

lemma stress_run_exec: "stress_run P N C capacity s ls \<Longrightarrow> weak_exec capacity ls (conf s)"
proof (induction rule: stress_run.induct)
  case (stress_start q)
  then show ?case by (simp add: stress_new_def weak_start)
next
  case (stress_next s ls ls' s')
  from stress_next.hyps(2) stress_next.IH show ?case
    by cases (auto intro: weak_next weak_sync)
qed

text \<open>What the producers have pushed, and where they are.\<close>

definition producer_ok :: "nat \<Rightarrow> nat \<Rightarrow> nat \<Rightarrow> nat \<Rightarrow> bool \<Rightarrow> nat thread \<Rightarrow> nat list \<Rightarrow> bool" where
  "producer_ok P N t n left th acc \<longleftrightarrow> n \<le> N \<and> acc = map (stress_item N t) [0..<n] \<and> (P \<le> t \<longrightarrow> n = 0) \<and>
     (left \<longrightarrow> n = N) \<and> (\<forall>x pc. th = Pushing x pc \<longrightarrow> t < P \<and> n < N \<and> x = stress_item N t n)"

definition producers_inv :: "nat \<Rightarrow> nat \<Rightarrow> StressTest \<Rightarrow> nat label list \<Rightarrow> bool" where
  "producers_inv P N s ls \<longleftrightarrow> (\<forall>t. producer_ok P N t (next_index s t) (producer_exited s t) (w_threads (conf s) t)
     (of_thread t (accepted ls)))"

lemma producer_ok_simps:
  "producer_ok P N t n left Idle acc \<longleftrightarrow> n \<le> N \<and> acc = map (stress_item N t) [0..<n] \<and> (P \<le> t \<longrightarrow> n = 0) \<and> (left \<longrightarrow> n = N)"
  "producer_ok P N t n left (Popping po) acc \<longleftrightarrow> producer_ok P N t n left Idle acc"
  "producer_ok P N t n left (Pushing x pc) acc \<longleftrightarrow> producer_ok P N t n left Idle acc \<and> t < P \<and> n < N \<and> x = stress_item N t n"
  by (auto simp: producer_ok_def)

lemma producer_ok_accept:
  assumes "producer_ok P N t n left (Pushing x pc) acc"
  shows "producer_ok P N t (Suc n) False Idle (acc @ [x])"
  using assms by (auto simp: producer_ok_simps)

lemma producer_ok_idle: "producer_ok P N t n left th acc \<Longrightarrow> producer_ok P N t n left Idle acc"
  by (auto simp: producer_ok_def)

lemma weak_step_call_threads:
  assumes "weak_step c (CallPush t x) c'"
  shows "w_threads c' = (w_threads c)(t := Pushing x (PushLoad x))"
  using assms by cases simp_all

lemma weak_step_callpop_threads:
  assumes "weak_step c (CallPop t) c'"
  shows "w_threads c t = Idle \<and> w_threads c' = (w_threads c)(t := Popping PopLoad)"
  using assms by cases simp_all

lemma weak_step_push_threads:
  assumes "weak_step c (PushAct t pc pc') c'"
  shows "\<exists>x. w_threads c t = Pushing x pc \<and> w_threads c' = (w_threads c)(t := Pushing x pc')"
  using assms by cases simp_all

lemma weak_step_pop_threads:
  assumes "weak_step c (PopAct t po po') c'"
  shows "w_threads c t = Popping po \<and> w_threads c' = (w_threads c)(t := Popping po')"
  using assms by cases simp_all

lemma weak_step_ret_threads:
  assumes "weak_step c (RetPush t x r) c'"
  shows "w_threads c t = Pushing x (PushDone r) \<and> w_threads c' = (w_threads c)(t := Idle)"
  using assms by cases simp_all

lemma weak_step_retpop_threads:
  assumes "weak_step c (RetPop t r) c'"
  shows "w_threads c t = Popping (PopDone r) \<and> w_threads c' = (w_threads c)(t := Idle)"
  using assms by cases simp_all

lemmas weak_step_threads = weak_step_call_threads weak_step_callpop_threads weak_step_push_threads
  weak_step_pop_threads weak_step_ret_threads weak_step_retpop_threads

lemma producers_inv_upd:
  assumes "producers_inv P N s ls" and "w_threads (conf s') = (w_threads (conf s))(t := th)"
    and "next_index s' = (next_index s)(t := n)" and "producer_exited s' = producer_exited s"
    and "\<And>t'. t' \<noteq> t \<Longrightarrow> of_thread t' (accepted_event l) = []"
    and "producer_ok P N t (next_index s t) (producer_exited s t) (w_threads (conf s) t) (of_thread t (accepted ls)) \<Longrightarrow>
      producer_ok P N t n (producer_exited s t) th (of_thread t (accepted ls) @ of_thread t (accepted_event l))"
  shows "producers_inv P N s' (ls @ [l])"
  using assms by (simp add: producers_inv_def)

lemma producers_inv_step:
  assumes inv: "producers_inv P N s ls" and st: "stress_step P N C s ls' s'"
  shows "producers_inv P N s' (ls @ ls')"
  using st
proof cases
  case (call_push p c')
  show ?thesis
    unfolding call_push(1)
    by (rule producers_inv_upd [OF inv, of _ p "Pushing (stress_item N p (next_index s p)) (PushLoad (stress_item N p (next_index s p)))" "next_index s p"])
      (use call_push weak_step_threads(1) [OF call_push(5)] producer_ok_idle in \<open>auto simp: producer_ok_simps(3)\<close>)
next
  case (push_ok p x c')
  note t = weak_step_threads(5) [OF push_ok(3)]
  have "\<not> producer_exited s p"
  proof
    assume "producer_exited s p"
    moreover have "producer_ok P N p (next_index s p) (producer_exited s p) (w_threads (conf s) p) (of_thread p (accepted ls))"
      using inv by (simp add: producers_inv_def)
    ultimately show False using t by (auto simp: producer_ok_simps)
  qed
  then show ?thesis
    unfolding push_ok(1)
    by (intro producers_inv_upd [OF inv, of _ p Idle "Suc (next_index s p)"])
      (use push_ok t in \<open>auto intro: producer_ok_accept\<close>)
next
  case (push_retry p x y c')
  note t = weak_step_threads(5) [OF push_retry(3)]
  show ?thesis
    unfolding push_retry(1) by (rule producers_inv_upd [OF inv, of _ p Idle "next_index s p"])
      (use push_retry t producer_ok_idle in auto)
next
  case (inside_push t pc pc' c')
  obtain x where t: "w_threads (conf s) t = Pushing x pc" "w_threads c' = (w_threads (conf s))(t := Pushing x pc')"
    using weak_step_threads(3) [OF inside_push(3)] by blast
  show ?thesis
    unfolding inside_push(1) by (rule producers_inv_upd [OF inv, of _ t "Pushing x pc'" "next_index s t"])
      (use inside_push t in \<open>simp_all add: producer_ok_simps\<close>)
next
  case (inside_pop t pc pc' c')
  note t = weak_step_threads(4) [OF inside_pop(3)]
  show ?thesis
    unfolding inside_pop(1) by (rule producers_inv_upd [OF inv, of _ t "Popping pc'" "next_index s t"])
      (use inside_pop t in \<open>simp_all add: producer_ok_simps\<close>)
next
  case (call_pop t c')
  note t = weak_step_threads(2) [OF call_pop(6)]
  show ?thesis
    unfolding call_pop(1) by (rule producers_inv_upd [OF inv, of _ t "Popping PopLoad" "next_index s t"])
      (use call_pop t in \<open>auto simp: producer_ok_simps\<close>)
next
  case (pop_some t x c')
  note t = weak_step_threads(6) [OF pop_some(3)]
  show ?thesis
    unfolding pop_some(1) by (rule producers_inv_upd [OF inv, of _ t Idle "next_index s t"])
      (use pop_some t in \<open>simp_all add: producer_ok_simps\<close>)
next
  case (pop_none t c')
  note t = weak_step_threads(6) [OF pop_none(3)]
  show ?thesis
    unfolding pop_none(1) by (rule producers_inv_upd [OF inv, of _ t Idle "next_index s t"])
      (use pop_none t in \<open>simp_all add: producer_ok_simps\<close>)
next
  case (producer_exit p)
  then show ?thesis using inv by (auto simp: producers_inv_def producer_ok_def)
qed (use inv in \<open>simp_all add: producers_inv_def\<close>)

lemma stress_producers_inv: "stress_run P N C capacity s ls \<Longrightarrow> producers_inv P N s ls"
proof (induction rule: stress_run.induct)
  case (stress_start q)
  then show ?case by (simp add: producers_inv_def stress_new_def producer_ok_def)
next
  case (stress_next s ls ls' s')
  then show ?case by (blast intro: producers_inv_step)
qed

text \<open>The items are distinct, so the ones that got into the queue and the ones that came out are.\<close>

lemma stress_item_unique:
  assumes "stress_item N p i = stress_item N p' i'" and "i < N" and "i' < N"
  shows "p = p' \<and> i = i'"
proof -
  have "(p * N + i) div N = p" "(p' * N + i') div N = p'" using assms(2,3) by simp_all
  then have "p = p'" using assms(1) by (simp add: stress_item_def)
  with assms(1) show ?thesis by (simp add: stress_item_def)
qed

lemma stress_item_less: "p < P \<Longrightarrow> i < N \<Longrightarrow> stress_item N p i < P * N"
proof -
  assume "p < P" "i < N"
  then have "stress_item N p i < Suc p * N" by (simp add: stress_item_def)
  also have "\<dots> \<le> P * N" using \<open>p < P\<close> by (intro mult_le_mono1) simp
  finally show ?thesis .
qed

lemma distinct_by_thread:
  assumes "\<And>t. distinct (of_thread t xs)" and "\<And>t t' x. x \<in> set (of_thread t xs) \<Longrightarrow> x \<in> set (of_thread t' xs) \<Longrightarrow> t = t'"
  shows "distinct (map snd xs)"
  using assms
proof (induction xs)
  case (Cons y xs)
  obtain t x where y: "y = (t, x)" by (cases y)
  have "distinct (map snd xs)"
  proof (rule Cons.IH)
    show "distinct (of_thread t' xs)" for t' using Cons.prems(1) [of t'] by (cases "t' = t") (simp_all add: y)
    show "t1 = t2" if "z \<in> set (of_thread t1 xs)" "z \<in> set (of_thread t2 xs)" for t1 t2 z
      using Cons.prems(2) [of z t1 t2] that by (simp add: y)
  qed
  moreover have "x \<notin> set (map snd xs)"
  proof
    assume "x \<in> set (map snd xs)"
    then obtain t' where "(t', x) \<in> set xs" by auto
    then have x: "x \<in> set (of_thread t' xs)" by (force simp: of_thread_def)
    then have "t' = t" using Cons.prems(2) [of x t' t] by (simp add: y)
    with x Cons.prems(1) [of t] show False by (simp add: y)
  qed
  ultimately show ?case by (simp add: y)
qed simp

lemma pending_accept_pushing: "pending_accept (Pushing x pc) = [] \<or> pending_accept (Pushing x pc) = [x]"
  by (cases "Pushing x pc" rule: pending_accept.cases) auto

lemma stress_pushed_thread:
  assumes ok: "producer_ok P N t n left th acc" and e: "es = acc @ pending_accept th"
  shows "\<exists>m. es = map (stress_item N t) [0..<m] \<and> m \<le> N \<and> (P \<le> t \<longrightarrow> m = 0)"
proof (cases th)
  case (Pushing x pc)
  then have th: "es = acc \<or> es = acc @ [x]" using e pending_accept_pushing [of x pc] by auto
  have "acc = map (stress_item N t) [0..<n]" "n < N" "x = stress_item N t n" "t < P"
    using ok Pushing by (auto simp: producer_ok_simps)
  then have "acc @ [x] = map (stress_item N t) [0..<Suc n]" "acc = map (stress_item N t) [0..<n]" by simp_all
  with th \<open>n < N\<close> \<open>t < P\<close> show ?thesis by (metis Suc_leI less_imp_le linorder_not_less)
qed (use ok e in \<open>auto simp: producer_ok_def\<close>)

lemma stress_pushed:
  assumes H: "hist_ok c ls (sc_conf (conf s))" and inv: "producers_inv P N s ls"
  shows "distinct (map snd (enq_log ls)) \<and> set (map snd (enq_log ls)) \<subseteq> {..<P * N}"
proof -
  have ex: "\<exists>m. of_thread t (enq_log ls) = map (stress_item N t) [0..<m] \<and> m \<le> N \<and> (P \<le> t \<longrightarrow> m = 0)" for t
  proof (rule stress_pushed_thread)
    show "producer_ok P N t (next_index s t) (producer_exited s t) (w_threads (conf s) t) (of_thread t (accepted ls))"
      using inv by (simp add: producers_inv_def)
    show "of_thread t (enq_log ls) = of_thread t (accepted ls) @ pending_accept (w_threads (conf s) t)"
      using hist_okD(6) [OF H] by (simp add: returns_ok_def)
  qed
  have mem: "\<exists>i. x = stress_item N t i \<and> i < N \<and> t < P" if "x \<in> set (of_thread t (enq_log ls))" for x t
    using ex [of t] that by fastforce
  have "distinct (map snd (enq_log ls))"
  proof (rule distinct_by_thread)
    show "distinct (of_thread t (enq_log ls))" for t
      using ex [of t] by (auto simp: distinct_map inj_on_def) (meson less_le_trans stress_item_unique)
    show "t = t'" if "x \<in> set (of_thread t (enq_log ls))" "x \<in> set (of_thread t' (enq_log ls))" for t t' x
      using mem [OF that(1)] mem [OF that(2)] stress_item_unique by metis
  qed
  moreover have "x < P * N" if "(t, x) \<in> set (enq_log ls)" for t x
  proof -
    have "x \<in> set (of_thread t (enq_log ls))" using that by (force simp: of_thread_def)
    from mem [OF this] show ?thesis using stress_item_less by blast
  qed
  ultimately show ?thesis by auto
qed

lemma stress_returned:
  assumes run: "stress_run P N C cap s ls" and cap: "2 \<le> unat cap" "unat cap \<le> 2 ^ 62" and len: "length ls \<le> 2 ^ 62"
  shows "distinct (map snd (returned ls)) \<and> set (map snd (returned ls)) \<subseteq> {..<P * N}"
proof -
  have H: "hist_ok (unat cap) ls (sc_conf (conf s))"
    by (rule weak_invD(1) [OF weak_exec_inv [OF stress_run_exec [OF run] cap len]])
  note p = stress_pushed [OF H stress_producers_inv [OF run]]
  let ?L = "map snd (enq_log ls)" and ?d = "length (deq_log ls)"
  have sub: "mset (map snd (returned ls)) \<subseteq># mset (take ?d ?L)" using hist_fifo [OF H] by (simp add: Let_def)
  have dt: "distinct (take ?d ?L)" using p by (simp only: distinct_take)
  have "count (mset (map snd (returned ls))) x \<le> 1" for x
    using mset_subset_eq_count [OF sub, of x] dt
    by (metis distinct_count_atmost_1 le_trans order_refl zero_le)
  then have "distinct (map snd (returned ls))"
    by (metis count_mset_0_iff distinct_count_atmost_1 le_antisym less_one linorder_not_less)
  moreover have "set (map snd (returned ls)) \<subseteq> set ?L"
    using set_mset_mono [OF sub] set_take_subset [of ?d ?L] by (simp only: set_mset_mset)
  ultimately show ?thesis using p by blast
qed

subsection \<open>The consumers\<close>

definition seen_items :: "StressTest \<Rightarrow> nat set" where
  "seen_items s = {x. x < length (seen s) \<and> seen s ! x}"

definition marking :: "(nat \<Rightarrow> consumer_pc) \<Rightarrow> nat set" where
  "marking co = {x. \<exists>t. co t = Marking x}"

definition counting :: "(nat \<Rightarrow> consumer_pc) \<Rightarrow> nat set" where
  "counting co = {t. co t = Counting}"

text \<open>
  An item that came out of the queue is either seen or being marked by one consumer; the seen
  items are counted or about to be; who has left has read the full count.
\<close>

definition consumers_inv :: "nat \<Rightarrow> nat \<Rightarrow> nat \<Rightarrow> StressTest \<Rightarrow> nat label list \<Rightarrow> bool" where
  "consumers_inv P N C s ls \<longleftrightarrow> length (seen s) = P * N \<and> \<not> assertion_failed s \<and>
     (\<forall>t t' x. consumer s t = Marking x \<longrightarrow> consumer s t' = Marking x \<longrightarrow> t = t') \<and>
     seen_items s \<inter> marking (consumer s) = {} \<and> seen_items s \<union> marking (consumer s) = set (map snd (returned ls)) \<and>
     (\<forall>t. consumer s t \<noteq> Looping \<longrightarrow> P \<le> t \<and> t < P + C \<and> w_threads (conf s) t = Idle) \<and>
     (\<forall>t po. w_threads (conf s) t = Popping po \<longrightarrow> P \<le> t \<and> t < P + C) \<and>
     total_popped s + card (counting (consumer s)) = card (seen_items s) \<and>
     (\<forall>t. consumer s t = Exited \<longrightarrow> P * N \<le> total_popped s)"

lemma consumers_invD:
  assumes "consumers_inv P N C s ls"
  shows "length (seen s) = P * N" "\<not> assertion_failed s"
    "consumer s t = Marking x \<Longrightarrow> consumer s t' = Marking x \<Longrightarrow> t = t'"
    "seen_items s \<inter> marking (consumer s) = {}" "seen_items s \<union> marking (consumer s) = set (map snd (returned ls))"
    "consumer s t \<noteq> Looping \<Longrightarrow> P \<le> t \<and> t < P + C \<and> w_threads (conf s) t = Idle"
    "w_threads (conf s) t = Popping po \<Longrightarrow> P \<le> t \<and> t < P + C"
    "total_popped s + card (counting (consumer s)) = card (seen_items s)"
    "consumer s t = Exited \<Longrightarrow> P * N \<le> total_popped s"
  using assms unfolding consumers_inv_def by blast+

lemma consumers_invI:
  assumes "length (seen s) = P * N" and "\<not> assertion_failed s"
    and "\<And>t t' x. consumer s t = Marking x \<Longrightarrow> consumer s t' = Marking x \<Longrightarrow> t = t'"
    and "seen_items s \<inter> marking (consumer s) = {}" and "seen_items s \<union> marking (consumer s) = set (map snd (returned ls))"
    and "\<And>t. consumer s t \<noteq> Looping \<Longrightarrow> P \<le> t \<and> t < P + C \<and> w_threads (conf s) t = Idle"
    and "\<And>t po. w_threads (conf s) t = Popping po \<Longrightarrow> P \<le> t \<and> t < P + C"
    and "total_popped s + card (counting (consumer s)) = card (seen_items s)"
    and "\<And>t. consumer s t = Exited \<Longrightarrow> P * N \<le> total_popped s"
  shows "consumers_inv P N C s ls"
  unfolding consumers_inv_def using assms by blast

lemma finite_counting: "consumers_inv P N C s ls \<Longrightarrow> finite (counting (consumer s))"
proof -
  assume inv: "consumers_inv P N C s ls"
  have "counting (consumer s) \<subseteq> {..<P + C}"
    using consumers_invD(6) [OF inv] by (auto simp: counting_def)
  then show ?thesis by (rule finite_subset) simp
qed

lemma finite_seen_items [simp]: "finite (seen_items s)"
  unfolding seen_items_def by (rule finite_subset [of _ "{..<length (seen s)}"]) auto

lemma marking_upd:
  assumes "\<And>y. co t \<noteq> Marking y"
  shows "marking (co(t := v)) = marking co \<union> {x. v = Marking x}"
proof (rule set_eqI)
  fix x
  have "(\<exists>t'. (co(t := v)) t' = Marking x) \<longleftrightarrow> v = Marking x \<or> (\<exists>t'. co t' = Marking x)"
    using assms by (metis fun_upd_apply)
  then show "x \<in> marking (co(t := v)) \<longleftrightarrow> x \<in> marking co \<union> {x. v = Marking x}" by (auto simp: marking_def)
qed

lemma marking_remove:
  assumes "co t = Marking x" and "\<And>t'. co t' = Marking x \<Longrightarrow> t' = t" and "\<And>y. v \<noteq> Marking y"
  shows "marking (co(t := v)) = marking co - {x}"
proof (rule set_eqI)
  fix z
  have "(\<exists>t'. (co(t := v)) t' = Marking z) \<longleftrightarrow> z \<noteq> x \<and> (\<exists>t'. co t' = Marking z)"
    using assms by (metis consumer_pc.inject fun_upd_apply)
  then show "z \<in> marking (co(t := v)) \<longleftrightarrow> z \<in> marking co - {x}" by (auto simp: marking_def)
qed

lemma counting_upd:
  "v = Counting \<Longrightarrow> counting (co(t := v)) = insert t (counting co)"
  "v \<noteq> Counting \<Longrightarrow> counting (co(t := v)) = counting co - {t}"
  by (auto simp: counting_def)

text \<open>Steps that change neither what is seen nor what is being marked or counted.\<close>

lemma consumers_inv_quiet:
  assumes inv: "consumers_inv P N C s ls"
    and co: "consumer s' = (consumer s)(t := v)" "consumer s t \<noteq> Counting" "v \<noteq> Counting"
      "\<And>y. consumer s t \<noteq> Marking y" "\<And>y. v \<noteq> Marking y"
    and th: "\<And>t'. w_threads (conf s') t' = (if t' = t then th else w_threads (conf s) t')"
    and v: "v \<noteq> Looping \<Longrightarrow> P \<le> t \<and> t < P + C \<and> th = Idle" and po: "\<And>po. th = Popping po \<Longrightarrow> P \<le> t \<and> t < P + C"
    and ex: "v = Exited \<Longrightarrow> P * N \<le> total_popped s"
    and same: "seen s' = seen s" "total_popped s' = total_popped s" "assertion_failed s' = assertion_failed s"
      "returned (ls @ ls') = returned ls"
  shows "consumers_inv P N C s' (ls @ ls')"
proof -
  note I = consumers_invD [OF inv]
  have m: "marking (consumer s') = marking (consumer s)"
    unfolding co(1) using marking_upd [of "consumer s" t v] co(4,5) by simp
  have c: "counting (consumer s') = counting (consumer s)"
    using co(1-3) by (auto simp: counting_def)
  have si: "seen_items s' = seen_items s" using same by (simp add: seen_items_def)
  have "t1 = t2" if "consumer s' t1 = Marking x" "consumer s' t2 = Marking x" for t1 t2 x
    using I(3) that co by (metis fun_upd_apply)
  moreover have "P \<le> t1 \<and> t1 < P + C \<and> w_threads (conf s') t1 = Idle" if "consumer s' t1 \<noteq> Looping" for t1
    using I(6) [of t1] that co(1) v th [of t1] by (cases "t1 = t") auto
  moreover have "P \<le> t1 \<and> t1 < P + C" if "w_threads (conf s') t1 = Popping po" for t1 po
    using I(7) [of t1 po] that po [of po] th [of t1] by (cases "t1 = t") simp_all
  moreover have "P * N \<le> total_popped s'" if "consumer s' t1 = Exited" for t1
    using I(9) [of t1] that co(1) ex same by (cases "t1 = t") auto
  ultimately show ?thesis
    unfolding consumers_inv_def m c si same using I(1,2,4,5,8) by blast
qed

lemma consumers_inv_same:
  assumes "consumers_inv P N C s ls" and "seen s' = seen s" and "assertion_failed s' = assertion_failed s"
    and "consumer s' = consumer s" and "total_popped s' = total_popped s" and "w_threads (conf s') = w_threads (conf s)"
  shows "consumers_inv P N C s' ls"
proof -
  have eq: "seen_items s' = seen_items s" using assms(2) by (simp add: seen_items_def)
  show ?thesis unfolding consumers_inv_def assms(2-6) eq by (rule assms(1) [unfolded consumers_inv_def])
qed

lemma consumers_inv_pop_some:
  assumes inv: "consumers_inv P N C s ls" and t: "w_threads (conf s) t = Popping (PopDone (Some x))"
    and th: "w_threads c' = (w_threads (conf s))(t := Idle)"
    and dist: "distinct (map snd (returned ls) @ [x])"
  shows "consumers_inv P N C (s\<lparr>conf := c', consumer := (consumer s)(t := Marking x)\<rparr>) (ls @ [RetPop t (Some x)])"
proof -
  note I = consumers_invD [OF inv]
  let ?s = "s\<lparr>conf := c', consumer := (consumer s)(t := Marking x)\<rparr>"
  have co: "consumer s t = Looping" using I(6) [of t] t by auto
  have x: "x \<notin> seen_items s" "x \<notin> marking (consumer s)" using dist I(5) by auto
  have m: "marking (consumer ?s) = insert x (marking (consumer s))"
    using marking_upd [of "consumer s" t "Marking x"] co by auto
  have c: "counting (consumer ?s) = counting (consumer s)" using co by (auto simp: counting_def)
  have si: "seen_items ?s = seen_items s" by (simp add: seen_items_def)
  have "t1 = t2" if "consumer ?s t1 = Marking y" "consumer ?s t2 = Marking y" for t1 t2 y
    using that I(3) [of t1 y t2] x(2) by (auto simp: marking_def split: if_splits)
  moreover have "P \<le> t1 \<and> t1 < P + C \<and> w_threads (conf ?s) t1 = Idle" if "consumer ?s t1 \<noteq> Looping" for t1
    using I(6) [of t1] I(7) [of t1] that th t by (cases "t1 = t") auto
  moreover have "P \<le> t1 \<and> t1 < P + C" if "w_threads (conf ?s) t1 = Popping po" for t1 po
    using I(7) [of t1] that th by (cases "t1 = t") auto
  moreover have "P * N \<le> total_popped ?s" if "consumer ?s t1 = Exited" for t1
    using I(9) [of t1] that by (cases "t1 = t") auto
  moreover have "set (map snd (returned (ls @ [RetPop t (Some x)]))) = insert x (set (map snd (returned ls)))" by simp
  moreover have "seen_items ?s \<inter> marking (consumer ?s) = {}" "seen_items ?s \<union> marking (consumer ?s) = insert x (set (map snd (returned ls)))"
    unfolding m si using I(4,5) x by blast+
  moreover have "length (seen ?s) = P * N" "\<not> assertion_failed ?s" using I(1,2) by simp_all
  moreover have "total_popped ?s + card (counting (consumer ?s)) = card (seen_items ?s)" unfolding c si using I(8) by simp
  ultimately show ?thesis by (intro consumers_invI) (assumption | simp only:)+
qed

lemma consumers_inv_mark:
  assumes inv: "consumers_inv P N C s ls" and t: "consumer s t = Marking x" and x: "x < P * N"
  shows "consumers_inv P N C (s\<lparr>consumer := (consumer s)(t := Counting), seen := (seen s)[x := True],
      assertion_failed := (assertion_failed s \<or> \<not> x < length (seen s) \<or> seen s ! x)\<rparr>) ls"
    (is "consumers_inv P N C ?s ls")
proof -
  note I = consumers_invD [OF inv]
  have xm: "x \<in> marking (consumer s)" using t by (auto simp: marking_def)
  then have xs: "x \<notin> seen_items s" using I(4) by auto
  then have fresh: "x < length (seen s)" "\<not> seen s ! x" using x I(1) by (auto simp: seen_items_def)
  have m: "marking (consumer ?s) = marking (consumer s) - {x}"
  proof -
    have "marking ((consumer s)(t := Counting)) = marking (consumer s) - {x}"
      by (rule marking_remove [where co = "consumer s", OF t]) (use I(3) [OF _ t] in simp_all)
    then show ?thesis by simp
  qed
  have si: "seen_items ?s = insert x (seen_items s)" using fresh by (auto simp: seen_items_def nth_list_update)
  have "t \<notin> counting (consumer s)" using t by (simp add: counting_def)
  moreover have "counting (consumer ?s) = insert t (counting (consumer s))" by (simp add: counting_upd)
  ultimately have "card (counting (consumer ?s)) = Suc (card (counting (consumer s)))"
    using finite_counting [OF inv] by simp
  moreover have "card (seen_items ?s) = Suc (card (seen_items s))" unfolding si using xs by simp
  moreover have "t1 = t2" if "consumer ?s t1 = Marking y" "consumer ?s t2 = Marking y" for t1 t2 y
    using that I(3) [of t1 y t2] by (auto split: if_splits)
  moreover have "P \<le> t1 \<and> t1 < P + C \<and> w_threads (conf ?s) t1 = Idle" if "consumer ?s t1 \<noteq> Looping" for t1
    using I(6) [of t1] that t by (cases "t1 = t") auto
  moreover have "P * N \<le> total_popped ?s" if "consumer ?s t1 = Exited" for t1
    using I(9) [of t1] that by (cases "t1 = t") auto
  moreover have "\<not> assertion_failed ?s" using fresh I(2) by simp
  moreover have "seen_items ?s \<inter> marking (consumer ?s) = {}" "seen_items ?s \<union> marking (consumer ?s) = set (map snd (returned ls))"
    unfolding m si using I(4,5) xm by blast+
  moreover have "length (seen ?s) = P * N" using I(1) by simp
  moreover have "total_popped ?s = total_popped s" "conf ?s = conf s" by simp_all
  ultimately show ?thesis using I(7,8) by (intro consumers_invI) (assumption | simp only: add_Suc_right)+
qed

lemma consumers_inv_count:
  assumes inv: "consumers_inv P N C s ls" and t: "consumer s t = Counting"
  shows "consumers_inv P N C (s\<lparr>consumer := (consumer s)(t := Looping), total_popped := Suc (total_popped s)\<rparr>) ls"
    (is "consumers_inv P N C ?s ls")
proof -
  note I = consumers_invD [OF inv]
  have m: "marking (consumer ?s) = marking (consumer s)" using marking_upd [of "consumer s" t Looping] t by simp
  have si: "seen_items ?s = seen_items s" by (simp add: seen_items_def)
  have "t \<in> counting (consumer s)" using t by (simp add: counting_def)
  then have "card (counting (consumer s)) = Suc (card (counting (consumer ?s)))"
    using card.remove [OF finite_counting [OF inv], of t] by (simp add: counting_upd)
  moreover have "t1 = t2" if "consumer ?s t1 = Marking y" "consumer ?s t2 = Marking y" for t1 t2 y
    using that I(3) [of t1 y t2] by (auto split: if_splits)
  moreover have "P \<le> t1 \<and> t1 < P + C \<and> w_threads (conf ?s) t1 = Idle" if "consumer ?s t1 \<noteq> Looping" for t1
    using I(6) [of t1] that by (cases "t1 = t") auto
  moreover have "P * N \<le> total_popped ?s" if "consumer ?s t1 = Exited" for t1
    using I(9) [of t1] that by (cases "t1 = t") auto
  moreover have "seen_items ?s \<inter> marking (consumer ?s) = {}" "seen_items ?s \<union> marking (consumer ?s) = set (map snd (returned ls))"
    unfolding m si by (rule I)+
  moreover have "length (seen ?s) = P * N" "\<not> assertion_failed ?s" using I(1,2) by simp_all
  moreover have "total_popped ?s = Suc (total_popped s)" "conf ?s = conf s" by simp_all
  ultimately show ?thesis using I(7,8) unfolding si by (intro consumers_invI) (assumption | simp only: si add_Suc_right add_Suc)+
qed

text \<open>Steps of the queue that hand no item to a consumer.\<close>

lemma consumers_inv_queue:
  assumes inv: "consumers_inv P N C s ls" and prod: "producers_inv P N s ls" and st: "weak_step (conf s) l c'"
    and quiet: "returned_event l = []"
    and caller: "\<And>t x. l = CallPush t x \<Longrightarrow> t < P" "\<And>t. l = CallPop t \<Longrightarrow> P \<le> t \<and> t < P + C \<and> consumer s t = Looping"
      "\<And>t r. l \<noteq> RetPop t r"
  shows "consumers_inv P N C (s\<lparr>conf := c', next_index := ni\<rparr>) (ls @ [l])"
proof -
  note I = consumers_invD [OF inv]
  have producer: "consumer s t = Looping" if "t < P" for t using I(6) [of t] that by auto
  have pushing: "consumer s t = Looping" if "w_threads (conf s) t = Pushing x pc" for t x pc
    using prod that producer [of t] by (auto simp: producers_inv_def producer_ok_def)
  have popping: "consumer s t = Looping" if "w_threads (conf s) t = Popping po" for t po using I(6) [of t] that by auto
  have upd: ?thesis if "consumer s t = Looping" "w_threads c' = (w_threads (conf s))(t := th)"
      "\<And>po. th = Popping po \<Longrightarrow> P \<le> t \<and> t < P + C" for t th
    by (rule consumers_inv_quiet [OF inv, of _ t Looping th]) (use that quiet fun_upd_triv [of "consumer s" t] in simp_all)
  from st show ?thesis
  proof cases
    case (weak_call_push t x)
    then show ?thesis by (intro upd [of t "Pushing x (PushLoad x)"] producer caller(1)) simp_all
  next
    case (weak_call_pop t)
    then show ?thesis using caller(2) by (intro upd [of t "Popping PopLoad"]) simp_all
  next
    case (weak_push_act t x pc n f q' V' pc')
    then show ?thesis by (intro upd [of t "Pushing x pc'"] pushing [of t x pc]) simp_all
  next
    case (weak_pop_act t pc n f q' V' pc')
    then show ?thesis using I(7) [of t pc] by (intro upd [of t "Popping pc'"] popping [of t pc]) simp_all
  next
    case (weak_ret_push t x r)
    then show ?thesis by (intro upd [of t Idle] pushing [of t x "PushDone r"]) simp_all
  qed (use caller(3) in simp)
qed

lemma consumers_inv_step:
  assumes inv: "consumers_inv P N C s ls" and prod: "producers_inv P N s ls" and st: "stress_step P N C s ls' s'"
    and ret: "distinct (map snd (returned (ls @ ls')))" "set (map snd (returned (ls @ ls'))) \<subseteq> {..<P * N}"
  shows "consumers_inv P N C s' (ls @ ls')"
proof -
  note I = consumers_invD [OF inv]
  have popping: "consumer s t = Looping" if "w_threads (conf s) t = Popping po" for t po using I(6) [of t] that by auto
  note queue = consumers_inv_queue [OF inv prod]
  from st show ?thesis
  proof cases
    case (call_push p c')
    with queue [OF call_push(5), of "next_index s"] show ?thesis by simp
  next
    case (push_ok p x c')
    with queue [OF push_ok(3), of "(next_index s)(p := Suc (next_index s p))"] show ?thesis by simp
  next
    case (push_retry p x y c')
    with queue [OF push_retry(3), of "next_index s"] show ?thesis by simp
  next
    case (inside_push t pc pc' c')
    with queue [OF inside_push(3), of "next_index s"] show ?thesis by simp
  next
    case (inside_pop t po po' c')
    with queue [OF inside_pop(3), of "next_index s"] show ?thesis by simp
  next
    case (call_pop t c')
    with queue [OF call_pop(6), of "next_index s"] show ?thesis by simp
  next
    case (pop_some t x c')
    note t = weak_step_threads(6) [OF pop_some(3)]
    show ?thesis
      unfolding pop_some(1,2)
      by (rule consumers_inv_pop_some [OF inv conjunct1 [OF t] conjunct2 [OF t]]) (use ret(1) pop_some in simp)
  next
    case (pop_none t c')
    note t = weak_step_threads(6) [OF pop_none(3)]
    show ?thesis
      unfolding pop_none(1,2)
      by (rule consumers_inv_quiet [OF inv, of _ t CheckDone Idle])
        (use t popping [OF conjunct1 [OF t]] I(7) [OF conjunct1 [OF t]] in simp_all)
  next
    case (mark t x)
    have "x \<in> marking (consumer s)" using mark(3) by (auto simp: marking_def)
    then have "x \<in> set (map snd (returned ls))" using I(5) by blast
    then have "x < P * N" using ret(2) mark(1) by auto
    from consumers_inv_mark [OF inv mark(3) this] mark show ?thesis by simp
  next
    case (count t)
    from consumers_inv_count [OF inv count(3)] count show ?thesis by simp
  next
    case (check_done t)
    note i = I(6) [of t]
    show ?thesis
      unfolding check_done(1,2)
      by (rule consumers_inv_quiet [OF inv, of _ t "if producers_done s then CheckTotal else Looping" Idle])
        (use check_done(3) i in \<open>simp_all split: if_splits\<close>)
  next
    case (check_total t)
    note i = I(6) [of t]
    show ?thesis
      unfolding check_total(1,2)
      by (rule consumers_inv_quiet [OF inv, of _ t "if P * N \<le> total_popped s then Exited else Looping" Idle])
        (use check_total(3) i in \<open>simp_all split: if_splits\<close>)
  next
    case (stale_load t)
    note i = I(6) [of t]
    show ?thesis
      unfolding stale_load(1,2)
      by (rule consumers_inv_quiet [OF inv, of _ t Looping Idle]) (use stale_load(3) i in auto)
  next
    case (producer_exit p)
    then show ?thesis by (simp only: append_Nil2) (rule consumers_inv_same [OF inv]; simp)
  next
    case joined_producers
    then show ?thesis by (simp only: append_Nil2) (rule consumers_inv_same [OF inv]; simp)
  next
    case (learn V t' t)
    then show ?thesis by (simp only: append_Nil2) (rule consumers_inv_same [OF inv]; simp)
  qed
qed

lemma stress_consumers_inv:
  assumes "stress_run P N C cap s ls" and cap: "2 \<le> unat cap" "unat cap \<le> 2 ^ 62" and "length ls \<le> 2 ^ 62"
  shows "consumers_inv P N C s ls"
  using assms(1,4)
proof (induction rule: stress_run.induct)
  case (stress_start q)
  have "seen_items (stress_new (P * N) c) = {}" for c by (auto simp: seen_items_def stress_new_def)
  then show ?case by (intro consumers_invI) (simp_all add: stress_new_def marking_def counting_def)
next
  case (stress_next s ls ls' s')
  then have b: "length ls \<le> 2 ^ 62" by simp
  note run = stress_run.stress_next [OF stress_next.hyps(1,2)]
  show ?case
    using consumers_inv_step [OF stress_next.IH [OF b] stress_producers_inv [OF stress_next.hyps(1)] stress_next.hyps(2)]
      stress_returned [OF run cap stress_next.prems] by blast
qed

lemma total_seen_card: "total_seen s = card (seen_items s)"
proof -
  have "seen_items s = {i. i < length (seen s) \<and> id (seen s ! i)}" by (simp add: seen_items_def)
  then show ?thesis by (simp add: total_seen_def length_filter_conv_card)
qed

text \<open>
  C29: The concurrent stress test passes. In every execution with the memory orderings of the
  source, for any numbers of producers, items and consumers, no consumer ever finds an item
  already marked; when the test ends all P * N items have been seen, as its last assertion
  asks; and it cannot hang for want of items: once all producers have left, the queue is empty
  and no consumer holds an item, the count has reached the total.
\<close>

theorem stress_test_passes:
  assumes "stress_run P N C cap s ls" and "2 \<le> unat cap" and "unat cap \<le> 2 ^ 62" and "length ls \<le> 2 ^ 62"
  shows "\<not> assertion_failed s \<and> (0 < C \<and> stress_finished P C s \<longrightarrow> total_seen s = P * N) \<and>
    ((\<forall>p < P. producer_exited s p) \<and> (\<forall>t. w_threads (conf s) t = Idle) \<and> queue_list (sc_queue (queue (conf s))) = [] \<and>
     (\<forall>t x. consumer s t \<noteq> Marking x \<and> consumer s t \<noteq> Counting) \<longrightarrow> total_popped s = P * N)"
proof (intro conjI impI)
  note inv = stress_consumers_inv [OF assms]
  note I = consumers_invD [OF inv]
  note prod = stress_producers_inv [OF assms(1)]
  have le: "card (seen_items s) \<le> P * N"
    using card_mono [of "{..<P * N}" "seen_items s"] I(1) by (auto simp: seen_items_def)
  show "\<not> assertion_failed s" by (rule I(2))
  show "total_seen s = P * N" if "0 < C \<and> stress_finished P C s"
  proof -
    have "consumer s P = Exited" using that by (simp add: stress_finished_def)
    then have "P * N \<le> total_popped s" by (rule I(9))
    then show ?thesis using le I(8) by (simp add: total_seen_card)
  qed
  show "total_popped s = P * N"
    if *: "(\<forall>p < P. producer_exited s p) \<and> (\<forall>t. w_threads (conf s) t = Idle) \<and> queue_list (sc_queue (queue (conf s))) = [] \<and>
     (\<forall>t x. consumer s t \<noteq> Marking x \<and> consumer s t \<noteq> Counting)"
  proof -
    have H: "hist_ok (unat cap) ls (sc_conf (conf s))"
      by (rule weak_invD(1) [OF weak_exec_inv [OF stress_run_exec [OF assms(1)] assms(2-4)]])
    have "mset (map snd (accepted ls)) = mset (map snd (returned ls))"
      using hist_quiescent [OF H _ assms(4)] * by (simp add: quiescent_def)
    then have sets: "set (map snd (accepted ls)) = set (map snd (returned ls))" by (rule mset_eq_setD)
    have "stress_item N p i \<in> set (map snd (accepted ls))" if "p < P" "i < N" for p i
    proof -
      have "producer_ok P N p (next_index s p) True (w_threads (conf s) p) (of_thread p (accepted ls))"
        using prod * that(1) by (metis producers_inv_def)
      then have "of_thread p (accepted ls) = map (stress_item N p) [0..<N]" by (simp add: producer_ok_def)
      then have "stress_item N p i \<in> set (of_thread p (accepted ls))" using that(2) by simp
      then show ?thesis by (auto simp: of_thread_def)
    qed
    moreover have "\<exists>p i. x = stress_item N p i \<and> p < P \<and> i < N" if "x < P * N" for x
    proof -
      have "0 < N" using that by (cases N) simp_all
      then have "x = stress_item N (x div N) (x mod N)" "x div N < P" "x mod N < N"
        using that by (simp_all add: stress_item_def less_mult_imp_div_less)
      then show ?thesis by blast
    qed
    ultimately have "{..<P * N} \<subseteq> set (map snd (returned ls))" unfolding sets by (metis lessThan_iff subsetI)
    moreover have "marking (consumer s) = {}" "counting (consumer s) = {}" using * by (auto simp: marking_def counting_def)
    ultimately have "P * N \<le> card (seen_items s)" using I(5) card_mono [of "seen_items s" "{..<P * N}"] by simp
    then show ?thesis using le I(8) \<open>counting (consumer s) = {}\<close> by simp
  qed
qed

subsection \<open>A complete run\<close>

text \<open>Commands of a scheduler of the test: a step of the queue, or a step of the test's own code.\<close>

datatype stress_cmd = Queue "nat cmd" nat | Exit nat | Join | Mark nat | Count nat | Check nat

fun stress_cmd_step :: "nat \<Rightarrow> nat \<Rightarrow> nat \<Rightarrow> StressTest \<Rightarrow> stress_cmd \<Rightarrow> (nat label list \<times> StressTest) option" where
  "stress_cmd_step P N C s (Queue c n) = (case weak_cmd_step (conf s) (c, n) of
     None \<Rightarrow> None
   | Some (l, c') \<Rightarrow> (case l of
       CallPush p x \<Rightarrow> if p < P \<and> next_index s p < N \<and> x = stress_item N p (next_index s p)
         then Some ([l], s\<lparr>conf := c'\<rparr>) else None
     | RetPush p x (Inr u) \<Rightarrow> Some ([l], s\<lparr>conf := c', next_index := (next_index s)(p := Suc (next_index s p))\<rparr>)
     | RetPush p x (Inl y) \<Rightarrow> Some ([l], s\<lparr>conf := c'\<rparr>)
     | PushAct t pc pc' \<Rightarrow> Some ([l], s\<lparr>conf := c'\<rparr>)
     | PopAct t pc pc' \<Rightarrow> Some ([l], s\<lparr>conf := c'\<rparr>)
     | CallPop t \<Rightarrow> if P \<le> t \<and> t < P + C \<and> consumer s t = Looping then Some ([l], s\<lparr>conf := c'\<rparr>) else None
     | RetPop t (Some x) \<Rightarrow> Some ([l], s\<lparr>conf := c', consumer := (consumer s)(t := Marking x)\<rparr>)
     | RetPop t None \<Rightarrow> Some ([l], s\<lparr>conf := c', consumer := (consumer s)(t := CheckDone)\<rparr>)))"
| "stress_cmd_step P N C s (Exit p) = (if p < P \<and> next_index s p = N
     then Some ([], s\<lparr>producer_exited := (producer_exited s)(p := True)\<rparr>) else None)"
| "stress_cmd_step P N C s Join = (if list_all (producer_exited s) [0..<P] then Some ([], s\<lparr>producers_done := True\<rparr>) else None)"
| "stress_cmd_step P N C s (Mark t) = (case consumer s t of
     Marking x \<Rightarrow> Some ([], s\<lparr>consumer := (consumer s)(t := Counting), seen := (seen s)[x := True],
       assertion_failed := (assertion_failed s \<or> \<not> x < length (seen s) \<or> seen s ! x)\<rparr>)
   | _ \<Rightarrow> None)"
| "stress_cmd_step P N C s (Count t) = (if consumer s t = Counting
     then Some ([], s\<lparr>consumer := (consumer s)(t := Looping), total_popped := Suc (total_popped s)\<rparr>) else None)"
| "stress_cmd_step P N C s (Check t) = (case consumer s t of
     CheckDone \<Rightarrow> Some ([], s\<lparr>consumer := (consumer s)(t := if producers_done s then CheckTotal else Looping)\<rparr>)
   | CheckTotal \<Rightarrow> Some ([], s\<lparr>consumer := (consumer s)(t := if P * N \<le> total_popped s then Exited else Looping)\<rparr>)
   | _ \<Rightarrow> None)"

fun stress_cmd_run :: "nat \<Rightarrow> nat \<Rightarrow> nat \<Rightarrow> StressTest \<Rightarrow> stress_cmd list \<Rightarrow> (nat label list \<times> StressTest) option" where
  "stress_cmd_run P N C s [] = Some ([], s)"
| "stress_cmd_run P N C s (c # cs) = (case stress_cmd_step P N C s c of None \<Rightarrow> None
     | Some (ls1, s') \<Rightarrow> (case stress_cmd_run P N C s' cs of None \<Rightarrow> None | Some (ls2, s'') \<Rightarrow> Some (ls1 @ ls2, s'')))"

lemma stress_cmd_step_sound:
  assumes "stress_cmd_step P N C s c = Some (ls', s')"
  shows "stress_step P N C s ls' s'"
proof (cases c)
  case (Mark t)
  with assms obtain x where "consumer s t = Marking x" by (auto split: consumer_pc.splits)
  with assms Mark stress_step.mark [OF this, of P N C] show ?thesis by simp
next
  case (Check t)
  with assms have "consumer s t = CheckDone \<or> consumer s t = CheckTotal" by (auto split: consumer_pc.splits)
  then show ?thesis
    using assms Check stress_step.check_done [of s t P N C] stress_step.check_total [of s t P N C] by (elim disjE) simp_all
qed (use assms in \<open>auto dest!: weak_cmd_step_sound intro: stress_step.intros simp: list_all_iff
      split: option.splits prod.splits label.splits sum.splits if_splits\<close>)

lemma stress_cmd_run_sound:
  "stress_run P N C cap s ls0 \<Longrightarrow> stress_cmd_run P N C s cs = Some (ls, s') \<Longrightarrow> stress_run P N C cap s' (ls0 @ ls)"
proof (induction cs arbitrary: s ls0 ls)
  case (Cons c cs)
  then obtain ls1 s1 ls2 where *: "stress_cmd_step P N C s c = Some (ls1, s1)" "stress_cmd_run P N C s1 cs = Some (ls2, s')" "ls = ls1 @ ls2"
    by (auto split: option.splits)
  have "stress_run P N C cap s1 (ls0 @ ls1)" using Cons.prems(1) stress_cmd_step_sound [OF *(1)] by (rule stress_next)
  from Cons.IH [OF this *(2)] * show ?case by simp
qed simp

theorem stress_test_passes_witness:
  "\<exists>s ls. stress_run 1 1 1 2 s ls \<and> stress_finished 1 1 s \<and> \<not> assertion_failed s \<and> total_seen s = 1"
proof -
  let ?cs = "[Queue (DoPush 0 0) 0, Queue (DoAct 0) 0, Queue (DoAct 0) 0, Queue (DoAct 0) 0, Queue (DoAct 0) 0, Queue (DoAct 0) 0,
    Queue (DoRet 0) 0, Exit 0, Join, Queue (DoPop 1) 0, Queue (DoAct 1) 0, Queue (DoAct 1) 1, Queue (DoAct 1) 0, Queue (DoAct 1) 0,
    Queue (DoAct 1) 0, Queue (DoRet 1) 0, Mark 1, Count 1, Queue (DoPop 1) 0, Queue (DoAct 1) 1, Queue (DoAct 1) 0, Queue (DoRet 1) 0,
    Check 1, Check 1]"
  obtain ls s where run: "stress_cmd_run 1 1 1 (stress_new 1 \<lparr>queue = weak_queue2, w_threads = (\<lambda>_. Idle), views = (\<lambda>_ _. 0)\<rparr>) ?cs = Some (ls, s)"
    and len: "length ls = 18" and e: "consumer s 1 = Exited" "producers_done s"
    by (simp add: stress_new_def weak_queue2_def weak_run_simps stress_item_def)
  have "is_power_of_two 2" by (auto simp: is_power_of_two_def intro!: bexI [of _ 1])
  then have "weak_new 2 = Some (weak_queue2 :: nat WeakQueue)" by (simp add: weak_new_def weak_queue2_def)
  then have "stress_run 1 1 1 2 (stress_new 1 \<lparr>queue = weak_queue2, w_threads = (\<lambda>_. Idle), views = (\<lambda>_ _. 0)\<rparr>) []"
    using stress_start [of 2 weak_queue2 1 1 1] by simp
  from stress_cmd_run_sound [OF this run] have r: "stress_run 1 1 1 2 s ls" by simp
  have f: "stress_finished 1 1 s" using e by (auto simp: stress_finished_def less_Suc_eq)
  from stress_test_passes [OF r] r f len show ?thesis by force
qed

end
