(* ===== verification/CountMin.thy ===== *)
theory CountMin
  imports Prelude
begin

section \<open>The Count-Min sketch\<close>

text \<open>
  \<^verbatim>\<open>CountMinSketch\<close> of \<^verbatim>\<open>engine/src/detection/anomaly.rs\<close>. The hash function comes from the
  crate \<^verbatim>\<open>rustc_hash\<close>, whose source is not part of the repository: it is the parameter
  \<open>fx\<close>, a function of the sequence of writes that the standard library's \<^verbatim>\<open>Hash\<close> impls make to the
  hasher. Nothing is assumed about it. Vector sizes and indices are naturals; the counters are
  32-bit words that saturate. An operation returns \<open>None\<close> where the code panics (remainder by a
  zero width, index out of range).
\<close>

subsection \<open>Model\<close>

datatype hash_write = WriteU64 u64 | WriteUsize usize | WriteBytes bytes

type_synonym hasher = "hash_write list \<Rightarrow> u64"

text \<open>\<^verbatim>\<open>impl Hash for [u8]\<close>: the length prefix, then the bytes.\<close>

definition hash_slice :: "bytes \<Rightarrow> hash_write list" where
  "hash_slice key = [WriteUsize (of_nat (length key)), WriteBytes key]"

record CountMinSketch =
  depth :: nat
  width :: nat
  table :: "u32 list list"
  seeds :: "u64 list"

definition cms_new :: "nat \<Rightarrow> nat \<Rightarrow> CountMinSketch" where
  "cms_new w d =
     \<lparr>depth = d, width = w, table = replicate d (replicate w 0),
      seeds = map (\<lambda>i. 0x9E3779B97F4A7C15 * (of_nat i + 1)) [0..<d]\<rparr>"

definition cms_hash :: "hasher \<Rightarrow> CountMinSketch \<Rightarrow> bytes \<Rightarrow> nat \<Rightarrow> nat option" where
  "cms_hash fx c key row = do {
     seed \<leftarrow> nth_opt (seeds c) row;
     let h = fx (WriteU64 seed # hash_slice key);
     if width c = 0 then None else Some (unat h mod width c)
   }"

definition saturating_inc :: "u32 \<Rightarrow> u32" where
  "saturating_inc v = (if v = - 1 then - 1 else v + 1)"

fun cms_increment_rows :: "hasher \<Rightarrow> bytes \<Rightarrow> nat list \<Rightarrow> CountMinSketch \<Rightarrow> CountMinSketch option" where
  "cms_increment_rows fx key [] c = Some c"
| "cms_increment_rows fx key (row # rows) c = do {
     col \<leftarrow> cms_hash fx c key row;
     cells \<leftarrow> nth_opt (table c) row;
     v \<leftarrow> nth_opt cells col;
     cms_increment_rows fx key rows (c\<lparr>table := (table c)[row := cells[col := saturating_inc v]]\<rparr>)
   }"

definition cms_increment :: "hasher \<Rightarrow> bytes \<Rightarrow> CountMinSketch \<Rightarrow> CountMinSketch option" where
  "cms_increment fx key c = cms_increment_rows fx key [0..<depth c] c"

definition cms_read :: "hasher \<Rightarrow> CountMinSketch \<Rightarrow> bytes \<Rightarrow> nat \<Rightarrow> u32 option" where
  "cms_read fx c key row = do {
     cells \<leftarrow> nth_opt (table c) row;
     col \<leftarrow> cms_hash fx c key row;
     nth_opt cells col
   }"

definition cms_estimate :: "hasher \<Rightarrow> bytes \<Rightarrow> CountMinSketch \<Rightarrow> u32 option" where
  "cms_estimate fx key c = do {
     vs \<leftarrow> those (map (cms_read fx c key) [0..<depth c]);
     Some (case vs of [] \<Rightarrow> 0 | v # vs' \<Rightarrow> fold min vs' v)
   }"

definition cms_clear :: "CountMinSketch \<Rightarrow> CountMinSketch" where
  "cms_clear c = c\<lparr>table := map (map (\<lambda>_. 0)) (table c)\<rparr>"

subsection \<open>The sketch that a history of increments leaves\<close>

text \<open>The cell a key falls in, and the sketch after incrementing the keys of \<open>hist\<close> since the
  last clear: a cell holds the number of keys that fall in it, at most the largest \<^verbatim>\<open>u32\<close>.\<close>

definition cms_seed :: "nat \<Rightarrow> u64" where
  "cms_seed row = 0x9E3779B97F4A7C15 * (of_nat row + 1)"

definition cms_col :: "hasher \<Rightarrow> nat \<Rightarrow> nat \<Rightarrow> bytes \<Rightarrow> nat" where
  "cms_col fx w row key = unat (fx (WriteU64 (cms_seed row) # hash_slice key)) mod w"

definition cell_hits :: "hasher \<Rightarrow> nat \<Rightarrow> nat \<Rightarrow> nat \<Rightarrow> bytes list \<Rightarrow> nat" where
  "cell_hits fx w row col hist = length (filter (\<lambda>k. cms_col fx w row k = col) hist)"

definition u32_max :: nat where
  "u32_max = 2 ^ 32 - 1"

definition cms_of :: "hasher \<Rightarrow> nat \<Rightarrow> nat \<Rightarrow> bytes list \<Rightarrow> CountMinSketch" where
  "cms_of fx w d hist =
     \<lparr>depth = d, width = w,
      table = map (\<lambda>row. map (\<lambda>col. of_nat (min u32_max (cell_hits fx w row col hist))) [0..<w]) [0..<d],
      seeds = map cms_seed [0..<d]\<rparr>"

lemma cms_of_fields [simp]:
  "depth (cms_of fx w d hist) = d" "width (cms_of fx w d hist) = w"
  "seeds (cms_of fx w d hist) = map cms_seed [0..<d]"
  "length (table (cms_of fx w d hist)) = d"
  by (simp_all add: cms_of_def)

lemma cms_col_less [simp]: "0 < w \<Longrightarrow> cms_col fx w row key < w"
  by (simp add: cms_col_def)

lemma cell_hits_Nil [simp]: "cell_hits fx w row col [] = 0"
  by (simp add: cell_hits_def)

lemma cell_hits_snoc [simp]:
  "cell_hits fx w row col (hist @ [k]) = cell_hits fx w row col hist + (if cms_col fx w row k = col then 1 else 0)"
  by (simp add: cell_hits_def)

lemma cms_new_of: "cms_new w d = cms_of fx w d []"
  by (simp add: cms_new_def cms_of_def map_replicate_const cms_seed_def)

lemma cms_clear_of: "cms_clear (cms_of fx w d hist) = cms_of fx w d []"
  by (simp add: cms_clear_def cms_of_def comp_def)

lemma cms_hash_of:
  assumes "0 < w" and "row < d" and "seeds c = map cms_seed [0..<d]" and "width c = w"
  shows "cms_hash fx c key row = Some (cms_col fx w row key)"
  using assms by (simp add: cms_hash_def nth_opt_def cms_col_def)

lemma of_nat_u32_max: "of_nat u32_max = (- 1 :: u32)"
  by (simp add: u32_max_def)

lemma saturating_inc_of_nat:
  "saturating_inc (of_nat (min u32_max n)) = of_nat (min u32_max (n + 1))"
proof (cases "n < u32_max")
  case True
  have "(of_nat n :: u32) \<noteq> - 1"
  proof
    assume "(of_nat n :: u32) = - 1"
    then have "unat (of_nat n :: u32) = unat (- 1 :: u32)" by (rule arg_cong)
    with True show False by (simp add: unat_of_nat u32_max_def unsigned_minus_1_eq_mask mask_eq_exp_minus_1)
  qed
  with True show ?thesis by (simp add: saturating_inc_def ac_simps)
next
  case False
  then show ?thesis by (simp add: saturating_inc_def of_nat_u32_max)
qed

text \<open>The row loop of \<open>increment\<close>, \<open>n\<close> rows from the top done.\<close>

definition cms_partly :: "hasher \<Rightarrow> nat \<Rightarrow> nat \<Rightarrow> bytes list \<Rightarrow> bytes \<Rightarrow> nat \<Rightarrow> CountMinSketch" where
  "cms_partly fx w d hist key n =
     \<lparr>depth = d, width = w,
      table = map (\<lambda>row. map (\<lambda>col. of_nat (min u32_max
                (cell_hits fx w row col (if row < n then hist @ [key] else hist)))) [0..<w]) [0..<d],
      seeds = map cms_seed [0..<d]\<rparr>"

lemma cms_increment_rows_partly:
  assumes "0 < w" and "n + m = d"
  shows "cms_increment_rows fx key [n..<d] (cms_partly fx w d hist key n) = Some (cms_partly fx w d hist key d)"
  using assms(2)
proof (induction m arbitrary: n)
  case (Suc m)
  let ?c = "cms_partly fx w d hist key n" and ?col = "cms_col fx w n key"
  have n: "n < d" using Suc.prems by simp
  have h: "cms_hash fx ?c key n = Some ?col"
    by (rule cms_hash_of [OF assms(1) n]) (simp_all add: cms_partly_def)
  have t: "nth_opt (table ?c) n = Some (map (\<lambda>col. of_nat (min u32_max (cell_hits fx w n col hist))) [0..<w])"
    using n by (simp add: nth_opt_def cms_partly_def)
  have v: "nth_opt (map (\<lambda>col. of_nat (min u32_max (cell_hits fx w n col hist))) [0..<w] :: u32 list) ?col
       = Some (of_nat (min u32_max (cell_hits fx w n ?col hist)))"
    using assms(1) by (simp add: nth_opt_def)
  have upd: "?c\<lparr>table := (table ?c)[n := (map (\<lambda>col. of_nat (min u32_max (cell_hits fx w n col hist))) [0..<w])
         [?col := saturating_inc (of_nat (min u32_max (cell_hits fx w n ?col hist)))]]\<rparr>
      = cms_partly fx w d hist key (Suc n)"
    using n by (auto simp: cms_partly_def saturating_inc_of_nat nth_list_update intro!: nth_equalityI)
  have "[n..<d] = n # [Suc n..<d]" using n by (simp add: upt_conv_Cons)
  then show ?case using Suc.IH [of "Suc n"] Suc.prems by (simp add: h t v upd del: upt_Suc)
qed simp

lemma cms_increment_of:
  assumes "0 < w"
  shows "cms_increment fx key (cms_of fx w d hist) = Some (cms_of fx w d (hist @ [key]))"
proof -
  have "cms_partly fx w d hist key 0 = cms_of fx w d hist"
    by (simp add: cms_partly_def cms_of_def)
  moreover have "cms_partly fx w d hist key d = cms_of fx w d (hist @ [key])"
    by (auto simp: cms_partly_def cms_of_def intro!: map_cong)
  ultimately show ?thesis
    using cms_increment_rows_partly [OF assms, of 0 d d fx key hist] by (simp add: cms_increment_def)
qed

lemma those_map_Some: "those (map (\<lambda>x. Some (f x)) xs) = Some (map f xs)"
  by (induction xs) simp_all

lemma cms_read_of:
  assumes "0 < w" and "row < d"
  shows "cms_read fx (cms_of fx w d hist) key row =
     Some (of_nat (min u32_max (cell_hits fx w row (cms_col fx w row key) hist)))"
  using assms by (simp add: cms_read_def nth_opt_def cms_hash_of [where d = d]) (simp add: cms_of_def)

lemma fold_min_Min: "fold min vs v = Min (insert v (set vs))" for v :: "'a::linorder"
  using Min.set_eq_fold [of v vs] by simp

lemma cms_estimate_of:
  assumes "0 < w" and "0 < d"
  shows "cms_estimate fx key (cms_of fx w d hist) =
     Some (Min ((\<lambda>row. of_nat (min u32_max (cell_hits fx w row (cms_col fx w row key) hist))) ` {0..<d}))"
proof -
  let ?f = "\<lambda>row. of_nat (min u32_max (cell_hits fx w row (cms_col fx w row key) hist)) :: u32"
  have "cms_read fx (cms_of fx w d hist) key row = Some (?f row)" if "row \<in> set [0..<d]" for row
    using that assms(1) by (intro cms_read_of) simp_all
  then have "map (cms_read fx (cms_of fx w d hist) key) [0..<d] = map (\<lambda>row. Some (?f row)) [0..<d]"
    by (rule map_cong [OF refl])
  then have r: "those (map (cms_read fx (cms_of fx w d hist) key) [0..<d]) = Some (map ?f [0..<d])"
    by (simp only: those_map_Some)
  obtain v vs where vs: "map ?f [0..<d] = v # vs"
    using assms(2) by (cases "map ?f [0..<d]") simp_all
  have "insert v (set vs) = ?f ` {0..<d}"
    using arg_cong [OF vs, of set] by simp
  then show ?thesis
    by (simp only: cms_estimate_def r vs bind.bind_lunit list.case fold_min_Min cms_of_fields)
qed

text \<open>The estimate read as a number.\<close>

lemma unat_min_u32_max [simp]: "unat (of_nat (min u32_max n) :: u32) = min u32_max n"
  by (simp add: unat_of_nat u32_max_def)

lemma cms_estimate_bounds:
  assumes "0 < w" and "0 < d"
  obtains e where "cms_estimate fx key (cms_of fx w d hist) = Some e"
    and "\<And>row. row < d \<Longrightarrow> unat e \<le> min u32_max (cell_hits fx w row (cms_col fx w row key) hist)"
    and "min u32_max (count_list hist key) \<le> unat e"
    and "unat e \<le> length hist"
proof -
  let ?n = "\<lambda>row. min u32_max (cell_hits fx w row (cms_col fx w row key) hist)"
  let ?f = "\<lambda>row. of_nat (?n row) :: u32"
  let ?e = "Min (?f ` {0..<d})"
  have u: "unat (?f row) = ?n row" for row by (rule unat_min_u32_max)
  have le: "unat ?e \<le> ?n row" if "row < d" for row
  proof -
    have "?e \<le> ?f row" using that by (intro Min_le) simp_all
    then show ?thesis by (simp only: word_le_nat_alt u)
  qed
  have "?e \<in> ?f ` {0..<d}" using assms(2) by (intro Min_in) simp_all
  then obtain r where r: "r < d" "?e = ?f r" by auto
  have count: "count_list hist key \<le> cell_hits fx w r (cms_col fx w r key) hist"
    unfolding cell_hits_def by (induction hist) simp_all
  have "min u32_max (count_list hist key) \<le> unat ?e"
    unfolding r(2) u using count by (intro min.mono) simp_all
  moreover have "unat ?e \<le> length hist"
    unfolding r(2) u by (simp add: cell_hits_def le_trans [OF min.cobounded2 length_filter_le])
  ultimately show ?thesis using le cms_estimate_of [OF assms] by (intro that)
qed

subsection \<open>What a user of a frequency sketch may rely on\<close>

text \<open>
  \<open>reports s hist\<close>: the sketch \<open>s\<close> has seen exactly the keys of \<open>hist\<close> since it was last reset.
  The estimate is a number, at least the true count (up to the ceiling \<open>cap\<close> of the counters) and
  at most the number of keys seen.
\<close>

locale freq_sketch =
  fixes reports :: "'s \<Rightarrow> 'k list \<Rightarrow> bool"
    and bump :: "'k \<Rightarrow> 's \<Rightarrow> 's option"
    and est :: "'k \<Rightarrow> 's \<Rightarrow> nat option"
    and reset :: "'s \<Rightarrow> 's"
    and cap :: nat
  assumes bump_reports: "reports s hist \<Longrightarrow> \<exists>s'. bump k s = Some s' \<and> reports s' (hist @ [k])"
    and est_bounds: "reports s hist \<Longrightarrow>
      \<exists>n. est k s = Some n \<and> min cap (count_list hist k) \<le> n \<and> n \<le> length hist"
    and reset_reports: "reports s hist \<Longrightarrow> reports (reset s) []"
begin

lemma bump_then_est:
  assumes "reports s hist"
  obtains s' n where "bump k s = Some s'" "est k s' = Some n" "reports s' (hist @ [k])"
    "min cap (count_list hist k + 1) \<le> n" "n \<le> length hist + 1"
proof -
  obtain s' where s': "bump k s = Some s'" "reports s' (hist @ [k])"
    using bump_reports [OF assms] by blast
  obtain n where "est k s' = Some n" "min cap (count_list (hist @ [k]) k) \<le> n" "n \<le> length (hist @ [k])"
    using est_bounds [OF s'(2)] by blast
  with s' show ?thesis by (intro that) simp_all
qed

text \<open>No false negatives: a key seen \<open>t\<close> times reaches every threshold up to \<open>t\<close>.\<close>

lemma threshold_reached:
  assumes "reports s hist" and "t \<le> count_list hist k" and "t \<le> cap"
  shows "\<exists>n. est k s = Some n \<and> t \<le> n"
  using est_bounds [OF assms(1), of k] assms(2,3) by fastforce

lemma below_threshold:
  assumes "reports s hist" and "length hist < t"
  shows "\<exists>n. est k s = Some n \<and> n < t"
  using est_bounds [OF assms(1), of k] assms(2) by fastforce

end

definition cms_reports :: "hasher \<Rightarrow> CountMinSketch \<Rightarrow> bytes list \<Rightarrow> bool" where
  "cms_reports fx c hist \<longleftrightarrow> (\<exists>w d. 0 < w \<and> 0 < d \<and> c = cms_of fx w d hist)"

interpretation cms: freq_sketch "cms_reports fx" "cms_increment fx"
  "\<lambda>k c. map_option unat (cms_estimate fx k c)" cms_clear u32_max for fx
proof unfold_locales
  fix c hist k
  assume "cms_reports fx c hist"
  then obtain w d where c: "0 < w" "0 < d" "c = cms_of fx w d hist" by (auto simp: cms_reports_def)
  then show "\<exists>c'. cms_increment fx k c = Some c' \<and> cms_reports fx c' (hist @ [k])"
    by (auto simp: cms_increment_of cms_reports_def)
  show "\<exists>n. map_option unat (cms_estimate fx k c) = Some n \<and> min u32_max (count_list hist k) \<le> n \<and> n \<le> length hist"
    by (rule cms_estimate_bounds [OF c(1,2), of fx k hist]) (use c(3) in auto)
next
  fix c hist
  assume "cms_reports fx c hist"
  then show "cms_reports fx (cms_clear c) []" by (metis cms_reports_def cms_clear_of)
qed

lemma cms_reports_new: "0 < w \<Longrightarrow> 0 < d \<Longrightarrow> cms_reports fx (cms_new w d) []"
  using cms_new_of by (auto simp: cms_reports_def)

subsection \<open>Every sequence of increments and clears\<close>

datatype cms_op = Increment bytes | Clear

fun cms_run :: "hasher \<Rightarrow> cms_op list \<Rightarrow> CountMinSketch \<Rightarrow> CountMinSketch option" where
  "cms_run fx [] c = Some c"
| "cms_run fx (Increment k # ops) c = do { c' \<leftarrow> cms_increment fx k c; cms_run fx ops c' }"
| "cms_run fx (Clear # ops) c = cms_run fx ops (cms_clear c)"

text \<open>The keys incremented since the last clear, after the keys \<open>hist\<close>.\<close>

fun since_clear :: "cms_op list \<Rightarrow> bytes list \<Rightarrow> bytes list" where
  "since_clear [] hist = hist"
| "since_clear (Increment k # ops) hist = since_clear ops (hist @ [k])"
| "since_clear (Clear # ops) hist = since_clear ops []"

lemma cms_run_of:
  "0 < w \<Longrightarrow> cms_run fx ops (cms_of fx w d hist) = Some (cms_of fx w d (since_clear ops hist))"
  by (induction fx ops "cms_of fx w d hist" arbitrary: hist rule: cms_run.induct)
    (simp_all add: cms_increment_of cms_clear_of)

lemmas cms_run_new = cms_run_of [where hist = "[]", folded cms_new_of]

lemma since_clear_append: "since_clear (ops @ ops') hist = since_clear ops' (since_clear ops hist)"
  by (induction ops hist rule: since_clear.induct) simp_all

text \<open>
  C22: The promise of the estimate. After any sequence of increments and clears on a sketch
  with at least one row and one column, for every hash function, nothing has panicked and the
  estimate of a key is at least the number of its increments since the last clear (up to the
  largest u32) and at most the number of all increments since then.
\<close>

theorem cms_never_undercounts:
  assumes "0 < w" and "0 < d"
  shows "\<exists>c e. cms_run fx ops (cms_new w d) = Some c \<and> cms_estimate fx key c = Some e \<and>
    min (2 ^ 32 - 1) (count_list (since_clear ops []) key) \<le> unat e \<and> unat e \<le> length (since_clear ops [])"
proof -
  obtain e where "cms_estimate fx key (cms_of fx w d (since_clear ops [])) = Some e"
    "min u32_max (count_list (since_clear ops []) key) \<le> unat e" "unat e \<le> length (since_clear ops [])"
    using cms_estimate_bounds [OF assms, of fx key "since_clear ops []"] by metis
  then show ?thesis using cms_run_new [OF assms(1)] by (auto simp: u32_max_def)
qed

text \<open>
  Where over-counting comes from. When in some row no other key incremented since the last
  clear shares the column of the key, the estimate is exactly the saturated count.
\<close>

theorem cms_exact_without_collision:
  assumes "0 < w" and "row < d"
    and "\<forall>k \<in> set (since_clear ops []). cms_col fx w row k = cms_col fx w row key \<longrightarrow> k = key"
  shows "\<exists>c e. cms_run fx ops (cms_new w d) = Some c \<and> cms_estimate fx key c = Some e \<and>
    unat e = min (2 ^ 32 - 1) (count_list (since_clear ops []) key)"
proof -
  let ?hist = "since_clear ops []"
  have d: "0 < d" using assms(2) by simp
  obtain e where e: "cms_estimate fx key (cms_of fx w d ?hist) = Some e"
    and "unat e \<le> min u32_max (cell_hits fx w row (cms_col fx w row key) ?hist)"
    and "min u32_max (count_list ?hist key) \<le> unat e"
    using cms_estimate_bounds [OF assms(1) d, of fx key ?hist] assms(2) by metis
  moreover have "cell_hits fx w row (cms_col fx w row key) hist = count_list hist key"
    if "\<forall>k \<in> set hist. cms_col fx w row k = cms_col fx w row key \<longrightarrow> k = key" for hist
    using that unfolding cell_hits_def by (induction hist) auto
  then have "cell_hits fx w row (cms_col fx w row key) ?hist = count_list ?hist key"
    using assms(3) by blast
  ultimately have "unat e = min u32_max (count_list ?hist key)" by linarith
  with e show ?thesis using cms_run_new [OF assms(1)] by (auto simp: u32_max_def)
qed

text \<open>
  Clearing forgets everything: whatever was done before, a cleared sketch equals a new
  one.
\<close>

theorem cms_clear_is_new:
  assumes "0 < w"
  shows "cms_run fx (ops @ [Clear]) (cms_new w d) = Some (cms_new w d)"
  using cms_run_new [OF assms, of fx "ops @ [Clear]" d]
  by (simp only: since_clear_append since_clear.simps cms_new_of [of w d fx])

text \<open>A hasher for the examples: the first byte of the key.\<close>

definition first_byte_hasher :: hasher where
  "first_byte_hasher ws = (case ws of [_, _, WriteBytes (b # _)] \<Rightarrow> ucast b | _ \<Rightarrow> 0)"

theorem cms_never_undercounts_witness:
  "\<exists>c e. cms_run first_byte_hasher [Increment [7], Clear, Increment [1], Increment [5], Increment [1]] (cms_new 4 2) = Some c \<and>
     cms_estimate first_byte_hasher [1] c = Some e \<and> 2 \<le> unat e \<and> unat e \<le> 3"
  using cms_never_undercounts [of 4 2 first_byte_hasher
    "[Increment [7], Clear, Increment [1], Increment [5], Increment [1]]" "[1]"]
  by auto

theorem cms_exact_without_collision_witness:
  "\<exists>c e. cms_run first_byte_hasher [Increment [1], Increment [2], Increment [1]] (cms_new 4 1) = Some c \<and>
     cms_estimate first_byte_hasher [1] c = Some e \<and> unat e = 2"
proof -
  have "\<forall>k \<in> set (since_clear [Increment [1], Increment [2], Increment [1]] []).
     cms_col first_byte_hasher 4 0 k = cms_col first_byte_hasher 4 0 [1] \<longrightarrow> k = [1]"
    by (simp add: cms_col_def first_byte_hasher_def hash_slice_def)
  then show ?thesis
    using cms_exact_without_collision [of 4 0 1 "[Increment [1], Increment [2], Increment [1]]" first_byte_hasher "[1]"]
    by auto
qed

theorem cms_clear_is_new_witness:
  "cms_run first_byte_hasher [Increment [1], Increment [2], Clear] (cms_new 4 1) = Some (cms_new 4 1)"
  using cms_clear_is_new [of 4 first_byte_hasher "[Increment [1], Increment [2]]" 1] by simp

end
