(* ===== verification/F64.thy ===== *)
theory F64
  imports Complex_Main "HOL-Library.Log_Nat"
begin

section \<open>Double-precision arithmetic\<close>

text \<open>
  The \<^verbatim>\<open>f64\<close> operations of the cardinality estimate. A finite \<^verbatim>\<open>f64\<close> is a rational number;
  every arithmetic operation and every literal rounds its exact value to the nearest multiple of the unit
  in the last place of a 53-bit significand, ties to even (\<open>fl\<close>). The exponent range is not
  bounded: the values of the engine lie between \<open>2 ^ -64\<close> and \<open>2 ^ 64\<close>, far from underflow and overflow.
  Proofs use only that \<open>fl\<close> has a relative error of at most one in a million (\<open>fl_bounds\<close>).
  \<^verbatim>\<open>f64::ln\<close> has an unspecified precision in Rust and is a parameter, with \<open>ln_accurate\<close> as the
  hypothesis on it.
\<close>

type_synonym f64 = rat

definition round_half_even :: "rat \<Rightarrow> int" where
  "round_half_even x =
     (let n = \<lfloor>x\<rfloor>; r = x - of_int n
      in if r < 1 / 2 \<or> (r = 1 / 2 \<and> even n) then n else n + 1)"

text \<open>The exponent \<open>e\<close> with \<open>2 ^ e \<le> x < 2 ^ (e + 1)\<close>, from the bit lengths of numerator and denominator.\<close>

definition f64_exponent :: "rat \<Rightarrow> int" where
  "f64_exponent x =
     (let (p, q) = quotient_of \<bar>x\<bar>; e = int (floorlog 2 (nat p)) - int (floorlog 2 (nat q))
      in if 2 powi e \<le> \<bar>x\<bar> then e else e - 1)"

definition fl :: "rat \<Rightarrow> f64" where
  "fl x = (if x = 0 then 0
           else (let u = 2 powi (f64_exponent x - 52) in of_int (round_half_even (x / u)) * u))"

definition f64_of_nat :: "nat \<Rightarrow> f64" where
  "f64_of_nat n = fl (of_nat n)"

definition ln_accurate :: "(f64 \<Rightarrow> f64) \<Rightarrow> bool" where
  "ln_accurate ln64 \<longleftrightarrow>
     (\<forall>x. 1 / 2 \<le> x \<and> x \<le> 2 \<longrightarrow> \<bar>real_of_rat (ln64 x) - ln (real_of_rat x)\<bar> \<le> 1 / 1000000)"

subsection \<open>Rounding\<close>

lemma round_half_even_error: "\<bar>of_int (round_half_even x) - x\<bar> \<le> 1 / 2"
proof -
  have "of_int \<lfloor>x\<rfloor> \<le> x" "x < of_int \<lfloor>x\<rfloor> + 1" by linarith+
  then show ?thesis by (auto simp: round_half_even_def Let_def abs_le_iff)
qed

lemma f64_exponent_le:
  assumes "x \<noteq> 0"
  shows "2 powi f64_exponent x \<le> \<bar>x\<bar>"
proof -
  obtain p q where pq: "quotient_of \<bar>x\<bar> = (p, q)" by (cases "quotient_of \<bar>x\<bar>")
  let ?k = "floorlog 2 (nat p)" and ?l = "floorlog 2 (nat q)"
  have q: "0 < q" using quotient_of_denom_pos [OF pq] .
  have x: "\<bar>x\<bar> = of_int p / of_int q" using quotient_of_div [OF pq] .
  have p: "0 < p" using x q assms by (simp add: zero_less_divide_iff flip: zero_less_abs_iff)
  have "2 ^ (?k - 1) \<le> nat p" using floorlog_bounds [of "nat p" 2] p by simp
  then have kp: "(2::rat) powi (int ?k - 1) \<le> of_int p"
  proof -
    assume a: "2 ^ (?k - 1) \<le> nat p"
    have k: "0 < ?k" using p by (simp add: floorlog_def)
    have "(2::rat) powi (int ?k - 1) = 2 ^ (?k - 1)"
      using k by (simp add: power_int_def nat_diff_distrib' of_nat_diff)
    also have "\<dots> = of_nat (2 ^ (?k - 1))" by simp
    also have "\<dots> \<le> of_nat (nat p)" using a by (simp only: of_nat_le_iff)
    also have "\<dots> = of_int p" using p by simp
    finally show ?thesis .
  qed
  have "nat q < 2 ^ ?l" using floorlog_bounds [of "nat q" 2] q by simp
  then have "of_nat (nat q) < (of_nat (2 ^ ?l) :: rat)" by (simp only: of_nat_less_iff)
  then have lq: "of_int q < (2::rat) powi int ?l" using q by simp
  have "(2::rat) powi (int ?k - int ?l - 1) = 2 powi (int ?k - 1) / 2 powi int ?l"
    using power_int_diff [of "2 :: rat" "int ?k - 1" "int ?l"] by (simp add: diff_right_commute)
  also have "\<dots> \<le> of_int p / of_int q"
    using kp lq p q by (intro frac_le) simp_all
  finally show ?thesis unfolding x [symmetric] by (simp add: f64_exponent_def pq Let_def)
qed

lemma fl_error: "\<bar>fl x - x\<bar> \<le> \<bar>x\<bar> / 2 ^ 53"
proof (cases "x = 0")
  case False
  let ?u = "2 powi (f64_exponent x - 52) :: rat"
  have u: "0 < ?u" by simp
  have "fl x - x = (of_int (round_half_even (x / ?u)) - x / ?u) * ?u"
    using False u by (simp add: fl_def Let_def left_diff_distrib)
  then have "\<bar>fl x - x\<bar> = \<bar>of_int (round_half_even (x / ?u)) - x / ?u\<bar> * ?u"
    using u by (simp add: abs_mult)
  also have "\<dots> \<le> 1 / 2 * ?u" using round_half_even_error u by (intro mult_right_mono) simp_all
  also have "\<dots> = 2 powi f64_exponent x / 2 ^ 53" by (simp add: power_int_diff)
  also have "\<dots> \<le> \<bar>x\<bar> / 2 ^ 53" using f64_exponent_le [OF False] by (simp add: divide_right_mono)
  finally show ?thesis .
qed (simp add: fl_def)

lemma fl_bounds:
  assumes "0 \<le> x"
  shows "x * (999999 / 1000000) \<le> fl x" and "fl x \<le> x * (1000001 / 1000000)"
proof -
  have "x / 2 ^ 53 \<le> x / 1000000" using assms by (intro divide_left_mono) simp_all
  then show "x * (999999 / 1000000) \<le> fl x" "fl x \<le> x * (1000001 / 1000000)"
    using fl_error [of x] assms by (simp_all only: abs_le_iff abs_of_nonneg) linarith+
qed

lemma fl_nonneg [simp]: "0 \<le> x \<Longrightarrow> 0 \<le> fl x"
  using fl_bounds(1) [of x] by (simp add: order_trans [rotated])

lemma fl_pos [simp]: "0 < x \<Longrightarrow> 0 < fl x"
  using fl_bounds(1) [of x] by (simp add: less_le_trans [rotated])

lemma fl_ge: "0 \<le> x \<Longrightarrow> a \<le> x * (999999 / 1000000) \<Longrightarrow> a \<le> fl x"
  using fl_bounds(1) [of x] by linarith

lemma fl_le: "0 \<le> x \<Longrightarrow> x * (1000001 / 1000000) \<le> b \<Longrightarrow> fl x \<le> b"
  using fl_bounds(2) [of x] by linarith

end
