(* ===== verification/HLL.thy ===== *)
theory HLL
  imports Prelude CountMin F64
begin

section \<open>The cardinality sketch\<close>

text \<open>
  \<^verbatim>\<open>HyperLogLog\<close> of \<^verbatim>\<open>engine/src/detection/anomaly.rs\<close>, with the same hasher parameter as the
  Count-Min sketch. Shifts by the width or more are masked, as a release build (the one the
  container image runs) does. The estimate is computed in the arithmetic of theory \<open>F64\<close>.
\<close>

subsection \<open>Model\<close>

record HyperLogLog =
  buckets :: "u8 list"
  bucket_bits :: u32

definition shl :: "u64 \<Rightarrow> u32 \<Rightarrow> u64" where
  "shl x n = push_bit (unat n mod 64) x"

definition shr :: "u64 \<Rightarrow> u32 \<Rightarrow> u64" where
  "shr x n = drop_bit (unat n mod 64) x"

definition leading_zeros :: "u64 \<Rightarrow> u32" where
  "leading_zeros x = of_nat (length (takeWhile (\<lambda>i. \<not> bit x i) (rev [0..<64])))"

definition hll_new :: "u32 \<Rightarrow> HyperLogLog" where
  "hll_new b = \<lparr>buckets = replicate (unat (shl 1 b)) 0, bucket_bits = b\<rparr>"

definition hll_add :: "hasher \<Rightarrow> bytes \<Rightarrow> HyperLogLog \<Rightarrow> HyperLogLog option" where
  "hll_add fx key h =
     (let x = fx (hash_slice key);
          bucket = unat (shr x (64 - bucket_bits h));
          rest = shl x (bucket_bits h) OR shl 1 (bucket_bits h - 1);
          rank = ucast (leading_zeros rest) + 1
      in do {
        v \<leftarrow> nth_opt (buckets h) bucket;
        Some (if v < rank then h\<lparr>buckets := (buckets h)[bucket := rank]\<rparr> else h)
      })"

definition hll_estimate :: "(f64 \<Rightarrow> f64) \<Rightarrow> HyperLogLog \<Rightarrow> f64" where
  "hll_estimate ln64 h =
     (let m = f64_of_nat (length (buckets h));
          zero_buckets = f64_of_nat (length (filter (\<lambda>r. r = 0) (buckets h)))
      in if fl (9 / 10) < fl (zero_buckets / m) then fl (m * ln64 (fl (m / zero_buckets)))
         else
           (let alpha = fl (fl (7213 / 10000) / fl (1 + fl (fl (1079 / 1000) / m)));
                total = fold (\<lambda>r acc. fl (acc + 2 powi (- int (unat r)))) (buckets h) 0
            in fl (fl (fl (alpha * m) * m) / total)))"

definition hll_clear :: "HyperLogLog \<Rightarrow> HyperLogLog" where
  "hll_clear h = h\<lparr>buckets := map (\<lambda>_. 0) (buckets h)\<rparr>"

fun hll_add_all :: "hasher \<Rightarrow> bytes list \<Rightarrow> HyperLogLog \<Rightarrow> HyperLogLog option" where
  "hll_add_all fx [] h = Some h"
| "hll_add_all fx (k # ks) h = do { h' \<leftarrow> hll_add fx k h; hll_add_all fx ks h' }"

subsection \<open>The sketch that a set of keys leaves\<close>

definition key_bucket :: "hasher \<Rightarrow> nat \<Rightarrow> bytes \<Rightarrow> nat" where
  "key_bucket fx b key = unat (drop_bit (64 - b) (fx (hash_slice key)))"

definition key_rank :: "hasher \<Rightarrow> nat \<Rightarrow> bytes \<Rightarrow> u8" where
  "key_rank fx b key =
     ucast (leading_zeros (push_bit b (fx (hash_slice key)) OR push_bit (b - 1) 1)) + 1"

text \<open>Each bucket holds the largest rank of the keys that fall in it.\<close>

definition bucket_max :: "hasher \<Rightarrow> nat \<Rightarrow> bytes set \<Rightarrow> nat \<Rightarrow> u8" where
  "bucket_max fx b ks i = Max (insert 0 (key_rank fx b ` {k \<in> ks. key_bucket fx b k = i}))"

definition hll_of :: "hasher \<Rightarrow> nat \<Rightarrow> bytes set \<Rightarrow> HyperLogLog" where
  "hll_of fx b ks =
     \<lparr>buckets = map (bucket_max fx b ks) [0..<2 ^ b],
      bucket_bits = of_nat b\<rparr>"

definition touched :: "hasher \<Rightarrow> nat \<Rightarrow> bytes set \<Rightarrow> nat" where
  "touched fx b ks = card (key_bucket fx b ` ks)"

lemma key_bucket_less:
  assumes "0 < b" and "b < 64"
  shows "key_bucket fx b key < 2 ^ b"
proof -
  have "unat (drop_bit (64 - b) x) < 2 ^ b" for x :: u64
  proof -
    have "unat x < 2 ^ LENGTH(64)" by (rule unsigned_less)
    also have "\<dots> = 2 ^ b * (2 :: nat) ^ (64 - b)" using assms(2) by (simp flip: power_add)
    finally have "unat x div 2 ^ (64 - b) < 2 ^ b" by (simp add: less_mult_imp_div_less)
    then show ?thesis by (subst unat_drop_bit_eq) (simp only: drop_bit_eq_div)
  qed
  then show ?thesis by (simp add: key_bucket_def)
qed

lemma leading_zeros_le:
  assumes "bit x i" and "i < 64"
  shows "unat (leading_zeros x) \<le> 63 - i"
proof -
  let ?P = "\<lambda>i. \<not> bit x i" and ?xs = "rev [0..<64]"
  have "length (takeWhile ?P ?xs) \<le> 63 - i"
  proof (rule ccontr)
    assume "\<not> ?thesis"
    then have l: "63 - i < length (takeWhile ?P ?xs)" by simp
    then have "takeWhile ?P ?xs ! (63 - i) \<in> set (takeWhile ?P ?xs)" by (rule nth_mem)
    from set_takeWhileD [OF this] have "?P (takeWhile ?P ?xs ! (63 - i))" by blast
    moreover have "takeWhile ?P ?xs ! (63 - i) = i"
      using takeWhile_nth [OF l] assms(2) by (simp add: rev_nth)
    ultimately show False using assms(1) by simp
  qed
  then show ?thesis by (simp add: leading_zeros_def unat_of_nat)
qed

text \<open>The guard bit keeps every rank between 1 and \<open>65 - b\<close>, so no bucket that a key falls in is read as empty.\<close>

lemma key_rank_bounds:
  assumes "0 < b" and "b < 64"
  shows "1 \<le> unat (key_rank fx b key)" and "unat (key_rank fx b key) \<le> 65 - b"
proof -
  let ?r = "push_bit b (fx (hash_slice key)) OR push_bit (b - 1) 1 :: u64"
  have "bit ?r (b - 1)" using assms by (auto simp: bit_or_iff bit_push_bit_iff bit_exp_iff)
  then have "unat (leading_zeros ?r) \<le> 63 - (b - 1)" using assms by (intro leading_zeros_le) simp_all
  then have l: "unat (leading_zeros ?r) \<le> 64 - b" using assms by simp
  have "unat (ucast (leading_zeros ?r) + 1 :: u8) = unat (leading_zeros ?r) + 1"
    using l assms by (simp add: unat_word_ariths unsigned_ucast_eq take_bit_eq_mod)
  with l show "1 \<le> unat (key_rank fx b key)" "unat (key_rank fx b key) \<le> 65 - b"
    using assms by (simp_all add: key_rank_def)
qed

lemma hll_of_fields [simp]:
  "length (buckets (hll_of fx b ks)) = 2 ^ b" "bucket_bits (hll_of fx b ks) = of_nat b"
  "i < 2 ^ b \<Longrightarrow> buckets (hll_of fx b ks) ! i = bucket_max fx b ks i"
  by (simp_all add: hll_of_def)

lemma bucket_max_empty [simp]: "bucket_max fx b {} i = 0"
  by (simp add: bucket_max_def)

lemma bucket_max_insert:
  assumes "finite ks"
  shows "bucket_max fx b (insert key ks) i =
    (if i = key_bucket fx b key then max (key_rank fx b key) (bucket_max fx b ks i) else bucket_max fx b ks i)"
proof (cases "i = key_bucket fx b key")
  case True
  then have "{k \<in> insert key ks. key_bucket fx b k = i} = insert key {k \<in> ks. key_bucket fx b k = i}" by auto
  then have "insert 0 (key_rank fx b ` {k \<in> insert key ks. key_bucket fx b k = i}) =
      insert (key_rank fx b key) (insert 0 (key_rank fx b ` {k \<in> ks. key_bucket fx b k = i}))" by auto
  moreover have "finite (insert 0 (key_rank fx b ` {k \<in> ks. key_bucket fx b k = i}))" using assms by simp
  ultimately show ?thesis using True by (simp only: bucket_max_def Max_insert insert_not_empty if_True refl simp_thms)
next
  case False
  then have "{k \<in> insert key ks. key_bucket fx b k = i} = {k \<in> ks. key_bucket fx b k = i}" by auto
  with False show ?thesis by (simp only: bucket_max_def if_False)
qed

lemma unat_bits:
  assumes "0 < b" and "b < 64"
  shows "unat (of_nat b :: u32) mod 64 = b" and "unat (64 - of_nat b :: u32) mod 64 = 64 - b"
    and "unat (of_nat b - 1 :: u32) mod 64 = b - 1"
proof -
  have e: "64 - of_nat b = (of_nat (64 - b) :: u32)" "of_nat b - 1 = (of_nat (b - 1) :: u32)"
    using assms by (subst of_nat_diff; simp)+
  have w: "unat (of_nat n :: u32) mod 64 = n" if "n < 64" for n
    using that by (simp add: unat_of_nat)
  show "unat (of_nat b :: u32) mod 64 = b" "unat (64 - of_nat b :: u32) mod 64 = 64 - b"
    "unat (of_nat b - 1 :: u32) mod 64 = b - 1"
    unfolding e by (rule w, use assms in simp)+
qed

lemma hll_new_of:
  assumes "0 < b" and "b < 64"
  shows "hll_new (of_nat b) = hll_of fx b {}"
proof -
  have "(2 :: nat) ^ b < 2 ^ LENGTH(64)" using assms(2) by (intro power_strict_increasing) simp_all
  then have "unat (push_bit b 1 :: u64) = 2 ^ b"
    by (subst unsigned_push_bit_eq) (simp only: take_bit_eq_mod push_bit_eq_mult unsigned_1 mult_1_left mod_less)
  then have "unat (shl 1 (of_nat b)) = 2 ^ b"
    by (simp only: shl_def unat_bits [OF assms])
  then show ?thesis by (simp add: hll_new_def hll_of_def comp_def map_replicate_const list_eq_iff_nth_eq)
qed

lemma hll_add_of:
  assumes "0 < b" and "b < 64" and "finite ks"
  shows "hll_add fx key (hll_of fx b ks) = Some (hll_of fx b (insert key ks))"
proof -
  let ?h = "hll_of fx b ks" and ?B = "key_bucket fx b key" and ?R = "key_rank fx b key"
  have B: "?B < 2 ^ b" by (rule key_bucket_less [OF assms(1,2)])
  then have v: "nth_opt (buckets ?h) ?B = Some (bucket_max fx b ks ?B)" by (simp add: nth_opt_def)
  have st: "?h\<lparr>buckets := (buckets ?h)[?B := ?R]\<rparr> = hll_of fx b (insert key ks)" if "bucket_max fx b ks ?B < ?R"
    using that by (auto simp: hll_of_def nth_list_update max_def bucket_max_insert [OF assms(3)] intro!: nth_equalityI)
  have eq: "?h = hll_of fx b (insert key ks)" if "\<not> bucket_max fx b ks ?B < ?R"
    using that by (auto simp: hll_of_def max_def bucket_max_insert [OF assms(3)])
  have bu: "unat (shr (fx (hash_slice key)) (64 - bucket_bits ?h)) = ?B"
    by (simp add: shr_def unat_bits [OF assms(1,2)] key_bucket_def)
  have ra: "ucast (leading_zeros (shl (fx (hash_slice key)) (bucket_bits ?h) OR shl 1 (bucket_bits ?h - 1))) + 1 = ?R"
    by (simp only: shl_def unat_bits [OF assms(1,2)] key_rank_def hll_of_fields)
  have "hll_add fx key ?h =
      Some (if bucket_max fx b ks ?B < ?R then ?h\<lparr>buckets := (buckets ?h)[?B := ?R]\<rparr> else ?h)"
    by (simp only: hll_add_def Let_def bu ra v bind.bind_lunit)
  also have "\<dots> = Some (hll_of fx b (insert key ks))"
    using st eq by (cases "bucket_max fx b ks ?B < ?R") (simp_all only: if_True if_False simp_thms)
  finally show ?thesis .
qed

lemma hll_clear_of: "hll_clear (hll_of fx b ks) = hll_of fx b {}"
  by (simp add: hll_clear_def hll_of_def comp_def)

lemma hll_add_all_of:
  assumes "0 < b" and "b < 64" and "finite ks"
  shows "hll_add_all fx keys (hll_of fx b ks) = Some (hll_of fx b (ks \<union> set keys))"
  using assms(3) by (induction keys arbitrary: ks) (simp_all add: hll_add_of [OF assms(1,2)])

text \<open>A bucket is empty exactly when no key fell in it.\<close>

lemma empty_buckets:
  assumes "0 < b" and "b < 64" and "finite ks"
  shows "length (filter (\<lambda>r. r = 0) (buckets (hll_of fx b ks))) = 2 ^ b - touched fx b ks"
proof -
  have z: "bucket_max fx b ks i = 0 \<longleftrightarrow> i \<notin> key_bucket fx b ` ks" for i
  proof
    assume "i \<notin> key_bucket fx b ` ks"
    then have e: "{k \<in> ks. key_bucket fx b k = i} = {}" by auto
    show "bucket_max fx b ks i = 0" by (simp only: bucket_max_def e) simp
  next
    assume m: "bucket_max fx b ks i = 0"
    show "i \<notin> key_bucket fx b ` ks"
    proof
      assume "i \<in> key_bucket fx b ` ks"
      then obtain k where k: "k \<in> ks" "key_bucket fx b k = i" by auto
      then have "key_rank fx b k \<le> bucket_max fx b ks i"
        unfolding bucket_max_def using assms(3) by (intro Max_ge) auto
      with m have "key_rank fx b k = 0" by simp
      then show False using key_rank_bounds(1) [OF assms(1,2), of fx k] by simp
    qed
  qed
  have "length (filter (\<lambda>r. r = 0) (buckets (hll_of fx b ks)))
      = length (filter (\<lambda>i. bucket_max fx b ks i = 0) [0..<2 ^ b])"
    by (simp add: hll_of_def filter_map comp_def)
  also have "\<dots> = card (set (filter (\<lambda>i. bucket_max fx b ks i = 0) [0..<2 ^ b]))"
    by (simp only: distinct_card [OF distinct_filter [OF distinct_upt]])
  also have "set (filter (\<lambda>i. bucket_max fx b ks i = 0) [0..<2 ^ b]) = {0..<2 ^ b} - key_bucket fx b ` ks"
    by (auto simp only: z set_filter set_upt)
  also have "card \<dots> = 2 ^ b - touched fx b ks"
    using key_bucket_less [OF assms(1,2)] assms(3)
    by (subst card_Diff_subset) (auto simp: touched_def)
  finally show ?thesis .
qed

lemma touched_le_card: "finite ks \<Longrightarrow> touched fx b ks \<le> card ks"
  unfolding touched_def by (rule card_image_le)

lemma touched_le_buckets: "0 < b \<Longrightarrow> b < 64 \<Longrightarrow> touched fx b ks \<le> 2 ^ b"
  unfolding touched_def using card_mono [of "{..<2 ^ b}" "key_bucket fx b ` ks"] key_bucket_less by fastforce

subsection \<open>The estimate\<close>

lemma f64_of_nat_bounds:
  "of_nat n * (999999 / 1000000) \<le> f64_of_nat n" "f64_of_nat n \<le> of_nat n * (1000001 / 1000000)"
  unfolding f64_of_nat_def by (intro fl_bounds of_nat_0_le_iff)+

lemma fl_1024: "fl 1024 = 1024"
  by code_simp

lemma f64_1024 [simp]: "f64_of_nat 1024 = 1024"
  by (simp only: f64_of_nat_def of_nat_numeral fl_1024)

text \<open>The rounded sum of \<open>2 ^ - r\<close> over at most 1024 buckets.\<close>

definition harmonic_sum :: "u8 list \<Rightarrow> f64 \<Rightarrow> f64" where
  "harmonic_sum rs acc = fold (\<lambda>r acc. fl (acc + 2 powi (- int (unat r)))) rs acc"

lemma harmonic_sum_bounds:
  assumes "0 \<le> acc" and "acc \<le> of_nat n * (1 + 1 / 100)" and "n + length rs \<le> 1024"
  shows "harmonic_sum rs acc \<le> of_nat (n + length rs) * (1 + 1 / 100) \<and> 0 \<le> harmonic_sum rs acc \<and>
    (rs \<noteq> [] \<or> 0 < acc \<longrightarrow> 0 < harmonic_sum rs acc)"
  using assms
proof (induction rs arbitrary: acc n)
  case (Cons r rs)
  let ?t = "2 powi (- int (unat r)) :: rat"
  let ?acc = "fl (acc + ?t)"
  have t: "0 < ?t" "?t \<le> 1" by (simp_all add: power_int_minus inverse_le_1_iff)
  have n: "of_nat n \<le> (1024 :: rat)" using Cons.prems by simp
  have "?acc \<le> (acc + ?t) * (1000001 / 1000000)" using Cons.prems t by (intro fl_bounds(2)) simp
  also have "\<dots> \<le> (of_nat n * (1 + 1 / 100) + 1) * (1000001 / 1000000)"
    using Cons.prems t by (intro mult_right_mono add_mono) simp_all
  also have "\<dots> \<le> of_nat (Suc n) * (1 + 1 / 100)" using n by simp
  finally have le: "?acc \<le> of_nat (Suc n) * (1 + 1 / 100)" .
  have pos: "0 < ?acc" using Cons.prems(1) t(1) by (intro fl_pos add_nonneg_pos)
  have len: "Suc n + length rs \<le> 1024" using Cons.prems by simp
  have step: "harmonic_sum (r # rs) acc = harmonic_sum rs ?acc" by (simp add: harmonic_sum_def)
  from Cons.IH [OF less_imp_le [OF pos] le len] pos show ?case by (simp add: step)
qed (simp add: harmonic_sum_def)

text \<open>The raw estimator never reports less than 700.\<close>

lemma raw_estimate_ge:
  assumes "length rs = 1024"
  shows "700 \<le> fl (fl (fl (fl (fl (7213 / 10000) / fl (1 + fl (fl (1079 / 1000) / 1024))) * 1024) * 1024) / harmonic_sum rs 0)"
proof -
  let ?s = "harmonic_sum rs 0"
  have ne: "rs \<noteq> []" using assms by auto
  have s: "0 < ?s" "?s \<le> 1024 * (1 + 1 / 100)"
    using harmonic_sum_bounds [of 0 0 rs] assms ne by simp_all
  let ?d = "fl (1 + fl (fl (1079 / 1000) / 1024))"
  have a1: "fl (1079 / 1000) \<le> 1080 / 1000" by (rule fl_le) simp_all
  have a2: "fl (fl (1079 / 1000) / 1024) \<le> 11 / 10000" by (rule fl_le) (use a1 in simp_all)
  have a3: "0 \<le> fl (fl (1079 / 1000) / 1024)" by (intro fl_nonneg divide_nonneg_pos) simp_all
  have d: "?d \<le> 1002 / 1000" by (rule fl_le) (use a2 a3 in simp_all)
  have d0: "0 < ?d" using a3 by (intro fl_pos add_pos_nonneg) simp_all
  have n: "7212 / 10000 \<le> fl (7213 / 10000)" by (rule fl_ge) simp_all
  have q: "719 / 1000 \<le> fl (7213 / 10000) / ?d"
    using n d by (simp only: pos_le_divide_eq [OF d0])
  then have a: "718 / 1000 \<le> fl (fl (7213 / 10000) / ?d)" by (intro fl_ge) simp_all
  then have b: "718 / 1000 * 1024 - 1 \<le> fl (fl (fl (7213 / 10000) / ?d) * 1024)" by (intro fl_ge) simp_all
  then have c: "750000 \<le> fl (fl (fl (fl (7213 / 10000) / ?d) * 1024) * 1024)"
    by (intro fl_ge) simp_all
  have "701 \<le> fl (fl (fl (fl (7213 / 10000) / ?d) * 1024) * 1024) / ?s"
  proof (subst pos_le_divide_eq [OF s(1)])
    have "701 * ?s \<le> 750000" using s(2) by simp
    then show "701 * ?s \<le> fl (fl (fl (fl (7213 / 10000) / ?d) * 1024) * 1024)" using c by (rule order_trans)
  qed
  then show ?thesis by (intro fl_ge) simp_all
qed

text \<open>Which formula is used: fewer than 103 of the 1024 buckets touched means linear counting.\<close>

lemma sparse_iff:
  assumes "z \<le> 1024"
  shows "fl (9 / 10) < fl (f64_of_nat z / 1024) \<longleftrightarrow> 922 \<le> z"
proof
  assume "922 \<le> z"
  then have z: "922 \<le> (of_nat z :: rat)" by simp
  have "921999 / 1000 \<le> of_nat z * (999999 / 1000000 :: rat)" using z by simp
  with f64_of_nat_bounds(1) [of z] have "921999 / 1000 \<le> f64_of_nat z" by linarith
  then have "900385 / 1000000 \<le> fl (f64_of_nat z / 1024)" by (intro fl_ge) simp_all
  moreover have "fl (9 / 10) \<le> 900001 / 1000000" by (rule fl_le) simp_all
  ultimately show "fl (9 / 10) < fl (f64_of_nat z / 1024)" by linarith
next
  assume l: "fl (9 / 10) < fl (f64_of_nat z / 1024)"
  show "922 \<le> z"
  proof (rule ccontr)
    assume "\<not> 922 \<le> z"
    then have z: "of_nat z \<le> (921 :: rat)" by simp
    with f64_of_nat_bounds(2) [of z] have "f64_of_nat z \<le> 922" by simp
    moreover have "0 \<le> f64_of_nat z" by (simp add: f64_of_nat_def)
    moreover have "f64_of_nat z \<le> 921001 / 1000" using z f64_of_nat_bounds(2) [of z] by simp
    ultimately have "fl (f64_of_nat z / 1024) \<le> 8995 / 10000" by (intro fl_le) simp_all
    moreover have "8999 / 10000 \<le> fl (9 / 10)" by (rule fl_ge) simp_all
    ultimately show False using l by linarith
  qed
qed

text \<open>Linear counting reports 25 or more exactly from 25 touched buckets on.\<close>

lemma ln_lower: "1 - 1 / x \<le> ln x" if "0 < x" for x :: real
  using ln_le_minus_one [of "1 / x"] that by (simp add: ln_div)

lemma linear_count_le:
  assumes ln: "ln_accurate ln64" and z: "1000 \<le> z" "z \<le> 1024"
    and r: "1024 * (1 + 1 / 100000) \<le> (1 + r) * of_nat z" "0 \<le> r"
  shows "fl (1024 * ln64 (fl (1024 / f64_of_nat z))) \<le> 1025 * (r + 1 / 500000)"
proof -
  let ?x = "fl (1024 / f64_of_nat z)"
  have z': "1000 \<le> (of_nat z :: rat)" "(of_nat z :: rat) \<le> 1024" using z by simp_all
  have f: "of_nat z * (999999 / 1000000) \<le> f64_of_nat z" "f64_of_nat z \<le> 1025" "0 < f64_of_nat z"
    using f64_of_nat_bounds [of z] z' by (simp, simp, linarith)
  have "1024 * (1000001 / 1000000) \<le> (1 + r) * (of_nat z * (999999 / 1000000))" using r z' by (simp add: field_simps)
  also have "\<dots> \<le> (1 + r) * f64_of_nat z" using f r by (intro mult_left_mono) simp_all
  finally have "1024 / f64_of_nat z * (1000001 / 1000000) \<le> 1 + r" using f by (simp add: field_simps)
  then have x1: "?x \<le> 1 + r" using f by (intro fl_le) simp_all
  have "1024 / f64_of_nat z \<le> 1024 / 998" using f z' by (intro divide_left_mono) simp_all
  then have x3: "?x \<le> 2" using f by (intro fl_le) simp_all
  have "1024 / 1025 \<le> 1024 / f64_of_nat z" using f by (intro divide_left_mono) simp_all
  then have x2: "1 / 2 \<le> ?x" using f by (intro fl_ge) simp_all
  have x1': "real_of_rat ?x \<le> 1 + real_of_rat r" using x1 by (metis of_rat_less_eq of_rat_add of_rat_1)
  have "0 < real_of_rat ?x" using x2 by simp
  then have "ln (real_of_rat ?x) \<le> real_of_rat r" using ln_le_minus_one [of "real_of_rat ?x"] x1' by linarith
  moreover have "\<bar>real_of_rat (ln64 ?x) - ln (real_of_rat ?x)\<bar> \<le> 1 / 1000000"
    using ln x2 x3 by (simp add: ln_accurate_def)
  ultimately have "real_of_rat (ln64 ?x) \<le> real_of_rat r + 1 / 1000000" by linarith
  also have "\<dots> = real_of_rat (r + 1 / 1000000)" by (simp add: of_rat_add of_rat_divide)
  finally have l: "ln64 ?x \<le> r + 1 / 1000000" by (simp only: of_rat_less_eq)
  show ?thesis
  proof (cases "0 \<le> ln64 ?x")
    case True
    then show ?thesis using l r by (intro fl_le) (simp_all add: field_simps)
  next
    case False
    then have "1024 * ln64 ?x \<le> 0" by simp
    moreover have "fl y \<le> 0" if "y \<le> 0" for y using fl_error [of y] that by (simp add: abs_le_iff field_simps)
    ultimately have "fl (1024 * ln64 ?x) \<le> 0" by blast
    then show ?thesis using r by simp
  qed
qed

lemma linear_count_low:
  assumes ln: "ln_accurate ln64" and z: "1000 \<le> z" "z \<le> 1024"
  shows "fl (1024 * ln64 (fl (1024 / f64_of_nat z))) < 25"
proof -
  have "1000 \<le> (of_nat z :: rat)" using z by simp
  then have "1024 * (1 + 1 / 100000) \<le> (1 + 24011 / 1000000) * (of_nat z :: rat)" by simp
  from linear_count_le [OF assms this] show ?thesis by simp
qed

lemma linear_count_high:
  assumes ln: "ln_accurate ln64" and z: "922 \<le> z" "z \<le> 999"
  shows "25 \<le> fl (1024 * ln64 (fl (1024 / f64_of_nat z)))"
proof -
  let ?x = "fl (1024 / f64_of_nat z)"
  have z': "922 \<le> (of_nat z :: rat)" "(of_nat z :: rat) \<le> 999" using z by simp_all
  have f: "921 \<le> f64_of_nat z" "f64_of_nat z \<le> 999001 / 1000"
    using f64_of_nat_bounds [of z] z' by (linarith, simp)
  have "1024 / (999001 / 1000) \<le> 1024 / f64_of_nat z" using f by (intro divide_left_mono) simp_all
  then have x1: "(10124 / 10000) ^ 2 \<le> ?x" using f by (intro fl_ge) (simp_all add: power2_eq_square)
  have "1024 / f64_of_nat z \<le> 1024 / 921" using f by (intro divide_left_mono) simp_all
  then have x2: "?x \<le> 2" using f by (intro fl_le) simp_all
  have x0: "0 < ?x" by (rule less_le_trans [OF _ x1]) simp
  have x1': "(10124 / 10000) ^ 2 \<le> real_of_rat ?x"
    using x1 by (metis of_rat_less_eq of_rat_divide of_rat_numeral_eq of_rat_power)
  have "2 * (1 - 1 / (10124 / 10000)) \<le> 2 * ln (10124 / 10000 :: real)"
    using ln_lower [of "10124 / 10000"] by simp
  also have "\<dots> = ln ((10124 / 10000) ^ 2)" by (subst ln_realpow) simp_all
  also have "\<dots> \<le> ln (real_of_rat ?x)"
    using x1' x0 by (subst ln_le_cancel_iff) simp_all
  finally have "24495 / 1000000 \<le> ln (real_of_rat ?x)" by simp
  moreover have "1 / 2 \<le> ?x" using x1 by (simp add: power2_eq_square)
  with ln x2 have "\<bar>real_of_rat (ln64 ?x) - ln (real_of_rat ?x)\<bar> \<le> 1 / 1000000"
    by (simp add: ln_accurate_def)
  ultimately have "24490 / 1000000 \<le> real_of_rat (ln64 ?x)" by linarith
  then have l: "24490 / 1000000 \<le> ln64 ?x" by (metis of_rat_less_eq of_rat_divide of_rat_numeral_eq)
  then show ?thesis by (intro fl_ge) simp_all
qed

lemma hll_estimate_unfold:
  assumes "length (buckets h) = 1024"
  shows "hll_estimate ln64 h =
    (let z = length (filter (\<lambda>r. r = 0) (buckets h))
     in if 922 \<le> z then fl (1024 * ln64 (fl (1024 / f64_of_nat z)))
        else fl (fl (fl (fl (fl (7213 / 10000) / fl (1 + fl (fl (1079 / 1000) / 1024))) * 1024) * 1024)
               / harmonic_sum (buckets h) 0))"
proof -
  have "length (filter (\<lambda>r. r = 0) (buckets h)) \<le> 1024"
    using assms by (metis length_filter_le)
  from sparse_iff [OF this] show ?thesis
    unfolding hll_estimate_def Let_def assms harmonic_sum_def f64_1024 by simp
qed

lemma hll_estimate_of:
  assumes "ln_accurate ln64" and "finite ks"
  shows "25 \<le> hll_estimate ln64 (hll_of fx 10 ks) \<longleftrightarrow> 25 \<le> touched fx 10 ks"
    and "103 \<le> touched fx 10 ks \<Longrightarrow> 700 \<le> hll_estimate ln64 (hll_of fx 10 ks)"
proof -
  let ?h = "hll_of fx 10 ks" and ?t = "touched fx 10 ks"
  have z: "length (filter (\<lambda>r. r = 0) (buckets ?h)) = 1024 - ?t"
    using empty_buckets [of 10 ks fx] assms(2) by simp
  have t: "?t \<le> 1024" using touched_le_buckets [of 10 fx ks] by simp
  have l: "length (buckets ?h) = 1024" by simp
  note e = hll_estimate_unfold [OF l, of ln64, unfolded z Let_def]
  show raw: "700 \<le> hll_estimate ln64 ?h" if "103 \<le> ?t"
  proof -
    have "\<not> 922 \<le> 1024 - ?t" using that by simp
    then show ?thesis using raw_estimate_ge [OF l] by (simp only: e if_False)
  qed
  show "25 \<le> hll_estimate ln64 ?h \<longleftrightarrow> 25 \<le> ?t"
  proof (cases "103 \<le> ?t")
    case True
    then show ?thesis using raw by linarith
  next
    case False
    then have "922 \<le> 1024 - ?t" using t by simp
    then have e': "hll_estimate ln64 ?h = fl (1024 * ln64 (fl (1024 / f64_of_nat (1024 - ?t))))"
      by (simp only: e if_True)
    show ?thesis
    proof (cases "25 \<le> ?t")
      case True
      then have "25 \<le> fl (1024 * ln64 (fl (1024 / f64_of_nat (1024 - ?t))))"
        using False by (intro linear_count_high [OF assms(1)]) simp_all
      with True show ?thesis by (simp only: e' simp_thms)
    next
      case False
      then have "fl (1024 * ln64 (fl (1024 / f64_of_nat (1024 - ?t)))) < 25"
        by (intro linear_count_low [OF assms(1)]) simp_all
      with False show ?thesis unfolding e' by auto
    qed
  qed
qed

lemma hll_estimate_one:
  assumes "ln_accurate ln64"
  shows "hll_estimate ln64 (hll_of fx 10 {key}) < 5"
proof -
  let ?h = "hll_of fx 10 {key}" and ?z = "1024 - touched fx 10 {key}"
  have z: "length (filter (\<lambda>r. r = 0) (buckets ?h)) = ?z"
    using empty_buckets [of 10 "{key}" fx] by simp
  have l: "length (buckets ?h) = 1024" by simp
  have t: "1023 \<le> ?z" "?z \<le> 1024" using touched_le_card [of "{key}" fx 10] by simp_all
  then have "1023 \<le> (of_nat ?z :: rat)" by linarith
  moreover have "1024 * (1 + 1 / 100000) \<le> (1 + 1 / 1000) * x" if "1023 \<le> x" for x :: rat using that by simp
  ultimately have "1024 * (1 + 1 / 100000) \<le> (1 + 1 / 1000) * (of_nat ?z :: rat)" by blast
  from linear_count_le [OF assms _ t(2) this] t(1)
  have "fl (1024 * ln64 (fl (1024 / f64_of_nat ?z))) \<le> 1025 * (1 / 1000 + 1 / 500000)" by simp
  moreover have "hll_estimate ln64 ?h = fl (1024 * ln64 (fl (1024 / f64_of_nat ?z)))"
    using t(1) by (simp only: hll_estimate_unfold [OF l, of ln64, unfolded z Let_def]) simp
  ultimately show ?thesis by simp
qed

text \<open>The sketch after a sequence of additions.\<close>

lemma hll_run:
  assumes "0 < b" and "b < 64"
  shows "hll_add_all fx keys (hll_new (of_nat b)) = Some (hll_of fx b (set keys))"
  using hll_add_all_of [OF assms, of "{}" fx keys] by (simp add: hll_new_of [OF assms, of fx])

text \<open>
  C34: The sketch is a function of the set of keys. Additions never panic for 1 to 63 bucket
  bits; two sequences of additions with the same set of keys, whatever their order and
  repetitions, leave equal sketches; and clearing such a sketch gives a new one.
\<close>

theorem hll_insensitive_to_order_and_repetition:
  assumes "0 < b" and "b < 64" and "set keys = set keys'"
  shows "\<exists>h. hll_add_all fx keys (hll_new (of_nat b)) = Some h \<and>
    hll_add_all fx keys' (hll_new (of_nat b)) = Some h \<and> hll_clear h = hll_new (of_nat b)"
  using hll_run [OF assms(1,2), of fx keys] hll_run [OF assms(1,2), of fx keys']
  by (simp add: assms(3) hll_clear_of hll_new_of [OF assms(1,2), symmetric])

text \<open>
  C23: The scan threshold is exact in touched buckets. With 1024 buckets, for every hash
  function and every accurate logarithm, in rounded double-precision arithmetic, the estimate
  reaches 25 exactly when the keys fall into at least 25 different buckets; so it never
  reaches 25 with fewer than 25 distinct keys.
\<close>

theorem hll_scan_threshold:
  assumes "ln_accurate ln64"
  shows "\<exists>h. hll_add_all fx keys (hll_new 10) = Some h \<and>
    (25 \<le> hll_estimate ln64 h \<longleftrightarrow> 25 \<le> card (key_bucket fx 10 ` set keys)) \<and>
    (25 \<le> hll_estimate ln64 h \<longrightarrow> 25 \<le> card (set keys))"
  using hll_run [of 10 fx keys] hll_estimate_of(1) [OF assms, of "set keys" fx]
    touched_le_card [of "set keys" fx 10]
  by (auto simp: touched_def)

text \<open>
  C35: The switch of formulas jumps. As soon as the keys touch 103 of the 1024 buckets, a
  cardinality for which linear counting would be accurate, the raw formula takes over and
  reports at least 700, which 103 distinct keys can bring about.
\<close>

theorem hll_overestimates_from_103_buckets:
  assumes "ln_accurate ln64" and "103 \<le> card (key_bucket fx 10 ` set keys)"
  shows "\<exists>h. hll_add_all fx keys (hll_new 10) = Some h \<and> 700 \<le> hll_estimate ln64 h"
  using hll_run [of 10 fx keys] hll_estimate_of(2) [OF assms(1), of "set keys" fx] assms(2)
  by (simp add: touched_def)

subsection \<open>Examples\<close>

text \<open>A logarithm rounded to nine decimal places, and a hasher that spreads one-byte keys over the buckets.\<close>

definition ln_rounded :: "f64 \<Rightarrow> f64" where
  "ln_rounded x = of_int (round (ln (real_of_rat x) * 1000000000)) / 1000000000"

lemma ln_rounded_accurate: "ln_accurate ln_rounded"
proof -
  have "\<bar>real_of_rat (ln_rounded x) - ln (real_of_rat x)\<bar> \<le> 1 / 1000000" for x
  proof -
    let ?y = "ln (real_of_rat x)"
    have "real_of_rat (ln_rounded x) = of_int (round (?y * 1000000000)) / 1000000000"
      by (simp add: ln_rounded_def of_rat_divide)
    moreover have "\<bar>of_int (round (?y * 1000000000)) - ?y * 1000000000\<bar> \<le> 1 / 2"
      by (rule of_int_round_abs_le)
    ultimately show ?thesis by linarith
  qed
  then show ?thesis by (simp add: ln_accurate_def)
qed

definition top_byte_hasher :: hasher where
  "top_byte_hasher ws = (case ws of [_, WriteBytes (b # _)] \<Rightarrow> push_bit 54 (ucast b) | _ \<Rightarrow> 0)"

lemma key_bucket_top_byte: "key_bucket top_byte_hasher 10 [b] = unat b"
proof -
  have "drop_bit 54 (push_bit 54 (ucast b :: u64)) = ucast b"
  proof (rule bit_word_eqI)
    fix n
    show "bit (drop_bit 54 (push_bit 54 (ucast b :: u64))) n \<longleftrightarrow> bit (ucast b :: u64) n" if "n < LENGTH(64)"
      using bit_imp_le_length [of b n]
      by (auto simp: bit_drop_bit_eq bit_push_bit_iff bit_ucast_iff)
  qed
  moreover from unsigned_less [of b, where 'a = nat] have "unat b < 18446744073709551616" by simp
  ultimately show ?thesis
    by (simp add: key_bucket_def top_byte_hasher_def hash_slice_def unsigned_ucast_eq take_bit_eq_mod)
qed

definition example_keys :: "nat \<Rightarrow> bytes list" where
  "example_keys n = map (\<lambda>i. [of_nat i]) [0..<n]"

lemma example_keys_buckets:
  assumes "n \<le> 256"
  shows "card (key_bucket top_byte_hasher 10 ` set (example_keys n)) = n"
proof -
  have "key_bucket top_byte_hasher 10 ` set (example_keys n) = (\<lambda>i. i) ` {0..<n}"
    using assms unfolding example_keys_def by (force simp: key_bucket_top_byte unat_of_nat image_image)
  then show ?thesis by simp
qed

theorem hll_insensitive_to_order_and_repetition_witness:
  "\<exists>h. hll_add_all top_byte_hasher [[1], [2], [1]] (hll_new (of_nat 10)) = Some h \<and>
     hll_add_all top_byte_hasher [[2], [1]] (hll_new (of_nat 10)) = Some h \<and> hll_clear h = hll_new (of_nat 10)"
  by (rule hll_insensitive_to_order_and_repetition) auto

theorem hll_scan_threshold_witness:
  "\<exists>h. hll_add_all top_byte_hasher (example_keys 25) (hll_new 10) = Some h \<and> 25 \<le> hll_estimate ln_rounded h"
  using hll_scan_threshold [OF ln_rounded_accurate, of top_byte_hasher "example_keys 25"]
    example_keys_buckets [of 25] by auto

theorem hll_overestimates_from_103_buckets_witness:
  "card (set (example_keys 103)) = 103 \<and>
   (\<exists>h. hll_add_all top_byte_hasher (example_keys 103) (hll_new 10) = Some h \<and> 700 \<le> hll_estimate ln_rounded h)"
proof -
  have b: "card (key_bucket top_byte_hasher 10 ` set (example_keys 103)) = 103" by (rule example_keys_buckets) simp
  have "card (set (example_keys 103)) \<le> 103"
    using card_length [of "example_keys 103"] by (simp add: example_keys_def)
  moreover have "103 \<le> card (set (example_keys 103))"
    using card_image_le [of "set (example_keys 103)" "key_bucket top_byte_hasher 10"] b by simp
  ultimately show ?thesis
    using hll_overestimates_from_103_buckets [OF ln_rounded_accurate, of top_byte_hasher "example_keys 103"] b
    by simp
qed

end
