(* ===== verification/Detector.thy ===== *)
theory Detector
  imports Models
begin

section \<open>What the pipeline expects of a detector\<close>

text \<open>
  The three detectors of \<^verbatim>\<open>engine/src/detection\<close> share a contract that no Rust trait spells out:
  a call per event, never a panic, alerts that describe the event that raised them under the
  detector's own kind, and alert ids that count up from the detector's counter. The locale
  \<open>event_detector\<close> states it; the detectors interpret it and the workers rely on it.
\<close>

text \<open>The alerts of a run of a step function over a list of inputs.\<close>

fun detector_run :: "('i \<Rightarrow> 's \<Rightarrow> ('s \<times> Alert list) option) \<Rightarrow> 'i list \<Rightarrow> 's \<Rightarrow> ('s \<times> Alert list) option" where
  "detector_run step [] s = Some (s, [])"
| "detector_run step (i # is) s = do {
     (s', als) \<leftarrow> step i s;
     (s'', als') \<leftarrow> detector_run step is s';
     Some (s'', als @ als')
   }"

lemma detector_run_append:
  "detector_run step (xs @ ys) s = do {
     (s', als) \<leftarrow> detector_run step xs s; (s'', als') \<leftarrow> detector_run step ys s'; Some (s'', als @ als') }"
proof (induction xs arbitrary: s)
  case Nil
  show ?case by (cases "detector_run step ys s") auto
next
  case (Cons x xs)
  show ?case by (cases "step x s") (auto simp: Cons.IH split: bind_splits)
qed

lemma detector_run_splitE:
  assumes "detector_run step (xs @ ys) s = Some (s', als)"
  obtains s1 als1 als2 where "detector_run step xs s = Some (s1, als1)" and "detector_run step ys s1 = Some (s', als2)"
    and "als = als1 @ als2"
  using assms by (auto simp: detector_run_append split: bind_splits)

definition describes :: "DetectorKind \<Rightarrow> NetworkEvent \<Rightarrow> Alert \<Rightarrow> bool" where
  "describes k e a \<longleftrightarrow> detector a = k \<and> alert_timestamp_ms a = timestamp_ms e \<and>
     alert_src_ip a = src_ip_str e \<and> alert_dst_ip a = dst_ip_str e"

text \<open>\<open>ids_from n als\<close>: the alerts carry the ids \<open>n\<close>, \<open>n + 1\<close>, ... of a wrapping 64-bit counter.\<close>

fun ids_from :: "u64 \<Rightarrow> Alert list \<Rightarrow> bool" where
  "ids_from n [] \<longleftrightarrow> True"
| "ids_from n (a # als) \<longleftrightarrow> alert_id a = n \<and> ids_from (n + 1) als"

lemma ids_from_append: "ids_from n (als @ als') \<longleftrightarrow> ids_from n als \<and> ids_from (n + of_nat (length als)) als'"
  by (induction als arbitrary: n) (simp_all add: ac_simps)

lemma ids_from_map: "ids_from n als \<longleftrightarrow> map alert_id als = map (\<lambda>i. n + of_nat i) [0..<length als]"
proof (induction als rule: rev_induct)
  case (snoc a als)
  then show ?case by (auto simp: ids_from_append)
qed simp

locale event_detector =
  fixes inv :: "'s \<Rightarrow> bool"
    and step :: "'i \<Rightarrow> 's \<Rightarrow> ('s \<times> Alert list) option"
    and event :: "'i \<Rightarrow> NetworkEvent"
    and counter :: "'s \<Rightarrow> u64"
    and kind :: DetectorKind
  assumes step_returns: "inv s \<Longrightarrow> \<exists>s' als. step i s = Some (s', als)"
    and step_inv: "inv s \<Longrightarrow> step i s = Some (s', als) \<Longrightarrow> inv s'"
    and step_describes: "inv s \<Longrightarrow> step i s = Some (s', als) \<Longrightarrow> a \<in> set als \<Longrightarrow> describes kind (event i) a"
    and step_ids: "inv s \<Longrightarrow> step i s = Some (s', als) \<Longrightarrow>
      ids_from (counter s) als \<and> counter s' = counter s + of_nat (length als)"
begin

lemma run_returns:
  assumes "inv s"
  obtains s' als where "detector_run step is s = Some (s', als)" and "inv s'"
    and "ids_from (counter s) als" and "counter s' = counter s + of_nat (length als)"
    and "\<forall>a \<in> set als. \<exists>i \<in> set is. describes kind (event i) a"
proof -
  have "\<exists>s' als. detector_run step is s = Some (s', als) \<and> inv s' \<and> ids_from (counter s) als \<and>
      counter s' = counter s + of_nat (length als) \<and> (\<forall>a \<in> set als. \<exists>i \<in> set is. describes kind (event i) a)"
    using assms
  proof (induction "is" arbitrary: s)
    case (Cons i "is")
    obtain s1 als where s1: "step i s = Some (s1, als)" using step_returns [OF Cons.prems] by blast
    obtain s2 als' where s2: "detector_run step is s1 = Some (s2, als')" "inv s2" "ids_from (counter s1) als'"
        "counter s2 = counter s1 + of_nat (length als')" "\<forall>a \<in> set als'. \<exists>i \<in> set is. describes kind (event i) a"
      using Cons.IH [OF step_inv [OF Cons.prems s1]] by blast
    have ids: "ids_from (counter s) als" "counter s1 = counter s + of_nat (length als)"
      using step_ids [OF Cons.prems s1] by simp_all
    have "\<forall>a \<in> set (als @ als'). \<exists>j \<in> set (i # is). describes kind (event j) a"
      using step_describes [OF Cons.prems s1] s2(5) by auto
    with s1 s2 ids show ?case
      by (intro exI [of _ s2] exI [of _ "als @ als'"]) (simp add: ids_from_append add.assoc)
  qed simp
  then show ?thesis using that by blast
qed

end

end
