(* ===== verification/Anomaly.thy ===== *)
theory Anomaly
  imports Models CountMin HLL Detector
begin

section \<open>The windowed anomaly detector\<close>

text \<open>
  \<^verbatim>\<open>WindowedAnomalyDetector\<close> of \<^verbatim>\<open>engine/src/detection/anomaly.rs\<close>: SYN-flood and port-scan
  alerts from the two sketches, reset on a fixed window. The clock is read twice per event, once
  for \<^verbatim>\<open>elapsed\<close> and once for the new window start; both readings are arguments, and nothing is
  assumed about them. \<^verbatim>\<open>HashMap\<close> and \<^verbatim>\<open>HashSet\<close> are a map and a set.
\<close>

text \<open>\<^verbatim>\<open>{:.0}\<close> of an \<^verbatim>\<open>f64\<close>: the nearest integer, ties to even.\<close>

definition fmt_f64_0 :: "f64 \<Rightarrow> string" where
  "fmt_f64_0 x = (if x < 0 then ''-'' else []) @ show_nat (nat (round_half_even \<bar>x\<bar>))"

subsection \<open>Model\<close>

record WindowedAnomalyDetector =
  window :: duration
  window_start :: instant
  syn_counts :: CountMinSketch
  port_cardinality :: "u32 \<rightharpoonup> HyperLogLog"
  syn_flood_threshold :: u32
  port_scan_threshold :: f64
  alerted_flood_this_window :: "u32 set"
  alerted_scan_this_window :: "u32 set"
  anomaly_next_id :: u64

definition anomaly_new :: "instant \<Rightarrow> duration \<Rightarrow> WindowedAnomalyDetector" where
  "anomaly_new now w =
     \<lparr>window = w, window_start = now, syn_counts = cms_new 2048 4, port_cardinality = Map.empty,
      syn_flood_threshold = 50, port_scan_threshold = 25,
      alerted_flood_this_window = {}, alerted_scan_this_window = {}, anomaly_next_id = 1\<rparr>"

definition maybe_roll_window :: "instant \<Rightarrow> instant \<Rightarrow> WindowedAnomalyDetector \<Rightarrow> WindowedAnomalyDetector" where
  "maybe_roll_window now later d =
     (if window d \<le> now - window_start d then
        d\<lparr>syn_counts := cms_clear (syn_counts d), port_cardinality := Map.empty,
          alerted_flood_this_window := {}, alerted_scan_this_window := {}, window_start := later\<rparr>
      else d)"

definition anomaly_alert ::
    "WindowedAnomalyDetector \<Rightarrow> NetworkEvent \<Rightarrow> string \<Rightarrow> Severity \<Rightarrow> string \<Rightarrow> WindowedAnomalyDetector \<times> Alert" where
  "anomaly_alert d e rule sev text =
     (d\<lparr>anomaly_next_id := anomaly_next_id d + 1\<rparr>,
      \<lparr>alert_id = anomaly_next_id d, alert_timestamp_ms = timestamp_ms e, rule_name = rule,
       severity = sev, alert_src_ip = src_ip_str e, alert_dst_ip = dst_ip_str e, detail = text,
       detector = Anomaly\<rparr>)"

text \<open>The two halves of \<open>observe\<close>: lines 228-247 and lines 249-270.\<close>

definition observe_syn ::
    "hasher \<Rightarrow> NetworkEvent \<Rightarrow> WindowedAnomalyDetector \<Rightarrow> (WindowedAnomalyDetector \<times> Alert list) option" where
  "observe_syn fx e d =
     (let key = u32_to_be_bytes (src_ip e)
      in if is_syn e then do {
           c \<leftarrow> cms_increment fx key (syn_counts d);
           est \<leftarrow> cms_estimate fx key c;
           let d = d\<lparr>syn_counts := c\<rparr>;
           Some (if syn_flood_threshold d \<le> est \<and> src_ip e \<notin> alerted_flood_this_window d then
                   (let d = d\<lparr>alerted_flood_this_window := insert (src_ip e) (alerted_flood_this_window d)\<rparr>;
                        (d, a) = anomaly_alert d e ''syn-flood-anomaly'' Critical
                          (''source '' @ src_ip_str e @ '' sent an estimated '' @ show_nat (unat est) @
                           ''+ SYNs within '' @ fmt_duration (window d) @ '' window'')
                    in (d, [a]))
                 else (d, []))
         }
         else Some (d, []))"

definition observe_port ::
    "hasher \<Rightarrow> (f64 \<Rightarrow> f64) \<Rightarrow> NetworkEvent \<Rightarrow> WindowedAnomalyDetector
      \<Rightarrow> (WindowedAnomalyDetector \<times> Alert list) option" where
  "observe_port fx ln64 e d =
     (let hll = (case port_cardinality d (src_ip e) of None \<Rightarrow> hll_new 10 | Some h \<Rightarrow> h)
      in do {
        h \<leftarrow> hll_add fx (u16_to_be_bytes (dst_port e)) hll;
        let d = d\<lparr>port_cardinality := (port_cardinality d)(src_ip e \<mapsto> h)\<rparr>;
        let distinct = hll_estimate ln64 h;
        Some (if port_scan_threshold d \<le> distinct \<and> src_ip e \<notin> alerted_scan_this_window d then
                (let d = d\<lparr>alerted_scan_this_window := insert (src_ip e) (alerted_scan_this_window d)\<rparr>;
                     (d, a) = anomaly_alert d e ''port-scan-anomaly'' High
                       (''source '' @ src_ip_str e @ '' touched an estimated '' @ fmt_f64_0 distinct @
                        '' distinct destination ports within '' @ fmt_duration (window d) @ '' window'')
                 in (d, [a]))
              else (d, []))
      })"

definition observe ::
    "hasher \<Rightarrow> (f64 \<Rightarrow> f64) \<Rightarrow> instant \<times> instant \<Rightarrow> NetworkEvent \<Rightarrow> WindowedAnomalyDetector
      \<Rightarrow> (WindowedAnomalyDetector \<times> Alert list) option" where
  "observe fx ln64 clock e d =
     do {
       let d = maybe_roll_window (fst clock) (snd clock) d;
       (d, alerts) \<leftarrow> observe_syn fx e d;
       (d, alerts') \<leftarrow> observe_port fx ln64 e d;
       Some (d, alerts @ alerts')
     }"

subsection \<open>One window\<close>

text \<open>The events since the window began, seen as the sketches see them.\<close>

definition syn_keys :: "NetworkEvent list \<Rightarrow> bytes list" where
  "syn_keys hist = map (\<lambda>e. u32_to_be_bytes (src_ip e)) (filter is_syn hist)"

definition syn_count :: "u32 \<Rightarrow> NetworkEvent list \<Rightarrow> nat" where
  "syn_count s hist = length (filter (\<lambda>e. is_syn e \<and> src_ip e = s) hist)"

definition port_keys :: "u32 \<Rightarrow> NetworkEvent list \<Rightarrow> bytes set" where
  "port_keys s hist = (\<lambda>e. u16_to_be_bytes (dst_port e)) ` {e \<in> set hist. src_ip e = s}"

text \<open>The sources that the alerts of one rule name.\<close>

definition named_by :: "string \<Rightarrow> Alert list \<Rightarrow> string list" where
  "named_by rule als = map alert_src_ip (filter (\<lambda>a. rule_name a = rule) als)"

definition flood_inv :: "hasher \<Rightarrow> NetworkEvent list \<Rightarrow> Alert list \<Rightarrow> WindowedAnomalyDetector \<Rightarrow> bool" where
  "flood_inv fx hist als d \<longleftrightarrow>
     cms_reports fx (syn_counts d) (syn_keys hist) \<and> syn_flood_threshold d = 50 \<and>
     (\<forall>s. 50 \<le> syn_count s hist \<longrightarrow> s \<in> alerted_flood_this_window d) \<and>
     (alerted_flood_this_window d \<noteq> {} \<longrightarrow> 50 \<le> length (syn_keys hist)) \<and>
     distinct (named_by ''syn-flood-anomaly'' als) \<and>
     set (named_by ''syn-flood-anomaly'' als) = ip_to_string ` alerted_flood_this_window d"

definition scan_inv :: "hasher \<Rightarrow> NetworkEvent list \<Rightarrow> Alert list \<Rightarrow> WindowedAnomalyDetector \<Rightarrow> bool" where
  "scan_inv fx hist als d \<longleftrightarrow>
     port_cardinality d = (\<lambda>s. if s \<in> src_ip ` set hist then Some (hll_of fx 10 (port_keys s hist)) else None) \<and>
     port_scan_threshold d = 25 \<and>
     (\<forall>s. s \<in> alerted_scan_this_window d \<longleftrightarrow> 25 \<le> touched fx 10 (port_keys s hist)) \<and>
     distinct (named_by ''port-scan-anomaly'' als) \<and>
     set (named_by ''port-scan-anomaly'' als) = ip_to_string ` alerted_scan_this_window d"

lemma u32_key_inj: "u32_to_be_bytes a = u32_to_be_bytes b \<longleftrightarrow> a = b"
proof
  assume "u32_to_be_bytes a = u32_to_be_bytes b"
  then have e: "(ucast (drop_bit 24 a) :: u8) = ucast (drop_bit 24 b)" "(ucast (drop_bit 16 a) :: u8) = ucast (drop_bit 16 b)"
    "(ucast (drop_bit 8 a) :: u8) = ucast (drop_bit 8 b)" "(ucast a :: u8) = ucast b"
    by (simp_all add: u32_to_be_bytes_def)
  show "a = b"
  proof (rule bit_word_eqI)
    fix n
    assume n: "n < LENGTH(32)"
    have sel: "bit x (k + i) \<longleftrightarrow> bit (ucast (drop_bit k x) :: u8) i" if "i < 8" for x :: u32 and k i
      using that by (simp add: bit_ucast_iff bit_drop_bit_eq)
    have z: "drop_bit 0 x = x" for x :: u32 by simp
    consider "n < 8" | "8 \<le> n" "n < 16" | "16 \<le> n" "n < 24" | "24 \<le> n" "n < 32" using n by fastforce
    then show "bit a n \<longleftrightarrow> bit b n"
    proof cases
      case 1 with sel [of n _ 0] e(4) show ?thesis by (simp add: z)
    next
      case 2 with sel [of "n - 8" _ 8] e(3) show ?thesis by simp
    next
      case 3 with sel [of "n - 16" _ 16] e(2) show ?thesis by simp
    next
      case 4 with sel [of "n - 24" _ 24] e(1) show ?thesis by simp
    qed
  qed
qed simp

lemma u16_key_inj: "u16_to_be_bytes a = u16_to_be_bytes b \<longleftrightarrow> a = b"
proof
  assume e: "u16_to_be_bytes a = u16_to_be_bytes b"
  have "drop_bit 8 x = ucast (ucast (drop_bit 8 x) :: u8)" for x :: u16
  proof (rule bit_word_eqI)
    show "bit (drop_bit 8 x) n \<longleftrightarrow> bit (ucast (ucast (drop_bit 8 x) :: u8) :: u16) n" if "n < LENGTH(16)" for n
      using bit_imp_le_length [of x "8 + n"] by (auto simp: bit_ucast_iff bit_drop_bit_eq)
  qed
  then have "drop_bit 8 a = drop_bit 8 b" "(ucast a :: u8) = ucast b"
    using e unfolding u16_to_be_bytes_def by (metis list.inject)+
  then show "a = b" by (rule u16_eq_bytes)
qed simp

lemma syn_keys_snoc: "syn_keys (hist @ [e]) = syn_keys hist @ (if is_syn e then [u32_to_be_bytes (src_ip e)] else [])"
  by (simp add: syn_keys_def)

lemma syn_count_keys: "count_list (syn_keys hist) (u32_to_be_bytes s) = syn_count s hist"
  by (induction hist) (auto simp: syn_keys_def syn_count_def u32_key_inj)

lemma syn_count_snoc:
  "syn_count s (hist @ [e]) = syn_count s hist + (if is_syn e \<and> src_ip e = s then 1 else 0)"
  by (simp add: syn_count_def)

lemma port_keys_snoc:
  "port_keys s (hist @ [e]) =
    (if src_ip e = s then insert (u16_to_be_bytes (dst_port e)) (port_keys s hist) else port_keys s hist)"
  by (auto simp: port_keys_def)

lemma finite_port_keys [simp]: "finite (port_keys s hist)"
  by (simp add: port_keys_def)

lemma named_by_append [simp]: "named_by r (als @ als') = named_by r als @ named_by r als'"
  by (simp add: named_by_def)

lemma named_by_Nil [simp]: "named_by r [] = []"
  by (simp add: named_by_def)

text \<open>The SYN half of \<open>observe\<close> leaves the port half's state alone, and the other way round.\<close>

lemma flood_inv_cong:
  assumes "flood_inv fx hist als d" and "syn_counts d' = syn_counts d" and "syn_flood_threshold d' = syn_flood_threshold d"
    and "alerted_flood_this_window d' = alerted_flood_this_window d" and "named_by ''syn-flood-anomaly'' new = []"
  shows "flood_inv fx hist (als @ new) d'"
  using assms by (simp add: flood_inv_def)

lemma scan_inv_cong:
  assumes "scan_inv fx hist als d" and "port_cardinality d' = port_cardinality d" and "port_scan_threshold d' = port_scan_threshold d"
    and "alerted_scan_this_window d' = alerted_scan_this_window d" and "named_by ''port-scan-anomaly'' new = []"
  shows "scan_inv fx hist (als @ new) d'"
  using assms by (simp add: scan_inv_def)

definition window_frame :: "WindowedAnomalyDetector \<Rightarrow> WindowedAnomalyDetector \<Rightarrow> bool" where
  "window_frame d d' \<longleftrightarrow> window d' = window d \<and> window_start d' = window_start d"

definition numbered :: "WindowedAnomalyDetector \<Rightarrow> Alert list \<Rightarrow> WindowedAnomalyDetector \<Rightarrow> bool" where
  "numbered d als d' \<longleftrightarrow> ids_from (anomaly_next_id d) als \<and>
     anomaly_next_id d' = anomaly_next_id d + of_nat (length als)"

lemma ip_to_string_image: "ip_to_string s \<in> ip_to_string ` A \<longleftrightarrow> s \<in> A"
  by (auto simp: ip_to_string_inj)

lemma flood_inv_reported:
  assumes inv: "flood_inv fx hist als d" and syn: "is_syn e" and fresh: "src_ip e \<notin> alerted_flood_this_window d"
    and rep: "cms_reports fx (syn_counts d') (syn_keys hist @ [u32_to_be_bytes (src_ip e)])"
    and many: "50 \<le> length (syn_keys hist) + 1"
    and d': "alerted_flood_this_window d' = insert (src_ip e) (alerted_flood_this_window d)" "syn_flood_threshold d' = 50"
    and new: "named_by ''syn-flood-anomaly'' new = [ip_to_string (src_ip e)]"
  shows "flood_inv fx (hist @ [e]) (als @ new) d'"
proof -
  have "s \<in> insert (src_ip e) (alerted_flood_this_window d)" if "50 \<le> syn_count s (hist @ [e])" for s
    using that inv by (cases "s = src_ip e") (simp_all add: flood_inv_def syn_count_snoc)
  then show ?thesis
    using assms by (auto simp: flood_inv_def syn_keys_snoc ip_to_string_image)
qed

lemma flood_inv_unreported:
  assumes inv: "flood_inv fx hist als d" and syn: "is_syn e"
    and rep: "cms_reports fx c (syn_keys hist @ [u32_to_be_bytes (src_ip e)])"
    and known: "50 \<le> syn_count (src_ip e) (hist @ [e]) \<Longrightarrow> src_ip e \<in> alerted_flood_this_window d"
  shows "flood_inv fx (hist @ [e]) als (d\<lparr>syn_counts := c\<rparr>)"
proof -
  have "s \<in> alerted_flood_this_window d" if "50 \<le> syn_count s (hist @ [e])" for s
    using that inv known by (cases "s = src_ip e") (simp_all add: flood_inv_def syn_count_snoc)
  moreover have "alerted_flood_this_window d \<noteq> {} \<longrightarrow> 50 \<le> length (syn_keys hist) + 1"
    using inv by (auto simp: flood_inv_def)
  ultimately show ?thesis using inv rep syn by (simp add: flood_inv_def syn_keys_snoc)
qed

lemma observe_syn_step:
  assumes inv: "flood_inv fx hist als d"
  obtains d' new where "observe_syn fx e d = Some (d', new)" and "flood_inv fx (hist @ [e]) (als @ new) d'"
    and "port_cardinality d' = port_cardinality d" and "port_scan_threshold d' = port_scan_threshold d"
    and "alerted_scan_this_window d' = alerted_scan_this_window d" and "named_by ''port-scan-anomaly'' new = []"
    and "window_frame d d'" and "numbered d new d'" and "\<forall>a \<in> set new. describes Anomaly e a"
proof (cases "is_syn e")
  case False
  then have "observe_syn fx e d = Some (d, [])" by (simp add: observe_syn_def)
  moreover have "flood_inv fx (hist @ [e]) (als @ []) d"
    using inv False by (simp add: flood_inv_def syn_keys_snoc syn_count_snoc)
  ultimately show ?thesis by (rule that) (simp_all add: window_frame_def numbered_def)
next
  case True
  let ?key = "u32_to_be_bytes (src_ip e)" and ?A = "alerted_flood_this_window d"
  have rep: "cms_reports fx (syn_counts d) (syn_keys hist)" and thr: "syn_flood_threshold d = 50"
    using inv by (simp_all add: flood_inv_def)
  obtain c n where c: "cms_increment fx ?key (syn_counts d) = Some c"
    and "map_option unat (cms_estimate fx ?key c) = Some n" and rep': "cms_reports fx c (syn_keys hist @ [?key])"
    and lo: "min u32_max (count_list (syn_keys hist) ?key + 1) \<le> n" and hi: "n \<le> length (syn_keys hist) + 1"
    by (rule cms.bump_then_est [OF rep])
  then obtain est where est: "cms_estimate fx ?key c = Some est" and n: "n = unat est" by auto
  have keys: "syn_keys (hist @ [e]) = syn_keys hist @ [?key]" using True by (simp add: syn_keys_snoc)
  have ge: "50 \<le> est \<longleftrightarrow> 50 \<le> n" by (simp add: word_le_nat_alt n)
  have reached: "50 \<le> n" if "50 \<le> syn_count (src_ip e) (hist @ [e])"
    using lo that True by (simp add: syn_count_keys syn_count_snoc u32_max_def)
  show ?thesis
  proof (cases "50 \<le> est \<and> src_ip e \<notin> ?A")
    case fire: True
    define msg where "msg = ''source '' @ src_ip_str e @ '' sent an estimated '' @ show_nat (unat est) @
       ''+ SYNs within '' @ fmt_duration (window d) @ '' window''"
    define d' where "d' = fst (anomaly_alert (d\<lparr>syn_counts := c, alerted_flood_this_window := insert (src_ip e) ?A\<rparr>)
       e ''syn-flood-anomaly'' Critical msg)"
    define a where "a = snd (anomaly_alert (d\<lparr>syn_counts := c, alerted_flood_this_window := insert (src_ip e) ?A\<rparr>)
       e ''syn-flood-anomaly'' Critical msg)"
    have "observe_syn fx e d = Some (d', [a])"
      using fire True thr by (simp add: observe_syn_def c est d'_def a_def anomaly_alert_def msg_def)
    moreover have "flood_inv fx (hist @ [e]) (als @ [a]) d'"
      by (rule flood_inv_reported [OF inv True])
        (use fire ge hi rep' thr in \<open>simp_all add: d'_def a_def anomaly_alert_def named_by_def src_ip_str_def\<close>)
    ultimately show ?thesis
      by (rule that) (simp_all add: d'_def a_def anomaly_alert_def named_by_def window_frame_def numbered_def describes_def)
  next
    case quiet: False
    define d' where "d' = d\<lparr>syn_counts := c\<rparr>"
    have "observe_syn fx e d = Some (d', [])"
      using quiet True thr by (auto simp: observe_syn_def c est d'_def)
    moreover have "flood_inv fx (hist @ [e]) (als @ []) d'"
      unfolding d'_def append_Nil2 by (rule flood_inv_unreported [OF inv True rep']) (use quiet ge reached in blast)
    ultimately show ?thesis
      by (rule that) (simp_all add: d'_def window_frame_def numbered_def)
  qed
qed

lemma scan_inv_entry:
  assumes "scan_inv fx hist als d"
  shows "(case port_cardinality d s of None \<Rightarrow> hll_new 10 | Some h \<Rightarrow> h) = hll_of fx 10 (port_keys s hist)"
proof (cases "s \<in> src_ip ` set hist")
  case False
  then have "port_keys s hist = {}" unfolding port_keys_def by (force simp: image_iff)
  moreover have "hll_new 10 = hll_of fx 10 {}" using hll_new_of [of 10 fx] by simp
  ultimately show ?thesis using False assms by (simp add: scan_inv_def)
qed (use assms in \<open>simp add: scan_inv_def\<close>)

text \<open>The invariant after an event, whether it raised an alert or not.\<close>

lemma scan_inv_snoc:
  assumes inv: "scan_inv fx hist als d"
    and d': "port_cardinality d' = (port_cardinality d)(src_ip e \<mapsto> hll_of fx 10 (port_keys (src_ip e) (hist @ [e])))"
      "port_scan_threshold d' = 25"
      "alerted_scan_this_window d' = alerted_scan_this_window d \<union> src_ip ` set evs"
    and evs: "evs = [] \<or> evs = [e] \<and> src_ip e \<notin> alerted_scan_this_window d"
    and new: "named_by ''port-scan-anomaly'' new = map (\<lambda>e. ip_to_string (src_ip e)) evs"
    and reached: "src_ip e \<in> alerted_scan_this_window d' \<longleftrightarrow> 25 \<le> touched fx 10 (port_keys (src_ip e) (hist @ [e]))"
  shows "scan_inv fx (hist @ [e]) (als @ new) d'"
proof -
  have other: "port_keys s (hist @ [e]) = port_keys s hist" if "s \<noteq> src_ip e" for s
    using that by (simp add: port_keys_snoc)
  have B: "s \<in> alerted_scan_this_window d \<longleftrightarrow> 25 \<le> touched fx 10 (port_keys s hist)" for s using inv by (simp add: scan_inv_def)
  have "s \<in> alerted_scan_this_window d' \<longleftrightarrow> s \<in> alerted_scan_this_window d" if "s \<noteq> src_ip e" for s
    using that evs d'(3) by auto
  then have "s \<in> alerted_scan_this_window d' \<longleftrightarrow> 25 \<le> touched fx 10 (port_keys s (hist @ [e]))" for s
    using reached other [of s] B [of s] by (cases "s = src_ip e") simp_all
  moreover have "port_cardinality d' =
      (\<lambda>s. if s \<in> src_ip ` set (hist @ [e]) then Some (hll_of fx 10 (port_keys s (hist @ [e]))) else None)"
    using inv other unfolding d'(1) by (auto simp: scan_inv_def fun_eq_iff)
  moreover have "distinct (named_by ''port-scan-anomaly'' (als @ new))"
    "set (named_by ''port-scan-anomaly'' (als @ new)) = ip_to_string ` alerted_scan_this_window d'"
    using evs
  proof (atomize (full), elim disjE)
    have "distinct (named_by ''port-scan-anomaly'' als)"
      "set (named_by ''port-scan-anomaly'' als) = ip_to_string ` alerted_scan_this_window d"
      using inv by (simp_all only: scan_inv_def)
    note D = this d'(3) new
    show "distinct (named_by ''port-scan-anomaly'' (als @ new)) \<and>
        set (named_by ''port-scan-anomaly'' (als @ new)) = ip_to_string ` alerted_scan_this_window d'" if "evs = []"
      using D that by simp
    show "distinct (named_by ''port-scan-anomaly'' (als @ new)) \<and>
        set (named_by ''port-scan-anomaly'' (als @ new)) = ip_to_string ` alerted_scan_this_window d'"
      if "evs = [e] \<and> src_ip e \<notin> alerted_scan_this_window d"
      using D that by (simp add: ip_to_string_image)
  qed
  ultimately show ?thesis using d'(2) unfolding scan_inv_def by blast
qed

lemma observe_port_step:
  assumes inv: "scan_inv fx hist als d" and ln: "ln_accurate ln64"
  obtains d' new where "observe_port fx ln64 e d = Some (d', new)" and "scan_inv fx (hist @ [e]) (als @ new) d'"
    and "syn_counts d' = syn_counts d" and "syn_flood_threshold d' = syn_flood_threshold d"
    and "alerted_flood_this_window d' = alerted_flood_this_window d" and "named_by ''syn-flood-anomaly'' new = []"
    and "window_frame d d'" and "numbered d new d'" and "\<forall>a \<in> set new. describes Anomaly e a"
proof -
  let ?s = "src_ip e" and ?B = "alerted_scan_this_window d"
  let ?h = "hll_of fx 10 (port_keys ?s (hist @ [e]))"
  have thr: "port_scan_threshold d = 25" using inv by (simp add: scan_inv_def)
  note entry = scan_inv_entry [OF inv, of ?s]
  have add: "hll_add fx (u16_to_be_bytes (dst_port e)) (hll_of fx 10 (port_keys ?s hist)) = Some ?h"
    by (simp add: hll_add_of port_keys_snoc)
  have est: "25 \<le> hll_estimate ln64 ?h \<longleftrightarrow> 25 \<le> touched fx 10 (port_keys ?s (hist @ [e]))"
    by (rule hll_estimate_of(1) [OF ln]) simp
  have mono: "touched fx 10 (port_keys ?s hist) \<le> touched fx 10 (port_keys ?s (hist @ [e]))"
    unfolding touched_def by (intro card_mono image_mono) (auto simp: port_keys_snoc)
  have B: "s \<in> ?B \<longleftrightarrow> 25 \<le> touched fx 10 (port_keys s hist)" for s using inv by (simp add: scan_inv_def)
  show ?thesis
  proof (cases "25 \<le> hll_estimate ln64 ?h \<and> ?s \<notin> ?B")
    case fire: True
    define msg where "msg = ''source '' @ src_ip_str e @ '' touched an estimated '' @ fmt_f64_0 (hll_estimate ln64 ?h) @
       '' distinct destination ports within '' @ fmt_duration (window d) @ '' window''"
    define d1 where "d1 = d\<lparr>port_cardinality := (port_cardinality d)(?s \<mapsto> ?h), alerted_scan_this_window := insert ?s ?B\<rparr>"
    define d' where "d' = fst (anomaly_alert d1 e ''port-scan-anomaly'' High msg)"
    define a where "a = snd (anomaly_alert d1 e ''port-scan-anomaly'' High msg)"
    have "observe_port fx ln64 e d = Some (d', [a])"
      using fire thr by (simp add: observe_port_def entry add d'_def a_def d1_def anomaly_alert_def msg_def)
    moreover have "scan_inv fx (hist @ [e]) (als @ [a]) d'"
      by (rule scan_inv_snoc [OF inv, of _ e "[e]"])
        (use fire est thr in \<open>simp_all add: d'_def d1_def a_def anomaly_alert_def named_by_def src_ip_str_def\<close>)
    ultimately show ?thesis
      by (rule that) (simp_all add: d'_def d1_def a_def anomaly_alert_def named_by_def window_frame_def numbered_def describes_def)
  next
    case quiet: False
    define d' where "d' = d\<lparr>port_cardinality := (port_cardinality d)(?s \<mapsto> ?h)\<rparr>"
    have "observe_port fx ln64 e d = Some (d', [])"
      using quiet thr by (auto simp: observe_port_def entry add d'_def)
    moreover have "scan_inv fx (hist @ [e]) (als @ []) d'"
    proof (rule scan_inv_snoc [OF inv, of _ e "[]"])
      show "?s \<in> alerted_scan_this_window d' \<longleftrightarrow> 25 \<le> touched fx 10 (port_keys ?s (hist @ [e]))"
        using quiet est B [of ?s] mono by (auto simp: d'_def)
    qed (simp_all add: d'_def thr named_by_def)
    ultimately show ?thesis
      by (rule that) (simp_all add: d'_def window_frame_def numbered_def)
  qed
qed

text \<open>The state of the detector against the events and alerts of the current window.\<close>

definition window_inv :: "hasher \<Rightarrow> NetworkEvent list \<Rightarrow> Alert list \<Rightarrow> WindowedAnomalyDetector \<Rightarrow> bool" where
  "window_inv fx hist als d \<longleftrightarrow> flood_inv fx hist als d \<and> scan_inv fx hist als d"

definition rolls :: "instant \<Rightarrow> WindowedAnomalyDetector \<Rightarrow> bool" where
  "rolls now d \<longleftrightarrow> window d \<le> now - window_start d"

lemma window_inv_new: "window_inv fx [] [] (anomaly_new now w)"
  by (simp add: window_inv_def flood_inv_def scan_inv_def anomaly_new_def cms_reports_new syn_keys_def
      syn_count_def port_keys_def touched_def)

lemma roll_resets:
  assumes "window_inv fx hist als d" and "rolls now d"
  shows "window_inv fx [] [] (maybe_roll_window now later d)"
  using assms cms.reset_reports [of fx "syn_counts d" "syn_keys hist"]
  by (simp add: window_inv_def flood_inv_def scan_inv_def maybe_roll_window_def rolls_def syn_keys_def
      syn_count_def port_keys_def touched_def)

lemma roll_frame:
  "window (maybe_roll_window now later d) = window d"
  "window_start (maybe_roll_window now later d) = (if rolls now d then later else window_start d)"
  "anomaly_next_id (maybe_roll_window now later d) = anomaly_next_id d"
  "\<not> rolls now d \<Longrightarrow> maybe_roll_window now later d = d"
  by (simp_all add: maybe_roll_window_def rolls_def)

lemma observe_parts:
  assumes f0: "flood_inv fx hf als (maybe_roll_window now later d)" and s0: "scan_inv fx hs als (maybe_roll_window now later d)"
    and ln: "ln_accurate ln64"
  obtains d' new where "observe fx ln64 (now, later) e d = Some (d', new)"
    and "flood_inv fx (hf @ [e]) (als @ new) d'" and "scan_inv fx (hs @ [e]) (als @ new) d'"
    and "window_frame (maybe_roll_window now later d) d'" and "numbered d new d'"
    and "\<forall>a \<in> set new. describes Anomaly e a"
proof -
  let ?d0 = "maybe_roll_window now later d"
  obtain d1 n1 where o1: "observe_syn fx e ?d0 = Some (d1, n1)" and f1: "flood_inv fx (hf @ [e]) (als @ n1) d1"
    and c1: "port_cardinality d1 = port_cardinality ?d0" "port_scan_threshold d1 = port_scan_threshold ?d0"
      "alerted_scan_this_window d1 = alerted_scan_this_window ?d0" "named_by ''port-scan-anomaly'' n1 = []"
    and w1: "window_frame ?d0 d1" and i1: "numbered ?d0 n1 d1" and a1: "\<forall>a \<in> set n1. describes Anomaly e a"
    by (rule observe_syn_step [OF f0])
  have s1: "scan_inv fx hs (als @ n1) d1" by (rule scan_inv_cong [OF s0 c1])
  obtain d2 n2 where o2: "observe_port fx ln64 e d1 = Some (d2, n2)" and s2: "scan_inv fx (hs @ [e]) ((als @ n1) @ n2) d2"
    and c2: "syn_counts d2 = syn_counts d1" "syn_flood_threshold d2 = syn_flood_threshold d1"
      "alerted_flood_this_window d2 = alerted_flood_this_window d1" "named_by ''syn-flood-anomaly'' n2 = []"
    and w2: "window_frame d1 d2" and i2: "numbered d1 n2 d2" and a2: "\<forall>a \<in> set n2. describes Anomaly e a"
    by (rule observe_port_step [OF s1 ln])
  have "flood_inv fx (hf @ [e]) ((als @ n1) @ n2) d2" by (rule flood_inv_cong [OF f1 c2])
  with s2 have "flood_inv fx (hf @ [e]) (als @ (n1 @ n2)) d2" "scan_inv fx (hs @ [e]) (als @ (n1 @ n2)) d2" by simp_all
  moreover have "observe fx ln64 (now, later) e d = Some (d2, n1 @ n2)" by (simp add: observe_def o1 o2)
  moreover have "window_frame ?d0 d2" using w1 w2 by (simp add: window_frame_def)
  moreover have "numbered d (n1 @ n2) d2"
    using i1 i2 by (simp add: numbered_def ids_from_append roll_frame)
  moreover have "\<forall>a \<in> set (n1 @ n2). describes Anomaly e a" using a1 a2 by auto
  ultimately show ?thesis by (intro that)
qed

lemma observe_after_roll:
  assumes inv: "window_inv fx hist als (maybe_roll_window now later d)" and ln: "ln_accurate ln64"
  obtains d' new where "observe fx ln64 (now, later) e d = Some (d', new)"
    and "window_inv fx (hist @ [e]) (als @ new) d'"
    and "window_frame (maybe_roll_window now later d) d'" and "numbered d new d'"
    and "\<forall>a \<in> set new. describes Anomaly e a"
proof -
  have "flood_inv fx hist als (maybe_roll_window now later d)" "scan_inv fx hist als (maybe_roll_window now later d)"
    using inv by (simp_all add: window_inv_def)
  from observe_parts [OF this ln] show ?thesis using that unfolding window_inv_def by metis
qed

lemma observe_step:
  assumes inv: "window_inv fx hist als d" and ln: "ln_accurate ln64"
  obtains d' new where "observe fx ln64 (now, later) e d = Some (d', new)"
    and "window_inv fx (if rolls now d then [e] else hist @ [e]) (if rolls now d then new else als @ new) d'"
    and "window d' = window d" and "window_start d' = (if rolls now d then later else window_start d)"
    and "numbered d new d'" and "\<forall>a \<in> set new. describes Anomaly e a"
proof (cases "rolls now d")
  case True
  show ?thesis
    by (rule observe_after_roll [OF roll_resets [OF inv True] ln])
      (rule that, auto simp: True window_frame_def roll_frame)
next
  case False
  then have inv': "window_inv fx hist als (maybe_roll_window now later d)" using inv by (simp add: roll_frame)
  show ?thesis
    by (rule observe_after_roll [OF inv' ln]) (rule that, auto simp: False window_frame_def roll_frame)
qed

text \<open>The contract of a detector.\<close>

interpretation anomaly: event_detector
  "\<lambda>d. ln_accurate ln64 \<and> (\<exists>hist als. window_inv fx hist als d)"
  "\<lambda>(clock, e) d. observe fx ln64 clock e d" snd anomaly_next_id Anomaly for fx ln64
proof unfold_locales
  fix d :: WindowedAnomalyDetector and i :: "(instant \<times> instant) \<times> NetworkEvent"
  obtain now later e where i: "i = ((now, later), e)" by (metis surj_pair)
  assume "ln_accurate ln64 \<and> (\<exists>hist als. window_inv fx hist als d)"
  then obtain hist als where ln: "ln_accurate ln64" and inv: "window_inv fx hist als d" by blast
  obtain d' new where o: "observe fx ln64 (now, later) e d = Some (d', new)"
    and "window_inv fx (if rolls now d then [e] else hist @ [e]) (if rolls now d then new else als @ new) d'"
    and "numbered d new d'" and "\<forall>a \<in> set new. describes Anomaly e a"
    by (rule observe_step [OF inv ln])
  with ln have facts: "ln_accurate ln64 \<and> (\<exists>hist als. window_inv fx hist als d')" "numbered d new d'"
    "\<forall>a \<in> set new. describes Anomaly e a" by blast+
  have st: "(case i of (clock, e) \<Rightarrow> observe fx ln64 clock e) d = Some (d', new)" by (simp add: i o)
  then show "\<exists>s' als. (case i of (clock, e) \<Rightarrow> observe fx ln64 clock e) d = Some (s', als)" by blast
  fix s' als' a
  assume "(case i of (clock, e) \<Rightarrow> observe fx ln64 clock e) d = Some (s', als')"
  with st have e: "s' = d'" "als' = new" by simp_all
  show "ln_accurate ln64 \<and> (\<exists>hist als. window_inv fx hist als s')" using facts e by simp
  show "ids_from (anomaly_next_id d) als' \<and> anomaly_next_id s' = anomaly_next_id d + of_nat (length als')"
    using facts e by (simp add: numbered_def)
  show "describes Anomaly (snd i) a" if "a \<in> set als'" using that facts e i by simp
qed

subsection \<open>Runs\<close>

text \<open>A run that also collects the events and the alerts of the current window.\<close>

type_synonym observation = "(instant \<times> instant) \<times> NetworkEvent"

fun watch :: "hasher \<Rightarrow> (f64 \<Rightarrow> f64) \<Rightarrow> observation list
    \<Rightarrow> WindowedAnomalyDetector \<times> NetworkEvent list \<times> Alert list
    \<Rightarrow> (WindowedAnomalyDetector \<times> NetworkEvent list \<times> Alert list) option" where
  "watch fx ln64 [] st = Some st"
| "watch fx ln64 ((clock, e) # obs) (d, hist, als) = do {
     (d', new) \<leftarrow> observe fx ln64 clock e d;
     watch fx ln64 obs (if rolls (fst clock) d then (d', [e], new) else (d', hist @ [e], als @ new))
   }"

lemma watch_window_inv:
  assumes "window_inv fx hist als d" and "ln_accurate ln64"
  shows "\<exists>d' hist' als'. watch fx ln64 obs (d, hist, als) = Some (d', hist', als') \<and> window_inv fx hist' als' d'"
  using assms(1)
proof (induction obs arbitrary: d hist als)
  case (Cons ob obs)
  obtain now later e where ob: "ob = ((now, later), e)" by (metis surj_pair)
  obtain d' new where o: "observe fx ln64 (now, later) e d = Some (d', new)"
    and w: "window_inv fx (if rolls now d then [e] else hist @ [e]) (if rolls now d then new else als @ new) d'"
    by (rule observe_step [OF Cons.prems assms(2)])
  show ?case
  proof (cases "rolls now d")
    case True
    with w have "window_inv fx [e] new d'" by simp
    from Cons.IH [OF this] show ?thesis using True by (simp add: ob o)
  next
    case False
    with w have "window_inv fx (hist @ [e]) (als @ new) d'" by simp
    from Cons.IH [OF this] show ?thesis using False by (simp add: ob o)
  qed
qed auto

lemma count_list_distinct: "distinct xs \<Longrightarrow> count_list xs x = (if x \<in> set xs then 1 else 0)"
  by (induction xs) auto

text \<open>
  C15: SYN floods are never missed and reported once. Over every sequence of events and clock
  readings, for every hash function and accurate logarithm, the detector never panics, and in
  the current window every source with at least 50 SYNs has exactly one flood alert, no source
  has two, and there is a flood alert only if the window holds at least 50 SYNs from all
  sources together.
\<close>

theorem syn_flood_once_per_window:
  assumes "ln_accurate ln64"
  shows "\<exists>d hist als. watch fx ln64 obs (anomaly_new now w, [], []) = Some (d, hist, als) \<and>
    (\<forall>s. 50 \<le> length (filter (\<lambda>e. is_syn e \<and> src_ip e = s) hist) \<longrightarrow>
       count_list (named_by ''syn-flood-anomaly'' als) (ip_to_string s) = 1) \<and>
    distinct (named_by ''syn-flood-anomaly'' als) \<and>
    (named_by ''syn-flood-anomaly'' als \<noteq> [] \<longrightarrow> 50 \<le> length (filter is_syn hist))"
proof -
  obtain d hist als where r: "watch fx ln64 obs (anomaly_new now w, [], []) = Some (d, hist, als)"
    and "window_inv fx hist als d"
    using watch_window_inv [OF window_inv_new assms] by blast
  then have inv: "flood_inv fx hist als d" by (simp add: window_inv_def)
  let ?n = "named_by ''syn-flood-anomaly'' als"
  have d: "distinct ?n" and set: "set ?n = ip_to_string ` alerted_flood_this_window d"
    using inv by (simp_all add: flood_inv_def)
  have "count_list ?n (ip_to_string s) = 1" if "50 \<le> syn_count s hist" for s
    using that inv count_list_distinct [OF d] by (auto simp: set flood_inv_def)
  moreover have "50 \<le> length (filter is_syn hist)" if "?n \<noteq> []"
    using that inv set by (cases "alerted_flood_this_window d = {}") (simp_all add: flood_inv_def syn_keys_def)
  ultimately show ?thesis using r d by (auto simp: syn_count_def)
qed

lemma card_port_keys: "card (port_keys s hist) = card (dst_port ` {e \<in> set hist. src_ip e = s})"
proof -
  have "port_keys s hist = u16_to_be_bytes ` dst_port ` {e \<in> set hist. src_ip e = s}"
    by (simp add: port_keys_def image_image)
  then show ?thesis by (simp add: card_image inj_on_def u16_key_inj)
qed

text \<open>
  C16: Port scans are reported once per window and never falsely. A source has exactly one scan
  alert in the current window if its destination ports fall into at least 25 different buckets
  of the sketch, and none otherwise; so every source named by a scan alert touched at least 25
  distinct ports, and other sources play no part.
\<close>

theorem port_scan_exactly_from_25_buckets:
  assumes "ln_accurate ln64"
  shows "\<exists>d hist als. watch fx ln64 obs (anomaly_new now w, [], []) = Some (d, hist, als) \<and>
    (\<forall>s. count_list (named_by ''port-scan-anomaly'' als) (ip_to_string s) =
       (if 25 \<le> card (key_bucket fx 10 ` (\<lambda>e. u16_to_be_bytes (dst_port e)) ` {e \<in> set hist. src_ip e = s}) then 1 else 0) \<and>
     (ip_to_string s \<in> set (named_by ''port-scan-anomaly'' als) \<longrightarrow>
       25 \<le> card (dst_port ` {e \<in> set hist. src_ip e = s})))"
proof -
  obtain d hist als where r: "watch fx ln64 obs (anomaly_new now w, [], []) = Some (d, hist, als)"
    and "window_inv fx hist als d"
    using watch_window_inv [OF window_inv_new assms] by blast
  then have inv: "scan_inv fx hist als d" by (simp add: window_inv_def)
  let ?n = "named_by ''port-scan-anomaly'' als"
  have mem: "ip_to_string s \<in> set ?n \<longleftrightarrow> 25 \<le> touched fx 10 (port_keys s hist)" for s
    using inv by (auto simp: scan_inv_def ip_to_string_image)
  have "count_list ?n (ip_to_string s) = (if 25 \<le> touched fx 10 (port_keys s hist) then 1 else 0)" for s
    using inv count_list_distinct [of ?n] mem by (simp add: scan_inv_def)
  moreover have "25 \<le> card (dst_port ` {e \<in> set hist. src_ip e = s})" if "ip_to_string s \<in> set ?n" for s
    using that mem touched_le_card [of "port_keys s hist" fx 10] by (simp add: card_port_keys)
  ultimately show ?thesis using r by (auto simp: touched_def port_keys_def)
qed

text \<open>
  Memory grows with the sources. After every run the detector holds one 1024-bucket sketch
  for each distinct source address of the current window, without a bound on their number.
\<close>

theorem one_sketch_per_source:
  assumes "ln_accurate ln64"
  shows "\<exists>d hist als. watch fx ln64 obs (anomaly_new now w, [], []) = Some (d, hist, als) \<and>
    dom (port_cardinality d) = src_ip ` set hist \<and>
    (\<forall>h \<in> ran (port_cardinality d). length (buckets h) = 1024)"
proof -
  obtain d hist als where r: "watch fx ln64 obs (anomaly_new now w, [], []) = Some (d, hist, als)"
    and "window_inv fx hist als d"
    using watch_window_inv [OF window_inv_new assms] by blast
  then have "port_cardinality d = (\<lambda>s. if s \<in> src_ip ` set hist then Some (hll_of fx 10 (port_keys s hist)) else None)"
    by (simp add: window_inv_def scan_inv_def)
  with r show ?thesis by (auto simp: ran_def dom_def split: if_splits)
qed

text \<open>
  Over every run the alerts of the detector carry the consecutive ids from 1, and each one
  repeats the time and the two addresses of an event of the run.
\<close>

theorem anomaly_alerts_numbered_and_attributed:
  assumes "ln_accurate ln64"
  shows "\<exists>d als. detector_run (\<lambda>(clock, e). observe fx ln64 clock e) obs (anomaly_new now w) = Some (d, als) \<and>
    map alert_id als = map (\<lambda>i. 1 + of_nat i) [0..<length als] \<and>
    (\<forall>a \<in> set als. \<exists>ob \<in> set obs. describes Anomaly (snd ob) a)"
proof -
  obtain d als where "detector_run (\<lambda>(clock, e). observe fx ln64 clock e) obs (anomaly_new now w) = Some (d, als)"
    "ids_from (anomaly_next_id (anomaly_new now w)) als"
    "\<forall>a \<in> set als. \<exists>ob \<in> set obs. describes Anomaly (snd ob) a"
    by (rule anomaly.run_returns [of ln64 fx "anomaly_new now w" obs]) (use assms window_inv_new in blast)
  then show ?thesis by (auto simp: ids_from_map anomaly_new_def)
qed

text \<open>Repeated packets within one window.\<close>

lemma observe_cases:
  assumes "window_inv fx hist als d" and "ln_accurate ln64"
  shows "\<exists>d' new. observe fx ln64 (now, later) e d = Some (d', new) \<and> window d' = window d \<and>
    (if rolls now d then window_inv fx [e] new d' \<and> window_start d' = later
     else window_inv fx (hist @ [e]) (als @ new) d' \<and> window_start d' = window_start d)"
proof -
  obtain d' new where "observe fx ln64 (now, later) e d = Some (d', new)"
    and "window_inv fx (if rolls now d then [e] else hist @ [e]) (if rolls now d then new else als @ new) d'"
    and "window d' = window d" and "window_start d' = (if rolls now d then later else window_start d)"
    by (rule observe_step [OF assms])
  then show ?thesis by auto
qed

lemma burst:
  assumes "window_inv fx hist als d" and "ln_accurate ln64" and "\<not> rolls t d"
  shows "\<exists>d' new. detector_run (\<lambda>(clock, e). observe fx ln64 clock e) (replicate n ((t, t), e)) d = Some (d', new) \<and>
    window_inv fx (hist @ replicate n e) (als @ new) d' \<and> window d' = window d \<and> window_start d' = window_start d"
  using assms(1,3)
proof (induction n arbitrary: d hist als)
  case (Suc n)
  obtain d1 n1 where o: "observe fx ln64 (t, t) e d = Some (d1, n1)" and "window d1 = window d"
    and "window_inv fx (hist @ [e]) (als @ n1) d1" "window_start d1 = window_start d"
    using observe_cases [OF Suc.prems(1) assms(2), of t t e] Suc.prems(2) by auto
  note d1 = this
  then have "\<not> rolls t d1" using Suc.prems(2) by (simp add: rolls_def)
  from Suc.IH [OF d1(3) this] obtain d' n2 where
    "detector_run (\<lambda>(clock, e). observe fx ln64 clock e) (replicate n ((t, t), e)) d1 = Some (d', n2)"
    "window_inv fx ((hist @ [e]) @ replicate n e) ((als @ n1) @ n2) d'" "window d' = window d" "window_start d' = window_start d"
    using d1 by auto
  then show ?case
    by (intro exI [of _ d'] exI [of _ "n1 @ n2"]) (simp add: o)
qed simp

lemma no_flood_alert:
  assumes "window_inv fx hist als d" and "length hist < 50"
  shows "named_by ''syn-flood-anomaly'' als = []"
proof -
  have "length (syn_keys hist) < 50"
    using le_less_trans [OF length_filter_le assms(2)] by (simp add: syn_keys_def)
  then show ?thesis using assms(1) by (auto simp: window_inv_def flood_inv_def)
qed

text \<open>
  C36: The window tumbles. With 49 packets in the last nanosecond of a window and 49 in the
  first of the next, for whatever packet, no flood alert is raised, although 98 SYNs of one
  source arrive within a nanosecond.
\<close>

theorem window_does_not_slide:
  assumes "ln_accurate ln64" and "0 < w"
  shows "\<exists>d als. detector_run (\<lambda>(clock, e). observe fx ln64 clock e)
      (replicate 49 ((t + w - 1, t + w - 1), e) @ replicate 49 ((t + w, t + w), e)) (anomaly_new t w) = Some (d, als) \<and>
    named_by ''syn-flood-anomaly'' als = []"
proof -
  let ?step = "\<lambda>(clock, e). observe fx ln64 clock e" and ?d0 = "anomaly_new t w"
  have "\<not> rolls (t + w - 1) ?d0" using assms(2) by (simp add: rolls_def anomaly_new_def)
  from burst [OF window_inv_new assms(1) this, where n = 49 and e = e and fx = fx] obtain d1 n1 where
    r1: "detector_run ?step (replicate 49 ((t + w - 1, t + w - 1), e)) ?d0 = Some (d1, n1)"
    and i1: "window_inv fx (replicate 49 e) n1 d1" and f1: "window d1 = w" "window_start d1 = t"
    by (auto simp: anomaly_new_def simp del: One_nat_def)
  have roll: "rolls (t + w) d1" using f1 by (simp add: rolls_def)
  obtain d2 n2 where o2: "observe fx ln64 (t + w, t + w) e d1 = Some (d2, n2)"
    and i2: "window_inv fx [e] n2 d2" and f2: "window d2 = w" "window_start d2 = t + w"
    using observe_cases [OF i1 assms(1), of "t + w" "t + w" e] roll f1 by auto
  have "\<not> rolls (t + w) d2" using assms(2) f2 by (simp add: rolls_def)
  from burst [OF i2 assms(1) this, where n = 48 and e = e] obtain d3 n3 where
    r3: "detector_run ?step (replicate 48 ((t + w, t + w), e)) d2 = Some (d3, n3)"
    and i3: "window_inv fx ([e] @ replicate 48 e) (n2 @ n3) d3" by auto
  have "replicate 49 ((t + w, t + w), e) = ((t + w, t + w), e) # replicate 48 ((t + w, t + w), e)"
    by (simp add: numeral_eq_Suc)
  then have "detector_run ?step (replicate 49 ((t + w - 1, t + w - 1), e) @ replicate 49 ((t + w, t + w), e)) ?d0
      = Some (d3, n1 @ n2 @ n3)"
    by (simp only: detector_run_append r1 bind.bind_lunit prod.case detector_run.simps o2 r3)
  moreover have "named_by ''syn-flood-anomaly'' n1 = []" using no_flood_alert [OF i1] by simp
  moreover have "named_by ''syn-flood-anomaly'' (n2 @ n3) = []" using no_flood_alert [OF i3] by simp
  ultimately show ?thesis by simp
qed

text \<open>Without a roll the window holds every event.\<close>

lemma watch_no_roll:
  assumes "window_inv fx hist als d" and "ln_accurate ln64"
    and "0 < window d" and "\<forall>ob \<in> set obs. fst (fst ob) < window_start d + window d"
    and "watch fx ln64 obs (d, hist, als) = Some (d', hist', als')"
  shows "hist' = hist @ map snd obs"
  using assms(1,3,4,5)
proof (induction obs arbitrary: d hist als)
  case (Cons ob obs)
  obtain now later e where ob: "ob = ((now, later), e)" by (metis surj_pair)
  have r: "\<not> rolls now d" using Cons.prems(2,3) by (auto simp: ob rolls_def)
  then obtain d1 new where o: "observe fx ln64 (now, later) e d = Some (d1, new)"
    and "window_inv fx (hist @ [e]) (als @ new) d1" "window d1 = window d" "window_start d1 = window_start d"
    using observe_cases [OF Cons.prems(1) assms(2), of now later e] by auto
  with Cons.IH [of "hist @ [e]" "als @ new" d1] Cons.prems(2,3,4) r show ?case by (simp add: ob)
qed simp

subsection \<open>Examples\<close>

definition syn_packet :: "u16 \<Rightarrow> NetworkEvent" where
  "syn_packet port = \<lparr>timestamp_ms = 0, src_ip = 0x0A000001, dst_ip = 0x0A000002, src_port = 40000,
     dst_port = port, protocol = Tcp, flags = 1, payload_sample = []\<rparr>"

lemma syn_packet_simps [simp]:
  "is_syn (syn_packet p)" "src_ip (syn_packet p) = 0x0A000001" "dst_port (syn_packet p) = p"
  by (simp_all add: syn_packet_def is_syn_def)

theorem syn_flood_once_per_window_witness:
  "\<exists>d hist als. watch top_byte_hasher ln_rounded (replicate 60 ((7, 7), syn_packet 80)) (anomaly_new 0 5000000000, [], [])
       = Some (d, hist, als) \<and> count_list (named_by ''syn-flood-anomaly'' als) (ip_to_string 0x0A000001) = 1"
proof -
  let ?obs = "replicate 60 ((7, 7), syn_packet 80) :: observation list"
  obtain d hist als where r: "watch top_byte_hasher ln_rounded ?obs (anomaly_new 0 5000000000, [], []) = Some (d, hist, als)"
    and c: "\<forall>s. 50 \<le> length (filter (\<lambda>e. is_syn e \<and> src_ip e = s) hist) \<longrightarrow>
       count_list (named_by ''syn-flood-anomaly'' als) (ip_to_string s) = 1"
    using syn_flood_once_per_window [OF ln_rounded_accurate] by blast
  have "hist = [] @ map snd ?obs"
    by (rule watch_no_roll [OF window_inv_new ln_rounded_accurate _ _ r]) (simp_all add: anomaly_new_def)
  with r c [rule_format, of "0x0A000001"] show ?thesis by auto
qed

theorem port_scan_exactly_from_25_buckets_witness:
  "\<exists>d hist als. watch top_byte_hasher ln_rounded [((7, 7), syn_packet 80)] (anomaly_new 0 5000000000, [], [])
       = Some (d, hist, als) \<and> count_list (named_by ''port-scan-anomaly'' als) (ip_to_string 0x0A000001) = 0"
proof -
  let ?obs = "[((7, 7), syn_packet 80)] :: observation list"
  obtain d hist als where r: "watch top_byte_hasher ln_rounded ?obs (anomaly_new 0 5000000000, [], []) = Some (d, hist, als)"
    and c: "\<forall>s. ip_to_string s \<in> set (named_by ''port-scan-anomaly'' als) \<longrightarrow>
       25 \<le> card (dst_port ` {e \<in> set hist. src_ip e = s})"
    using port_scan_exactly_from_25_buckets [OF ln_rounded_accurate] by blast
  have "hist = [] @ map snd ?obs"
    by (rule watch_no_roll [OF window_inv_new ln_rounded_accurate _ _ r]) (simp_all add: anomaly_new_def)
  then have "card (dst_port ` {e \<in> set hist. src_ip e = 0x0A000001}) \<le> 1"
    by (simp add: Collect_conv_if)
  with c have "ip_to_string 0x0A000001 \<notin> set (named_by ''port-scan-anomaly'' als)" by fastforce
  with r show ?thesis by (auto simp: count_list_0_iff)
qed

theorem one_sketch_per_source_witness:
  "\<exists>d hist als. watch top_byte_hasher ln_rounded [((7, 7), syn_packet 80)] (anomaly_new 0 5000000000, [], []) = Some (d, hist, als) \<and>
    dom (port_cardinality d) = src_ip ` set hist \<and> (\<forall>h \<in> ran (port_cardinality d). length (buckets h) = 1024)"
  by (rule one_sketch_per_source [OF ln_rounded_accurate])

theorem anomaly_alerts_numbered_and_attributed_witness:
  "\<exists>d als. detector_run (\<lambda>(clock, e). observe top_byte_hasher ln_rounded clock e)
      (replicate 60 ((7, 7), syn_packet 80)) (anomaly_new 0 5000000000) = Some (d, als) \<and>
    map alert_id als = map (\<lambda>i. 1 + of_nat i) [0..<length als] \<and>
    (\<forall>a \<in> set als. describes Anomaly (syn_packet 80) a)"
  using anomaly_alerts_numbered_and_attributed [OF ln_rounded_accurate,
      of top_byte_hasher "replicate 60 ((7, 7), syn_packet 80)" 0 5000000000]
  by auto

theorem window_does_not_slide_witness:
  "length (filter is_syn (replicate 49 (syn_packet 80) @ replicate 49 (syn_packet 80))) = 98 \<and>
   (\<exists>d als. detector_run (\<lambda>(clock, e). observe top_byte_hasher ln_rounded clock e)
      (replicate 49 ((0 + 5000000000 - 1, 0 + 5000000000 - 1), syn_packet 80) @
       replicate 49 ((0 + 5000000000, 0 + 5000000000), syn_packet 80)) (anomaly_new 0 5000000000) = Some (d, als) \<and>
    named_by ''syn-flood-anomaly'' als = [])"
proof
  show "length (filter is_syn (replicate 49 (syn_packet 80) @ replicate 49 (syn_packet 80))) = 98"
    by (simp add: filter_replicate)
qed (rule window_does_not_slide [OF ln_rounded_accurate], simp)

end
