(* ===== verification/AnomalyInterval.thy ===== *)
theory AnomalyInterval
  imports Anomaly
begin

section \<open>Floods in an arbitrary interval\<close>

text \<open>
  The windows of the anomaly detector start at fixed points, so a flood may straddle a boundary
  (\<open>window_does_not_slide\<close>). It cannot straddle two: within a time span shorter than the window the
  detector rolls at most once. Twice the threshold, less one, is therefore enough in any interval.
\<close>

abbreviation observe_all :: "hasher \<Rightarrow> (f64 \<Rightarrow> f64) \<Rightarrow> observation list \<Rightarrow> WindowedAnomalyDetector
    \<Rightarrow> (WindowedAnomalyDetector \<times> Alert list) option" where
  "observe_all fx ln64 \<equiv> detector_run (\<lambda>(clock, e). observe fx ln64 clock e)"

definition before :: "instant \<Rightarrow> observation list \<Rightarrow> bool" where
  "before end obs \<longleftrightarrow> (\<forall>ob \<in> set obs. fst (fst ob) < end)"

lemma before_simps [simp]:
  "before t []" "before t (ob # obs) \<longleftrightarrow> fst (fst ob) < t \<and> before t obs"
  "before t (obs @ obs') \<longleftrightarrow> before t obs \<and> before t obs'"
  by (auto simp: before_def)

lemma run_without_roll:
  assumes "window_inv fx hist alsw d" and "ln_accurate ln64" and "0 < window d" and "before (window_start d + window d) obs"
  obtains d' als where "observe_all fx ln64 obs d = Some (d', als)" and "window_inv fx (hist @ map snd obs) (alsw @ als) d'"
    and "window d' = window d" and "window_start d' = window_start d"
proof -
  have "\<exists>d' als. observe_all fx ln64 obs d = Some (d', als) \<and> window_inv fx (hist @ map snd obs) (alsw @ als) d' \<and>
      window d' = window d \<and> window_start d' = window_start d"
    using assms(1,3,4)
  proof (induction obs arbitrary: d hist alsw)
    case (Cons ob obs)
    obtain now later e where ob: "ob = ((now, later), e)" by (metis surj_pair)
    have "now < window_start d + window d" using Cons.prems(3) by (simp add: ob)
    then have "\<not> rolls now d" using Cons.prems(2) by (simp add: rolls_def)
    then obtain d1 n1 where d1: "observe fx ln64 (now, later) e d = Some (d1, n1)"
      "window_inv fx (hist @ [e]) (alsw @ n1) d1" "window d1 = window d" "window_start d1 = window_start d"
      using observe_cases [OF Cons.prems(1) assms(2), of now later e] by auto
    moreover obtain d' n2 where "observe_all fx ln64 obs d1 = Some (d', n2)"
      "window_inv fx ((hist @ [e]) @ map snd obs) ((alsw @ n1) @ n2) d'" "window d' = window d1" "window_start d' = window_start d1"
      using Cons.IH [OF d1(2)] Cons.prems d1(3,4) by auto
    ultimately show ?case
      by (intro exI [of _ d'] exI [of _ "n1 @ n2"]) (simp add: ob)
  qed simp
  then show ?thesis using that by blast
qed

text \<open>Fifty SYNs in one window, and no alert yet: the alert comes with these events.\<close>

lemma flood_without_roll:
  assumes "window_inv fx hist alsw d" and "ln_accurate ln64" and "0 < window d" and "before (window_start d + window d) obs"
    and "s \<notin> alerted_flood_this_window d" and "50 \<le> syn_count s (hist @ map snd obs)"
  obtains d' als where "observe_all fx ln64 obs d = Some (d', als)"
    and "ip_to_string s \<in> set (named_by ''syn-flood-anomaly'' als)"
proof -
  obtain d' als where r: "observe_all fx ln64 obs d = Some (d', als)"
    and i: "window_inv fx (hist @ map snd obs) (alsw @ als) d'"
    by (rule run_without_roll [OF assms(1-4)])
  have "s \<in> alerted_flood_this_window d'" using i assms(6) by (simp add: window_inv_def flood_inv_def)
  then have "ip_to_string s \<in> set (named_by ''syn-flood-anomaly'' (alsw @ als))"
    using i by (auto simp: window_inv_def flood_inv_def)
  moreover have "ip_to_string s \<notin> set (named_by ''syn-flood-anomaly'' alsw)"
    using assms(1,5) by (auto simp: window_inv_def flood_inv_def ip_to_string_inj)
  ultimately show ?thesis using r that by simp
qed

lemma syn_count_append [simp]: "syn_count s (xs @ ys) = syn_count s xs + syn_count s ys"
  by (simp add: syn_count_def)

lemma named_by_mono: "named_by r als \<noteq> [] \<Longrightarrow> set (named_by r als) \<subseteq> set (named_by r (als0 @ als @ als1))"
  by auto

lemma flood_in_interval:
  assumes inv: "window_inv fx hist alsw d" and ln: "ln_accurate ln64" and w: "0 < window d"
    and clock: "\<forall>ob \<in> set obs. T \<le> fst (fst ob) \<and> fst (fst ob) \<le> snd (fst ob) \<and> fst (fst ob) < T + window d"
    and fresh: "s \<notin> alerted_flood_this_window d" and many: "99 \<le> syn_count s (map snd obs)"
  shows "\<exists>d' als. observe_all fx ln64 obs d = Some (d', als) \<and> ip_to_string s \<in> set (named_by ''syn-flood-anomaly'' als)"
proof (cases "before (window_start d + window d) obs")
  case True
  have "50 \<le> syn_count s (hist @ map snd obs)" using many by simp
  from flood_without_roll [OF inv ln w True fresh this] show ?thesis by metis
next
  case False
  then obtain xs x zs where obs: "obs = xs @ x # zs" and x: "\<not> fst (fst x) < window_start d + window d"
    and xs: "before (window_start d + window d) xs"
    using split_list_first_prop [of obs "\<lambda>ob. \<not> fst (fst ob) < window_start d + window d"] by (auto simp: before_def)
  obtain now later e where xe: "x = ((now, later), e)" by (metis surj_pair)
  obtain d1 n1 where r1: "observe_all fx ln64 xs d = Some (d1, n1)" and i1: "window_inv fx (hist @ map snd xs) (alsw @ n1) d1"
    and f1: "window d1 = window d" "window_start d1 = window_start d"
    by (rule run_without_roll [OF inv ln w xs])
  have "rolls now d1" using x f1 by (simp add: rolls_def xe)
  then obtain d2 n2 where r2: "observe fx ln64 (now, later) e d1 = Some (d2, n2)" and i2: "window_inv fx [e] n2 d2"
    and f2: "window d2 = window d" "window_start d2 = later"
    using observe_cases [OF i1 ln, of now later e] f1 by auto
  have zs: "before (window_start d2 + window d2) zs"
    unfolding before_def
  proof
    fix y assume "y \<in> set zs"
    then have "fst (fst y) < T + window d" using clock by (simp add: obs)
    moreover have "T \<le> now \<and> now \<le> later" using clock by (simp add: obs xe)
    ultimately show "fst (fst y) < window_start d2 + window d2" by (simp only: f2) linarith
  qed
  have w2: "0 < window d2" using w f2 by simp
  have run: "observe_all fx ln64 obs d = Some (d3, n1 @ n2 @ n3)" if "observe_all fx ln64 zs d2 = Some (d3, n3)" for d3 n3
    by (simp add: obs detector_run_append r1 xe r2 that)
  obtain d3 n3 where r3: "observe_all fx ln64 zs d2 = Some (d3, n3)"
    by (rule run_without_roll [OF i2 ln w2 zs]) blast
  have parts: "99 \<le> syn_count s (map snd xs) + syn_count s ([e] @ map snd zs)" using many by (simp add: obs xe syn_count_def)
  show ?thesis
  proof (cases "50 \<le> syn_count s (map snd xs)")
    case True
    then have "50 \<le> syn_count s (hist @ map snd xs)" by simp
    from flood_without_roll [OF inv ln w xs fresh this] have "ip_to_string s \<in> set (named_by ''syn-flood-anomaly'' n1)"
      using r1 by (metis option.inject prod.inject)
    with run [OF r3] show ?thesis by auto
  next
    case False
    then have c: "50 \<le> syn_count s ([e] @ map snd zs)" using parts by linarith
    show ?thesis
    proof (cases "s \<in> alerted_flood_this_window d2")
      case True
      then have "ip_to_string s \<in> set (named_by ''syn-flood-anomaly'' n2)" using i2 by (auto simp: window_inv_def flood_inv_def)
      with run [OF r3] show ?thesis by auto
    next
      case False
      from flood_without_roll [OF i2 ln w2 zs False c] have "ip_to_string s \<in> set (named_by ''syn-flood-anomaly'' n3)"
        using r3 by (metis option.inject prod.inject)
      with run [OF r3] show ?thesis by auto
    qed
  qed
qed

lemma run_window_inv:
  assumes "window_inv fx hist als d" and "ln_accurate ln64" and "observe_all fx ln64 obs d = Some (d', new)"
  shows "(\<exists>hist' als'. window_inv fx hist' als' d' \<and> set als' \<subseteq> set als \<union> set new) \<and> window d' = window d"
  using assms(1,3)
proof (induction obs arbitrary: d hist als new)
  case (Cons ob obs)
  obtain now later e where ob: "ob = ((now, later), e)" by (metis surj_pair)
  obtain d1 n1 hist1 als1 where d1: "observe fx ln64 (now, later) e d = Some (d1, n1)" and w: "window d1 = window d"
    and i1: "window_inv fx hist1 als1 d1" "set als1 \<subseteq> set als \<union> set n1"
    using observe_cases [OF Cons.prems(1) assms(2), of now later e] by (auto split: if_splits)
  moreover from d1 obtain n2 where r: "observe_all fx ln64 obs d1 = Some (d', n2)" and new: "new = n1 @ n2"
    using Cons.prems(2) by (auto simp: ob split: bind_splits)
  have "(\<exists>hist' als'. window_inv fx hist' als' d' \<and> set als' \<subseteq> set als1 \<union> set n2) \<and> window d' = window d1"
    by (rule Cons.IH [OF i1(1) r])
  with i1(2) w show ?case unfolding new set_append by (metis (no_types, lifting) Un_assoc Un_mono order_refl subset_trans)
qed auto

text \<open>
  The tumbling window costs at most a factor of two. After any history, 99 SYN packets of
  one source whose clock readings lie in any interval shorter than the window, wherever the
  interval falls relative to the window boundaries and whatever other packets come in between,
  raise a flood alert naming that source, unless the source was already reported in the
  current window. Together with window_does_not_slide the bound of 99 cannot be lowered.
\<close>

theorem flood_of_99_detected_in_any_interval:
  assumes "ln_accurate ln64" and "0 < w" and "observe_all fx ln64 pre (anomaly_new t0 w) = Some (d, als0)"
    and "\<forall>ob \<in> set obs. T \<le> fst (fst ob) \<and> fst (fst ob) \<le> snd (fst ob) \<and> fst (fst ob) < T + w"
    and "s \<notin> alerted_flood_this_window d"
    and "99 \<le> length (filter (\<lambda>ob. is_syn (snd ob) \<and> src_ip (snd ob) = s) obs)"
  shows "\<exists>d' als. observe_all fx ln64 obs d = Some (d', als) \<and> ip_to_string s \<in> set (named_by ''syn-flood-anomaly'' als)"
proof -
  from run_window_inv [OF window_inv_new assms(1,3)] obtain hist alsw where i: "window_inv fx hist alsw d"
    and "window d = w" by (auto simp: anomaly_new_def)
  moreover have "99 \<le> syn_count s (map snd obs)" using assms(6) by (simp add: syn_count_def filter_map comp_def)
  ultimately show ?thesis using flood_in_interval [OF i assms(1)] assms(2,4,5) by simp
qed

theorem flood_of_99_detected_in_any_interval_witness:
  "\<exists>d' als. observe_all top_byte_hasher ln_rounded
      (replicate 49 ((4999999999, 4999999999), syn_packet 80) @ replicate 50 ((5000000000, 5000000000), syn_packet 80))
      (anomaly_new 0 5000000000) = Some (d', als) \<and>
    ip_to_string 0x0A000001 \<in> set (named_by ''syn-flood-anomaly'' als)"
proof (rule flood_of_99_detected_in_any_interval [OF ln_rounded_accurate, of 5000000000 _ "[]" 0 _ "[]" _ 4999999999])
  show "99 \<le> length (filter (\<lambda>ob. is_syn (snd ob) \<and> src_ip (snd ob) = 0x0A000001)
     (replicate 49 ((4999999999, 4999999999), syn_packet 80) @ replicate 50 ((5000000000, 5000000000), syn_packet 80)))"
    by (simp add: filter_replicate)
  show "0x0A000001 \<notin> alerted_flood_this_window (anomaly_new 0 5000000000)" by (simp add: anomaly_new_def)
qed auto

end
