(* ===== verification/Utf8.thy ===== *)
theory Utf8
  imports Prelude
begin

section \<open>Lossy UTF-8 decoding\<close>

text \<open>
  \<^verbatim>\<open>String::from_utf8_lossy\<close> of the standard library, which the CEP conditions apply to payloads:
  valid characters are kept and every maximal invalid prefix becomes one replacement character.
  A Rust string is its UTF-8 bytes, and \<^verbatim>\<open>str::contains\<close> is the search for a block of bytes.
  The lemma \<open>utf8_lossy_contains_ascii\<close> shows that, for an ASCII needle, the decoding changes nothing.
\<close>

definition is_cont :: "u8 option \<Rightarrow> bool" where
  "is_cont b = (case b of None \<Rightarrow> False | Some c \<Rightarrow> 0x80 \<le> c \<and> c \<le> 0xBF)"

definition second_ok :: "u8 \<Rightarrow> u8 option \<Rightarrow> bool" where
  "second_ok b b2 = (case b2 of None \<Rightarrow> False | Some c \<Rightarrow>
     if b = 0xE0 then 0xA0 \<le> c \<and> c \<le> 0xBF
     else if b = 0xED then 0x80 \<le> c \<and> c \<le> 0x9F
     else if b = 0xF0 then 0x90 \<le> c \<and> c \<le> 0xBF
     else if b = 0xF4 then 0x80 \<le> c \<and> c \<le> 0x8F
     else 0x80 \<le> c \<and> c \<le> 0xBF)"

text \<open>The length of the next chunk of a nonempty input, and whether it is a valid character.\<close>

definition utf8_chunk :: "u8 \<Rightarrow> bytes \<Rightarrow> nat \<times> bool" where
  "utf8_chunk b rest =
     (if b < 0x80 then (1, True)
      else if 0xC2 \<le> b \<and> b \<le> 0xDF then
        (if is_cont (nth_opt rest 0) then (2, True) else (1, False))
      else if 0xE0 \<le> b \<and> b \<le> 0xEF then
        (if second_ok b (nth_opt rest 0)
         then (if is_cont (nth_opt rest 1) then (3, True) else (2, False))
         else (1, False))
      else if 0xF0 \<le> b \<and> b \<le> 0xF4 then
        (if second_ok b (nth_opt rest 0)
         then (if is_cont (nth_opt rest 1)
               then (if is_cont (nth_opt rest 2) then (4, True) else (3, False))
               else (2, False))
         else (1, False))
      else (1, False))"

definition replacement_char :: bytes where
  "replacement_char = [0xEF, 0xBF, 0xBD]"

function utf8_lossy :: "bytes \<Rightarrow> bytes" where
  "utf8_lossy [] = []"
| "utf8_lossy (b # rest) =
     (let (n, ok) = utf8_chunk b rest
      in (if ok then take n (b # rest) else replacement_char) @ utf8_lossy (drop (n - 1) rest))"
  by pat_completeness auto
termination by (relation "measure length") auto

definition ascii :: "bytes \<Rightarrow> bool" where
  "ascii bs \<longleftrightarrow> (\<forall>b \<in> set bs. b < 0x80)"

definition non_ascii :: "bytes \<Rightarrow> bool" where
  "non_ascii bs \<longleftrightarrow> (\<forall>b \<in> set bs. \<not> b < 0x80)"

text \<open>A chunk is one ASCII byte or a nonempty block of other bytes.\<close>

lemma chunk_ascii: "b < 0x80 \<Longrightarrow> utf8_chunk b rest = (1, True)"
  by (simp add: utf8_chunk_def)

lemma is_cont_bytes: "is_cont (nth_opt bs i) \<Longrightarrow> i < length bs \<and> \<not> bs ! i < 0x80"
  by (auto simp: is_cont_def nth_opt_def split: if_splits option.splits)

lemma second_ok_bytes: "second_ok b (nth_opt bs i) \<Longrightarrow> i < length bs \<and> \<not> bs ! i < 0x80"
  by (auto simp: second_ok_def nth_opt_def not_less split: if_splits option.splits
      intro: order_trans [of "0x80" "0xA0"] order_trans [of "0x80" "0x90"])

lemma chunk_non_ascii:
  assumes "\<not> b < 0x80" and "utf8_chunk b rest = (n, ok)"
  shows "1 \<le> n \<and> n - 1 \<le> length rest \<and> non_ascii (take (n - 1) rest)"
proof -
  have nil: "non_ascii (take 0 rest)" by (simp add: non_ascii_def)
  have suc: "non_ascii (take (Suc k) rest)" if "k < length rest" "\<not> rest ! k < 0x80" "non_ascii (take k rest)" for k
    using that by (simp add: non_ascii_def take_Suc_conv_app_nth)
  have one: "non_ascii (take 1 rest) \<and> 1 \<le> length rest" if "0 < length rest \<and> \<not> rest ! 0 < 0x80"
    using that suc [of 0] nil by (cases rest) simp_all
  have two: "non_ascii (take 2 rest) \<and> 2 \<le> length rest"
    if "0 < length rest \<and> \<not> rest ! 0 < 0x80" "1 < length rest \<and> \<not> rest ! 1 < 0x80"
    using that suc [of 1] one by (simp add: numeral_2_eq_2)
  have three: "non_ascii (take 3 rest) \<and> 3 \<le> length rest"
    if "0 < length rest \<and> \<not> rest ! 0 < 0x80" "1 < length rest \<and> \<not> rest ! 1 < 0x80" "2 < length rest \<and> \<not> rest ! 2 < 0x80"
    using that suc [of 2] two by (simp add: numeral_3_eq_3 numeral_2_eq_2)
  have len: "2 \<le> length rest" if "is_cont (nth_opt rest (Suc 0))" using is_cont_bytes [OF that] by simp
  have len3: "3 \<le> length rest" if "is_cont (nth_opt rest 2)" using is_cont_bytes [OF that] by simp
  from assms show ?thesis
    unfolding utf8_chunk_def
    using len len3 one two three nil is_cont_bytes [of rest] second_ok_bytes [of b rest]
    by (auto split: if_splits)
qed

lemma utf8_lossy_ascii_head: "b < 0x80 \<Longrightarrow> utf8_lossy (b # rest) = b # utf8_lossy rest"
  by (simp add: chunk_ascii)

lemma utf8_lossy_non_ascii_head:
  assumes "\<not> b < 0x80"
  obtains c c' rest' where "b # rest = c @ rest'" and "utf8_lossy (b # rest) = c' @ utf8_lossy rest'"
    and "non_ascii c" and "non_ascii c'" and "c \<noteq> []" and "c' \<noteq> []" and "length rest' \<le> length rest"
proof -
  obtain n ok where n: "utf8_chunk b rest = (n, ok)" by (cases "utf8_chunk b rest")
  note ch = chunk_non_ascii [OF assms n]
  let ?c = "b # take (n - 1) rest" and ?r = "drop (n - 1) rest"
  have c: "non_ascii ?c" using assms ch by (simp add: non_ascii_def)
  have tk: "take n (b # rest) = ?c" using ch by (cases n) simp_all
  show ?thesis
  proof (rule that)
    show "b # rest = ?c @ ?r" by simp
    show "utf8_lossy (b # rest) = (if ok then ?c else replacement_char) @ utf8_lossy ?r"
      by (simp add: n tk)
    show "non_ascii (if ok then ?c else replacement_char)"
      using c by (simp add: non_ascii_def replacement_char_def)
    show "(if ok then ?c else replacement_char) \<noteq> []" by (simp add: replacement_char_def)
  qed (use c in simp_all)
qed

lemma prefix_non_ascii:
  assumes "ascii p" and "p \<noteq> []" and "non_ascii c" and "c \<noteq> []"
  shows "\<not> prefix p (c @ ys)"
  using assms by (cases p; cases c) (auto simp: ascii_def non_ascii_def)

lemma sublist_non_ascii:
  assumes "ascii p" and "p \<noteq> []" and "non_ascii c"
  shows "sublist p (c @ ys) \<longleftrightarrow> sublist p ys"
  using assms(3)
proof (induction c)
  case (Cons b c)
  have "\<not> prefix p ([b] @ (c @ ys))"
    using Cons.prems by (intro prefix_non_ascii [OF assms(1,2)]) (simp_all add: non_ascii_def)
  with Cons show ?case by (simp add: sublist_Cons_right non_ascii_def)
qed simp

lemma prefix_utf8_lossy:
  assumes "ascii p"
  shows "prefix p (utf8_lossy bs) \<longleftrightarrow> prefix p bs"
  using assms
proof (induction p arbitrary: bs)
  case (Cons a p)
  show ?case
  proof (cases bs)
    case (Cons b rest)
    show ?thesis
    proof (cases "b < 0x80")
      case True
      then show ?thesis
        using Cons.IH [of rest] Cons.prems by (simp add: Cons utf8_lossy_ascii_head ascii_def del: utf8_lossy.simps)
    next
      case False
      obtain c c' rest' where "b # rest = c @ rest'" "utf8_lossy (b # rest) = c' @ utf8_lossy rest'"
        "non_ascii c" "non_ascii c'" "c \<noteq> []" "c' \<noteq> []"
        by (rule utf8_lossy_non_ascii_head [OF False])
      with prefix_non_ascii [OF Cons.prems] show ?thesis by (simp add: Cons del: utf8_lossy.simps)
    qed
  qed simp
qed simp

lemma utf8_lossy_contains_ascii:
  assumes "ascii p" and "p \<noteq> []"
  shows "sublist p (utf8_lossy bs) \<longleftrightarrow> sublist p bs"
proof (induction bs rule: length_induct)
  case (1 bs)
  show ?case
  proof (cases bs)
    case (Cons b rest)
    show ?thesis
    proof (cases "b < 0x80")
      case True
      have "prefix p (b # utf8_lossy rest) \<longleftrightarrow> prefix p (b # rest)"
        using prefix_utf8_lossy [OF assms(1), of "b # rest"] True by (simp add: utf8_lossy_ascii_head del: utf8_lossy.simps)
      with 1 show ?thesis
        using True by (simp add: Cons utf8_lossy_ascii_head sublist_Cons_right del: utf8_lossy.simps)
    next
      case False
      obtain c c' rest' where d: "b # rest = c @ rest'" "utf8_lossy (b # rest) = c' @ utf8_lossy rest'"
        and na: "non_ascii c" "non_ascii c'" and l: "length rest' \<le> length rest"
        by (rule utf8_lossy_non_ascii_head [OF False])
      have "sublist p (utf8_lossy rest') \<longleftrightarrow> sublist p rest'"
        using 1 l by (simp add: Cons del: utf8_lossy.simps)
      then show ?thesis
        by (simp only: Cons d(2) sublist_non_ascii [OF assms na(2)]) (simp only: d(1) sublist_non_ascii [OF assms na(1)])
    qed
  qed simp
qed

end
