(* ===== verification/Cep.thy ===== *)
theory Cep
  imports Models Utf8 Detector
begin

section \<open>The complex-event-processing engine\<close>

text \<open>
  \<^verbatim>\<open>engine/src/detection/cep.rs\<close>: rules are sequences of conditions; for every rule and source
  address the engine keeps the partial matches in progress. The clock is read once per event.
\<close>

subsection \<open>Model\<close>

datatype Condition = IsSynOnly | HasSignaturePayload | DistinctPortAbove u16

fun matches :: "Condition \<Rightarrow> NetworkEvent \<Rightarrow> bool" where
  "matches IsSynOnly e = is_syn e"
| "matches HasSignaturePayload e =
     (payload_sample e \<noteq> [] \<and> sublist (bytes_of ''passwd'') (utf8_lossy (payload_sample e)))"
| "matches (DistinctPortAbove p) e = (p < dst_port e)"

record CepRule =
  cep_name :: string
  cep_severity :: Severity
  steps :: "Condition list"
  cep_window :: duration

record PartialMatch =
  pm_step :: nat
  started_at :: instant

record CepEngine =
  cep_rules :: "CepRule list"
  active :: "(u32 \<rightharpoonup> PartialMatch list) list"
  cep_next_id :: u64

definition cep_of_rules :: "CepRule list \<Rightarrow> CepEngine" where
  "cep_of_rules rs = \<lparr>cep_rules = rs, active = map (\<lambda>_. Map.empty) rs, cep_next_id = 1\<rparr>"

definition default_cep_rule :: CepRule where
  "default_cep_rule = \<lparr>cep_name = ''probe-then-exploit-attempt'', cep_severity = Critical,
     steps = [IsSynOnly, HasSignaturePayload], cep_window = 5000000000\<rparr>"

definition cep_with_default_rules :: CepEngine where
  "cep_with_default_rules = cep_of_rules [default_cep_rule]"

text \<open>The loop over the partial matches in reverse order, which stops at the first completion; the
  list is given in that order.\<close>

fun advance_rev :: "Condition list \<Rightarrow> NetworkEvent \<Rightarrow> PartialMatch list \<Rightarrow> PartialMatch list \<times> bool" where
  "advance_rev ss e [] = ([], False)"
| "advance_rev ss e (p # ps) =
     (if pm_step p < length ss \<and> matches (ss ! pm_step p) e then
        (let p' = p\<lparr>pm_step := pm_step p + 1\<rparr>
         in if pm_step p' = length ss then (p' # ps, True)
            else (let (ps', completed) = advance_rev ss e ps in (p' # ps', completed)))
      else (let (ps', completed) = advance_rev ss e ps in (p # ps', completed)))"

text \<open>What \<open>process\<close> does to the partial matches of one rule and key (lines 95-143).\<close>

definition rule_step :: "instant \<Rightarrow> CepRule \<Rightarrow> NetworkEvent \<Rightarrow> PartialMatch list \<Rightarrow> PartialMatch list \<times> bool" where
  "rule_step now r e partials =
     (let partials = filter (\<lambda>p. now - started_at p \<le> cep_window r) partials;
          (advanced, completed) = advance_rev (steps r) e (rev partials);
          partials = rev advanced;
          partials = (if completed then filter (\<lambda>p. pm_step p < length (steps r)) partials else partials);
          partials = (if steps r \<noteq> [] \<and> matches (steps r ! 0) e
                      then partials @ [\<lparr>pm_step = 1, started_at = now\<rparr>] else partials)
      in (partials, completed))"

definition cep_alert :: "u64 \<Rightarrow> CepRule \<Rightarrow> NetworkEvent \<Rightarrow> Alert" where
  "cep_alert n r e =
     \<lparr>alert_id = n, alert_timestamp_ms = timestamp_ms e, rule_name = cep_name r, severity = cep_severity r,
      alert_src_ip = src_ip_str e, alert_dst_ip = dst_ip_str e,
      detail = ''CEP rule '' @ [CHR 0x27] @ cep_name r @ [CHR 0x27] @ '' completed: '' @
        show_nat (length (steps r)) @ '' steps matched within '' @ fmt_duration (cep_window r),
      detector = Cep\<rparr>"

fun process_rules ::
    "instant \<Rightarrow> NetworkEvent \<Rightarrow> nat \<Rightarrow> CepRule list \<Rightarrow> CepEngine \<Rightarrow> Alert list \<Rightarrow> (CepEngine \<times> Alert list) option" where
  "process_rules now e i [] eng als = Some (eng, als)"
| "process_rules now e i (r # rs) eng als = do {
     m \<leftarrow> nth_opt (active eng) i;
     let partials = (case m (src_ip e) of None \<Rightarrow> [] | Some ps \<Rightarrow> ps);
     let (partials', completed) = rule_step now r e partials;
     let eng' = eng\<lparr>active := (active eng)[i := m(src_ip e \<mapsto> partials')]\<rparr>;
     if completed then
       process_rules now e (Suc i) rs (eng'\<lparr>cep_next_id := cep_next_id eng + 1\<rparr>)
         (als @ [cep_alert (cep_next_id eng) r e])
     else process_rules now e (Suc i) rs eng' als
   }"

definition process :: "instant \<Rightarrow> NetworkEvent \<Rightarrow> CepEngine \<Rightarrow> (CepEngine \<times> Alert list) option" where
  "process now e eng = process_rules now e 0 (cep_rules eng) eng []"

lemma matches_payload:
  "matches HasSignaturePayload e \<longleftrightarrow> sublist (bytes_of ''passwd'') (payload_sample e)"
proof -
  have "ascii (bytes_of ''passwd'')" "bytes_of ''passwd'' \<noteq> []"
    by (simp_all add: ascii_def word_less_nat_alt)
  from utf8_lossy_contains_ascii [OF this] show ?thesis by auto
qed

subsection \<open>The engine as a function of the events seen\<close>

type_synonym timed_event = "instant \<times> NetworkEvent"

definition of_source :: "u32 \<Rightarrow> timed_event list \<Rightarrow> timed_event list" where
  "of_source s hist = filter (\<lambda>x. src_ip (snd x) = s) hist"

text \<open>The partial matches of one rule after the events of one source.\<close>

definition key_state :: "CepRule \<Rightarrow> timed_event list \<Rightarrow> PartialMatch list" where
  "key_state r xs = foldl (\<lambda>ps x. fst (rule_step (fst x) r (snd x) ps)) [] xs"

definition cep_at :: "CepRule list \<Rightarrow> timed_event list \<Rightarrow> u64 \<Rightarrow> CepEngine" where
  "cep_at rs hist n =
     \<lparr>cep_rules = rs,
      active = map (\<lambda>r s. if of_source s hist = [] then None else Some (key_state r (of_source s hist))) rs,
      cep_next_id = n\<rparr>"

text \<open>The rules that the next event completes.\<close>

definition fires :: "timed_event list \<Rightarrow> timed_event \<Rightarrow> CepRule \<Rightarrow> bool" where
  "fires hist x r \<longleftrightarrow> snd (rule_step (fst x) r (snd x) (key_state r (of_source (src_ip (snd x)) hist)))"

fun number_alerts :: "u64 \<Rightarrow> CepRule list \<Rightarrow> NetworkEvent \<Rightarrow> Alert list" where
  "number_alerts n [] e = []"
| "number_alerts n (r # rs) e = cep_alert n r e # number_alerts (n + 1) rs e"

lemma of_source_simps [simp]:
  "of_source s [] = []"
  "of_source s (hist @ hist') = of_source s hist @ of_source s hist'"
  "of_source s (of_source s hist) = of_source s hist"
  "of_source s (x # hist) = (if src_ip (snd x) = s then x # of_source s hist else of_source s hist)"
  by (simp_all add: of_source_def)

lemma key_state_simps [simp]:
  "key_state r [] = []"
  "key_state r (xs @ [x]) = fst (rule_step (fst x) r (snd x) (key_state r xs))"
  by (simp_all add: key_state_def)

lemma cep_at_fields [simp]:
  "cep_rules (cep_at rs hist n) = rs" "cep_next_id (cep_at rs hist n) = n"
  "length (active (cep_at rs hist n)) = length rs"
  by (simp_all add: cep_at_def)

lemma cep_of_rules_at: "cep_of_rules rs = cep_at rs [] 1"
  by (simp add: cep_of_rules_def cep_at_def)

lemma number_alerts_simps [simp]:
  "length (number_alerts n rs e) = length rs"
  "ids_from n (number_alerts n rs e)"
  by (induction n rs e rule: number_alerts.induct) (simp_all add: cep_alert_def)

lemma number_alerts_set:
  "a \<in> set (number_alerts n rs e) \<Longrightarrow> \<exists>k. \<exists>r \<in> set rs. a = cep_alert k r e"
  by (induction n rs e rule: number_alerts.induct) auto

definition next_active :: "instant \<Rightarrow> NetworkEvent \<Rightarrow> CepRule \<Rightarrow> (u32 \<rightharpoonup> PartialMatch list) \<Rightarrow> (u32 \<rightharpoonup> PartialMatch list)" where
  "next_active now e r m =
     m(src_ip e \<mapsto> fst (rule_step now r e (case m (src_ip e) of None \<Rightarrow> [] | Some ps \<Rightarrow> ps)))"

definition completes :: "instant \<Rightarrow> NetworkEvent \<Rightarrow> CepRule \<Rightarrow> (u32 \<rightharpoonup> PartialMatch list) \<Rightarrow> bool" where
  "completes now e r m \<longleftrightarrow> snd (rule_step now r e (case m (src_ip e) of None \<Rightarrow> [] | Some ps \<Rightarrow> ps))"

lemma process_rules_eq:
  assumes "active eng = old @ todo" and "length old = i" and "length todo = length rs"
  shows "process_rules now e i rs eng als =
    (let done_rules = map fst (filter (\<lambda>(r, m). completes now e r m) (zip rs todo))
     in Some (eng\<lparr>active := old @ map2 (next_active now e) rs todo,
                  cep_next_id := cep_next_id eng + of_nat (length done_rules)\<rparr>,
              als @ number_alerts (cep_next_id eng) done_rules e))"
  using assms
proof (induction rs arbitrary: i eng als old todo)
  case (Cons r rs)
  obtain m todo' where todo: "todo = m # todo'" using Cons.prems(3) by (cases todo) auto
  let ?ps = "case m (src_ip e) of None \<Rightarrow> [] | Some ps \<Rightarrow> ps"
  obtain ps' c where st: "rule_step now r e ?ps = (ps', c)" by (cases "rule_step now r e ?ps")
  have get: "nth_opt (active eng) i = Some m"
    using Cons.prems by (simp add: nth_opt_def todo nth_append)
  have na: "next_active now e r m = m(src_ip e \<mapsto> ps')" by (simp add: next_active_def st)
  have upd: "(active eng)[i := m(src_ip e \<mapsto> ps')] = (old @ [next_active now e r m]) @ todo'"
    unfolding na using Cons.prems(1) by (simp add: todo flip: Cons.prems(2))
  have c: "completes now e r m = c" by (simp add: completes_def st)
  show ?case
  proof (cases c)
    case True
    let ?eng = "eng\<lparr>active := (active eng)[i := m(src_ip e \<mapsto> ps')], cep_next_id := cep_next_id eng + 1\<rparr>"
    have "process_rules now e i (r # rs) eng als =
        process_rules now e (Suc i) rs ?eng (als @ [cep_alert (cep_next_id eng) r e])"
      by (simp add: get st True)
    also have "\<dots> = (let done_rules = map fst (filter (\<lambda>(r, m). completes now e r m) (zip rs todo'))
     in Some (?eng\<lparr>active := (old @ [next_active now e r m]) @ map2 (next_active now e) rs todo',
                  cep_next_id := cep_next_id ?eng + of_nat (length done_rules)\<rparr>,
              (als @ [cep_alert (cep_next_id eng) r e]) @ number_alerts (cep_next_id ?eng) done_rules e))"
      using Cons.prems(2,3) by (intro Cons.IH) (simp_all add: upd todo)
    finally show ?thesis by (simp add: Let_def todo c True add.assoc)
  next
    case False
    let ?eng = "eng\<lparr>active := (active eng)[i := m(src_ip e \<mapsto> ps')]\<rparr>"
    have "process_rules now e i (r # rs) eng als = process_rules now e (Suc i) rs ?eng als"
      by (simp add: get st False)
    also have "\<dots> = (let done_rules = map fst (filter (\<lambda>(r, m). completes now e r m) (zip rs todo'))
     in Some (?eng\<lparr>active := (old @ [next_active now e r m]) @ map2 (next_active now e) rs todo',
                  cep_next_id := cep_next_id ?eng + of_nat (length done_rules)\<rparr>,
              als @ number_alerts (cep_next_id ?eng) done_rules e))"
      using Cons.prems(2,3) by (intro Cons.IH) (simp_all add: upd todo)
    finally show ?thesis by (simp add: Let_def todo c False)
  qed
qed simp

lemma zip_map2_same: "filter P (zip rs (map f rs)) = map (\<lambda>r. (r, f r)) (filter (\<lambda>r. P (r, f r)) rs)"
  by (induction rs) auto

lemma process_at:
  "process now e (cep_at rs hist n) =
    (let done_rules = filter (fires hist (now, e)) rs
     in Some (cep_at rs (hist @ [(now, e)]) (n + of_nat (length done_rules)), number_alerts n done_rules e))"
proof -
  let ?f = "\<lambda>r s. if of_source s hist = [] then None else Some (key_state r (of_source s hist))"
  have get: "(case ?f r (src_ip e) of None \<Rightarrow> [] | Some ps \<Rightarrow> ps) = key_state r (of_source (src_ip e) hist)" for r
    by simp
  have act: "active (cep_at rs hist n) = [] @ map ?f rs" by (simp add: cep_at_def)
  have na: "next_active now e r (?f r) =
      (\<lambda>s. if of_source s (hist @ [(now, e)]) = [] then None else Some (key_state r (of_source s (hist @ [(now, e)]))))" for r
    unfolding next_active_def get by (auto simp: fun_eq_iff)
  have "map2 (next_active now e) rs (map ?f rs) = map (\<lambda>r. next_active now e r (?f r)) rs"
    by (simp add: zip_map2 zip_same_conv_map comp_def)
  also have "\<dots> = active (cep_at rs (hist @ [(now, e)]) k)" for k unfolding na by (simp add: cep_at_def)
  finally have m: "map2 (next_active now e) rs (map ?f rs) = active (cep_at rs (hist @ [(now, e)]) k)" for k .
  have c: "completes now e r (?f r) \<longleftrightarrow> fires hist (now, e) r" for r
    unfolding completes_def get by (simp add: fires_def)
  have d: "map fst (filter (\<lambda>(r, m). completes now e r m) (zip rs (map ?f rs))) = filter (fires hist (now, e)) rs"
    unfolding zip_map2_same by (simp add: c comp_def)
  have "process now e (cep_at rs hist n) =
    (let done_rules = filter (fires hist (now, e)) rs
     in Some ((cep_at rs hist n)\<lparr>active := active (cep_at rs (hist @ [(now, e)]) 0),
                  cep_next_id := n + of_nat (length done_rules)\<rparr>, number_alerts n done_rules e))"
    unfolding process_def
    by (subst process_rules_eq [OF act]) (simp_all only: cep_at_fields length_map list.size d m [of 0] append_Nil)
  then show ?thesis by (simp add: cep_at_def Let_def)
qed

text \<open>Runs from the initial engine never panic and stay in the described states.\<close>

abbreviation cep_run :: "timed_event list \<Rightarrow> CepEngine \<Rightarrow> (CepEngine \<times> Alert list) option" where
  "cep_run \<equiv> detector_run (\<lambda>(now, e). process now e)"

fun alerts_after :: "CepRule list \<Rightarrow> timed_event list \<Rightarrow> u64 \<Rightarrow> timed_event list \<Rightarrow> Alert list" where
  "alerts_after rs hist n [] = []"
| "alerts_after rs hist n (x # xs) =
     (let done_rules = filter (fires hist x) rs
      in number_alerts n done_rules (snd x) @ alerts_after rs (hist @ [x]) (n + of_nat (length done_rules)) xs)"

lemma cep_run_at:
  "cep_run xs (cep_at rs hist n) =
     Some (cep_at rs (hist @ xs) (n + of_nat (length (alerts_after rs hist n xs))), alerts_after rs hist n xs)"
proof (induction xs arbitrary: hist n)
  case (Cons x xs)
  obtain now e where x: "x = (now, e)" by (cases x)
  show ?case by (simp add: x process_at Let_def Cons.IH [of "hist @ [(now, e)]"] add.assoc)
qed simp

lemma alerts_after_snoc:
  "\<exists>n'. alerts_after rs hist n (xs @ [x]) =
     alerts_after rs hist n xs @ number_alerts n' (filter (fires (hist @ xs) x) rs) (snd x)"
proof (induction xs arbitrary: hist n)
  case (Cons y ys)
  show ?case using Cons.IH [of "hist @ [y]" "n + of_nat (length (filter (fires hist y) rs))"]
    by (auto simp: Let_def)
qed (auto simp: Let_def)

interpretation cep: event_detector "\<lambda>eng. \<exists>rs hist n. eng = cep_at rs hist n" "\<lambda>(now, e). process now e" snd cep_next_id Cep
proof unfold_locales
  fix eng and x :: timed_event
  obtain now e where x: "x = (now, e)" by (cases x)
  assume "\<exists>rs hist n. eng = cep_at rs hist n"
  then obtain rs hist n where eng: "eng = cep_at rs hist n" by blast
  show "\<exists>s' als. (case x of (now, e) \<Rightarrow> process now e) eng = Some (s', als)"
    by (simp add: x eng process_at Let_def)
  fix s' als a
  assume "(case x of (now, e) \<Rightarrow> process now e) eng = Some (s', als)"
  then have s': "s' = cep_at rs (hist @ [(now, e)]) (n + of_nat (length (filter (fires hist (now, e)) rs)))"
    and als: "als = number_alerts n (filter (fires hist (now, e)) rs) e"
    by (simp_all add: x eng process_at Let_def)
  show "\<exists>rs hist n. s' = cep_at rs hist n" using s' by blast
  show "ids_from (cep_next_id eng) als \<and> cep_next_id s' = cep_next_id eng + of_nat (length als)"
    by (simp add: s' als eng)
  show "describes Cep (snd x) a" if "a \<in> set als"
    using number_alerts_set [OF that [unfolded als]] by (auto simp: x describes_def cep_alert_def)
qed

subsection \<open>Soundness\<close>

text \<open>\<open>w\<close> is a choice of events, in order, that satisfies the first conditions of \<open>ss\<close>.\<close>

definition witnesses :: "Condition list \<Rightarrow> timed_event list \<Rightarrow> bool" where
  "witnesses ss w \<longleftrightarrow> list_all2 (\<lambda>c x. matches c (snd x)) (take (length w) ss) w"

definition supported :: "CepRule \<Rightarrow> timed_event list \<Rightarrow> PartialMatch \<Rightarrow> bool" where
  "supported r xs p \<longleftrightarrow> 1 \<le> pm_step p \<and> pm_step p \<le> length (steps r) \<and>
     (\<exists>w. subseq w xs \<and> length w = pm_step p \<and> witnesses (steps r) w \<and> fst (hd w) = started_at p)"

lemma witnesses_snoc:
  assumes "witnesses ss w" and "length w < length ss" and "matches (ss ! length w) (snd x)"
  shows "witnesses ss (w @ [x])"
  using assms by (simp add: witnesses_def take_Suc_conv_app_nth list_all2_appendI)

lemma supported_later:
  assumes "supported r xs p"
  shows "supported r (xs @ [x]) p"
  using assms unfolding supported_def by (meson list_emb_append2 subseq_order.trans sublist_append_rightI sublist_imp_subseq)

lemma supported_advanced:
  assumes "supported r xs p" and "pm_step p < length (steps r)" and "matches (steps r ! pm_step p) (snd x)"
  shows "supported r (xs @ [x]) (p\<lparr>pm_step := pm_step p + 1\<rparr>)"
proof -
  obtain w where w: "subseq w xs" "length w = pm_step p" "witnesses (steps r) w" "fst (hd w) = started_at p"
    and one: "1 \<le> pm_step p"
    using assms(1) by (auto simp: supported_def)
  have "subseq (w @ [x]) (xs @ [x])" using w(1) by simp
  moreover have "witnesses (steps r) (w @ [x])" using witnesses_snoc [OF w(3)] w(2) assms(2,3) by simp
  moreover have "fst (hd (w @ [x])) = started_at p" using w one by (cases w) auto
  ultimately show ?thesis using w(2) assms(2) unfolding supported_def
    by (intro conjI exI [of _ "w @ [x]"]) simp_all
qed

lemma advance_rev_result:
  "advance_rev ss e ps = (ps', completed) \<Longrightarrow>
     (\<forall>p' \<in> set ps'. p' \<in> set ps \<or> (\<exists>p \<in> set ps. pm_step p < length ss \<and> matches (ss ! pm_step p) e \<and>
        p' = p\<lparr>pm_step := pm_step p + 1\<rparr>)) \<and>
     (completed \<longleftrightarrow> (\<exists>p \<in> set ps. pm_step p + 1 = length ss \<and> matches (ss ! pm_step p) e)) \<and>
     length ps' = length ps"
proof (induction ps arbitrary: ps' completed)
  case (Cons p ps)
  obtain qs c where q: "advance_rev ss e ps = (qs, c)" by (cases "advance_rev ss e ps")
  from Cons.prems Cons.IH [OF q] show ?case
    by (auto simp: q Let_def split: if_splits)
qed simp

lemma rule_step_cases:
  assumes "rule_step now r e ps = (ps', completed)"
  shows "p' \<in> set ps' \<Longrightarrow>
      (\<exists>p \<in> set ps. p' = p \<or> (pm_step p < length (steps r) \<and> matches (steps r ! pm_step p) e \<and>
         p' = p\<lparr>pm_step := pm_step p + 1\<rparr>)) \<or>
      (steps r \<noteq> [] \<and> matches (steps r ! 0) e \<and> p' = \<lparr>pm_step = 1, started_at = now\<rparr>)"
    and "completed \<longleftrightarrow> (\<exists>p \<in> set ps. now - started_at p \<le> cep_window r \<and> pm_step p + 1 = length (steps r) \<and>
           matches (steps r ! pm_step p) e)"
proof -
  let ?live = "filter (\<lambda>p. now - started_at p \<le> cep_window r) ps"
  obtain qs c where q: "advance_rev (steps r) e (rev ?live) = (qs, c)" by (cases "advance_rev (steps r) e (rev ?live)")
  note adv = advance_rev_result [OF q]
  have c: "completed = c" using assms by (simp add: rule_step_def Let_def q)
  show "completed \<longleftrightarrow> (\<exists>p \<in> set ps. now - started_at p \<le> cep_window r \<and> pm_step p + 1 = length (steps r) \<and>
           matches (steps r ! pm_step p) e)"
    using adv by (auto simp: c)
  assume "p' \<in> set ps'"
  then have "p' \<in> set qs \<or> (steps r \<noteq> [] \<and> matches (steps r ! 0) e \<and> p' = \<lparr>pm_step = 1, started_at = now\<rparr>)"
    using assms by (auto simp: rule_step_def Let_def q split: if_splits)
  then show "(\<exists>p \<in> set ps. p' = p \<or> (pm_step p < length (steps r) \<and> matches (steps r ! pm_step p) e \<and>
         p' = p\<lparr>pm_step := pm_step p + 1\<rparr>)) \<or>
      (steps r \<noteq> [] \<and> matches (steps r ! 0) e \<and> p' = \<lparr>pm_step = 1, started_at = now\<rparr>)"
    using adv by fastforce
qed

lemma key_state_supported: "p \<in> set (key_state r xs) \<Longrightarrow> supported r xs p"
proof (induction xs arbitrary: p rule: rev_induct)
  case (snoc x xs)
  obtain ps' c where st: "rule_step (fst x) r (snd x) (key_state r xs) = (ps', c)"
    by (cases "rule_step (fst x) r (snd x) (key_state r xs)")
  with snoc.prems have "p \<in> set ps'" by simp
  from rule_step_cases(1) [OF st this] show ?case
  proof (elim disjE bexE conjE)
    fix q assume "q \<in> set (key_state r xs)" "p = q"
    then show ?thesis using snoc.IH supported_later by blast
  next
    fix q assume "q \<in> set (key_state r xs)" "pm_step q < length (steps r)" "matches (steps r ! pm_step q) (snd x)"
      "p = q\<lparr>pm_step := pm_step q + 1\<rparr>"
    then show ?thesis using snoc.IH supported_advanced by blast
  next
    assume s: "steps r \<noteq> []" "matches (steps r ! 0) (snd x)" "p = \<lparr>pm_step = 1, started_at = fst x\<rparr>"
    then have "witnesses (steps r) [x]" by (cases "steps r") (simp_all add: witnesses_def)
    moreover have "subseq [x] (xs @ [x])" by (simp add: subseq_singleton_left)
    ultimately show ?thesis using s by (auto simp: supported_def Suc_le_eq intro!: exI [of _ "[x]"])
  qed
qed simp

lemma of_source_subseq: "subseq (of_source s hist) hist"
  by (simp add: of_source_def)

lemma fires_sound:
  assumes "fires hist x r"
  shows "\<exists>w. w \<noteq> [] \<and> subseq w hist \<and> fst x - fst (hd w) \<le> cep_window r \<and>
    list_all2 (\<lambda>c y. matches c (snd y) \<and> src_ip (snd y) = src_ip (snd x)) (steps r) (w @ [x])"
proof -
  let ?xs = "of_source (src_ip (snd x)) hist"
  obtain ps' where st: "rule_step (fst x) r (snd x) (key_state r ?xs) = (ps', True)"
    using assms by (cases "rule_step (fst x) r (snd x) (key_state r ?xs)") (simp add: fires_def)
  then obtain p where p: "p \<in> set (key_state r ?xs)" "fst x - started_at p \<le> cep_window r"
    "pm_step p + 1 = length (steps r)" "matches (steps r ! pm_step p) (snd x)"
    using rule_step_cases(2) [OF st] by auto
  obtain w where w: "subseq w ?xs" "length w = pm_step p" "witnesses (steps r) w" "fst (hd w) = started_at p"
    and one: "1 \<le> pm_step p"
    using key_state_supported [OF p(1)] by (auto simp: supported_def)
  have "witnesses (steps r) (w @ [x])" using witnesses_snoc [OF w(3)] w(2) p by simp
  then have m: "list_all2 (\<lambda>c y. matches c (snd y)) (steps r) (w @ [x])"
    using w(2) p(3) by (simp add: witnesses_def)
  have "set w \<subseteq> set ?xs" using list_emb_set [OF w(1)] by blast
  then have "\<forall>y \<in> set (w @ [x]). src_ip (snd y) = src_ip (snd x)" by (auto simp: of_source_def)
  then have "list_all2 (\<lambda>c y. matches c (snd y) \<and> src_ip (snd y) = src_ip (snd x)) (steps r) (w @ [x])"
    by (intro list.rel_mono_strong [OF m]) blast
  moreover have "subseq w hist" using w(1) of_source_subseq subseq_order.trans by blast
  moreover have "w \<noteq> []" using w(2) one by auto
  ultimately show ?thesis using w(4) p(2) by auto
qed

subsection \<open>Properties of runs\<close>

lemma alerts_after_origin:
  assumes "a \<in> set (alerts_after rs hist n xs)"
  shows "\<exists>old x new k. \<exists>r \<in> set rs. xs = old @ x # new \<and> fires (hist @ old) x r \<and> a = cep_alert k r (snd x)"
  using assms
proof (induction xs arbitrary: hist n)
  case (Cons y ys)
  let ?done = "filter (fires hist y) rs"
  consider "a \<in> set (number_alerts n ?done (snd y))"
    | "a \<in> set (alerts_after rs (hist @ [y]) (n + of_nat (length ?done)) ys)"
    using Cons.prems by (auto simp: Let_def)
  then show ?case
  proof cases
    case 1
    from number_alerts_set [OF this] obtain k r where "r \<in> set rs" "fires hist y r" "a = cep_alert k r (snd y)"
      by auto
    then show ?thesis by (intro exI [of _ "[]"] exI [of _ y] exI [of _ ys] exI [of _ k]) auto
  next
    case 2
    from Cons.IH [OF this] obtain old x new k r where o: "r \<in> set rs" "ys = old @ x # new"
      "fires ((hist @ [y]) @ old) x r" "a = cep_alert k r (snd x)" by blast
    then show ?thesis by (intro exI [of _ "y # old"] exI [of _ x] exI [of _ new] exI [of _ k]) auto
  qed
qed simp

text \<open>
  C14: No false sequence. For every set of rules and every run, the engine never panics, and
  behind every alert stands a choice of at least two events of the run, in order and all from
  the source the alert names, that satisfies the rule's conditions one by one, ends in the
  event the alert describes, and spans at most the rule's window.
\<close>

theorem cep_alerts_sound:
  "\<exists>eng als. cep_run xs (cep_of_rules rs) = Some (eng, als) \<and>
    (\<forall>a \<in> set als. \<exists>r \<in> set rs. \<exists>w x. w \<noteq> [] \<and> subseq (w @ [x]) xs \<and>
       list_all2 (\<lambda>c y. matches c (snd y) \<and> src_ip (snd y) = src_ip (snd x)) (steps r) (w @ [x]) \<and>
       fst x - fst (hd w) \<le> cep_window r \<and> rule_name a = cep_name r \<and> describes Cep (snd x) a)"
proof -
  have r: "cep_run xs (cep_of_rules rs) = Some (cep_at rs xs (1 + of_nat (length (alerts_after rs [] 1 xs))), alerts_after rs [] 1 xs)"
    using cep_run_at [of xs rs "[]" 1] by (simp add: cep_of_rules_at)
  have "\<exists>r \<in> set rs. \<exists>w x. w \<noteq> [] \<and> subseq (w @ [x]) xs \<and>
       list_all2 (\<lambda>c y. matches c (snd y) \<and> src_ip (snd y) = src_ip (snd x)) (steps r) (w @ [x]) \<and>
       fst x - fst (hd w) \<le> cep_window r \<and> rule_name a = cep_name r \<and> describes Cep (snd x) a"
    if a: "a \<in> set (alerts_after rs [] 1 xs)" for a
  proof -
    from alerts_after_origin [OF a] obtain old x new k r where o: "r \<in> set rs" "xs = old @ x # new"
      "fires ([] @ old) x r" "a = cep_alert k r (snd x)" by blast
    then have "fires old x r" by simp
    from fires_sound [OF this] obtain w where w: "w \<noteq> []" "subseq w old" "fst x - fst (hd w) \<le> cep_window r"
      "list_all2 (\<lambda>c y. matches c (snd y) \<and> src_ip (snd y) = src_ip (snd x)) (steps r) (w @ [x])" by blast
    have "subseq (w @ [x]) (old @ x # new)" using w(2) by (intro list_emb_append_mono) simp_all
    moreover have "rule_name a = cep_name r \<and> describes Cep (snd x) a"
      by (simp add: o(4) describes_def cep_alert_def)
    ultimately show ?thesis using o w
      by (intro bexI [of _ r] exI [of _ w] exI [of _ x]) simp_all
  qed
  with r show ?thesis by blast
qed

text \<open>Alerts without their numbers.\<close>

definition unnumbered :: "Alert \<Rightarrow> Alert" where
  "unnumbered a = a\<lparr>alert_id := 0\<rparr>"

lemma unnumbered_number_alerts: "map unnumbered (number_alerts n rs e) = map (\<lambda>r. cep_alert 0 r e) rs"
  by (induction n rs e rule: number_alerts.induct) (simp_all add: unnumbered_def cep_alert_def)

lemma fires_own_events: "src_ip (snd x) = s \<Longrightarrow> fires (of_source s hist) x r \<longleftrightarrow> fires hist x r"
  by (simp add: fires_def)

lemma number_alerts_source: "a \<in> set (number_alerts n rs e) \<Longrightarrow> alert_src_ip a = ip_to_string (src_ip e)"
  by (auto dest!: number_alerts_set simp: cep_alert_def src_ip_str_def)

lemma own_alerts:
  "map unnumbered (filter (\<lambda>a. alert_src_ip a = ip_to_string s) (alerts_after rs [] n xs)) =
   map unnumbered (alerts_after rs [] m (of_source s xs))"
proof (induction xs rule: rev_induct)
  case (snoc x xs)
  obtain k where k: "alerts_after rs [] n (xs @ [x]) =
      alerts_after rs [] n xs @ number_alerts k (filter (fires xs x) rs) (snd x)"
    using alerts_after_snoc [of rs "[]" n xs x] by auto
  show ?case
  proof (cases "src_ip (snd x) = s")
    case True
    obtain k' where k': "alerts_after rs [] m (of_source s xs @ [x]) =
        alerts_after rs [] m (of_source s xs) @ number_alerts k' (filter (fires (of_source s xs) x) rs) (snd x)"
      using alerts_after_snoc [of rs "[]" m "of_source s xs" x] by auto
    have "filter (fires (of_source s xs) x) rs = filter (fires xs x) rs"
      using fires_own_events [OF True] by (intro filter_cong) auto
    moreover have "filter (\<lambda>a. alert_src_ip a = ip_to_string s) (number_alerts k (filter (fires xs x) rs) (snd x)) =
        number_alerts k (filter (fires xs x) rs) (snd x)"
      using number_alerts_source True by (simp add: filter_id_conv)
    ultimately show ?thesis using True snoc by (simp add: k k' unnumbered_number_alerts)
  next
    case False
    then have "filter (\<lambda>a. alert_src_ip a = ip_to_string s) (number_alerts k (filter (fires xs x) rs) (snd x)) = []"
      using number_alerts_source by (fastforce simp: filter_empty_conv ip_to_string_inj)
    then show ?thesis using False snoc by (simp add: k)
  qed
qed simp

text \<open>
  Correlation is by source only. For every set of rules and every run, the alerts naming
  one source are, up to their numbers, those of a run that sees the events of this source
  alone.
\<close>

theorem cep_sources_do_not_interfere:
  "\<exists>eng als eng' als'. cep_run xs (cep_of_rules rs) = Some (eng, als) \<and>
    cep_run (filter (\<lambda>x. src_ip (snd x) = s) xs) (cep_of_rules rs) = Some (eng', als') \<and>
    map unnumbered (filter (\<lambda>a. alert_src_ip a = ip_to_string s) als) = map unnumbered als'"
  using own_alerts [of s rs 1 xs 1] by (simp add: cep_of_rules_at cep_run_at of_source_def)

text \<open>A rule with one condition completes nothing: a new partial match starts past the only step.\<close>

lemma short_rule_never_fires:
  assumes "length (steps r) \<le> 1"
  shows "\<not> fires hist x r"
proof
  assume "fires hist x r"
  then obtain w where "w \<noteq> []" "list_all2 (\<lambda>c y. matches c (snd y) \<and> src_ip (snd y) = src_ip (snd x)) (steps r) (w @ [x])"
    using fires_sound by blast
  then have "length (steps r) = length w + 1" "0 < length w" by (auto dest: list_all2_lengthD)
  with assms show False by simp
qed

text \<open>
  C37: A rule with a single condition is accepted and never fires: an engine whose rules have
  at most one step raises no alert in any run, because a new partial match starts behind the
  only step and completion is checked only when a match advances.
\<close>

theorem one_step_rules_never_fire:
  assumes "\<forall>r \<in> set rs. length (steps r) \<le> 1"
  shows "\<exists>eng. cep_run xs (cep_of_rules rs) = Some (eng, [])"
proof -
  have "alerts_after rs hist n ys = []" for hist n ys
  proof (induction ys arbitrary: hist n)
    case (Cons y ys)
    have "filter (fires hist y) rs = []" using assms short_rule_never_fires by (auto simp: filter_empty_conv)
    with Cons show ?case by simp
  qed simp
  then show ?thesis by (simp add: cep_of_rules_at cep_run_at)
qed

subsection \<open>Completeness for two-step rules\<close>

lemma advance_rev_keeps:
  "p \<in> set ps \<Longrightarrow> \<not> matches (ss ! pm_step p) e \<Longrightarrow> p \<in> set (fst (advance_rev ss e ps))"
  by (induction ps) (auto simp: Let_def split: prod.splits)

lemma rule_step_keeps:
  assumes "p \<in> set ps" and "now - started_at p \<le> cep_window r" and "\<not> matches (steps r ! pm_step p) e"
    and "pm_step p < length (steps r)"
  shows "p \<in> set (fst (rule_step now r e ps))"
proof -
  let ?live = "filter (\<lambda>p. now - started_at p \<le> cep_window r) ps"
  obtain qs c where q: "advance_rev (steps r) e (rev ?live) = (qs, c)" by (cases "advance_rev (steps r) e (rev ?live)")
  have "p \<in> set qs" using advance_rev_keeps [of p "rev ?live" "steps r" e] assms by (simp add: q)
  then show ?thesis using assms(4) by (auto simp: rule_step_def Let_def q)
qed

lemma rule_step_starts:
  assumes "steps r \<noteq> []" and "matches (steps r ! 0) e"
  shows "\<lparr>pm_step = 1, started_at = now\<rparr> \<in> set (fst (rule_step now r e ps))"
  using assms by (simp add: rule_step_def Let_def split: prod.splits)

lemma pending_kept:
  assumes "steps r = [ca, cb]" and "matches ca (snd x0)" and "src_ip (snd x0) = s"
    and "\<forall>y \<in> set mid. src_ip (snd y) = s \<longrightarrow> \<not> matches cb (snd y) \<and> fst y - fst x0 \<le> cep_window r"
  shows "\<lparr>pm_step = 1, started_at = fst x0\<rparr> \<in> set (key_state r (of_source s (pre @ x0 # mid)))"
  using assms(4)
proof (induction mid rule: rev_induct)
  case Nil
  show ?case using rule_step_starts [of r "snd x0"] assms(1-3) by simp
next
  case (snoc y mid)
  let ?p = "\<lparr>pm_step = 1, started_at = fst x0\<rparr>"
  have IH: "?p \<in> set (key_state r (of_source s (pre @ x0 # mid)))" using snoc by simp
  have e: "of_source s (pre @ x0 # mid @ [y]) = of_source s (pre @ x0 # mid) @ (if src_ip (snd y) = s then [y] else [])"
    by simp
  show ?case
  proof (cases "src_ip (snd y) = s")
    case True
    have "?p \<in> set (fst (rule_step (fst y) r (snd y) (key_state r (of_source s (pre @ x0 # mid)))))"
      by (rule rule_step_keeps [OF IH]) (use True snoc.prems assms(1) in simp_all)
    then show ?thesis using True by (simp only: e refl if_True key_state_simps)
  next
    case False
    then show ?thesis using IH by (simp only: e if_False append_Nil2)
  qed
qed

lemma two_step_fires:
  assumes "steps r = [ca, cb]" and "matches ca (snd x0)" and "matches cb (snd x1)"
    and "src_ip (snd x1) = src_ip (snd x0)" and "fst x1 - fst x0 \<le> cep_window r"
    and "\<forall>y \<in> set mid. src_ip (snd y) = src_ip (snd x0) \<longrightarrow> \<not> matches cb (snd y) \<and> fst y - fst x0 \<le> cep_window r"
  shows "fires (pre @ x0 # mid) x1 r"
proof -
  let ?ps = "key_state r (of_source (src_ip (snd x0)) (pre @ x0 # mid))"
  obtain ps' c where st: "rule_step (fst x1) r (snd x1) ?ps = (ps', c)" by (cases "rule_step (fst x1) r (snd x1) ?ps")
  have "\<lparr>pm_step = 1, started_at = fst x0\<rparr> \<in> set ?ps" by (rule pending_kept [OF assms(1,2) refl assms(6)])
  then have c using rule_step_cases(2) [OF st] assms(1,3,5) by fastforce
  then show ?thesis using st by (simp only: fires_def assms(4)) simp
qed

lemma probe_then_exploit:
  assumes "is_syn (snd x0)" and "sublist (bytes_of ''passwd'') (payload_sample (snd x1))"
    and "src_ip (snd x1) = src_ip (snd x0)" and "fst x1 - fst x0 \<le> 5000000000"
    and "\<forall>y \<in> set mid. src_ip (snd y) = src_ip (snd x0) \<longrightarrow>
      \<not> sublist (bytes_of ''passwd'') (payload_sample (snd y)) \<and> fst y - fst x0 \<le> 5000000000"
  shows "\<exists>eng als eng' a. cep_run (pre @ x0 # mid) cep_with_default_rules = Some (eng, als) \<and>
    process (fst x1) (snd x1) eng = Some (eng', [a]) \<and>
    rule_name a = ''probe-then-exploit-attempt'' \<and> describes Cep (snd x1) a"
proof -
  let ?r = default_cep_rule and ?hist = "pre @ x0 # mid"
  have "fires ?hist x1 ?r"
    by (rule two_step_fires [where ca = IsSynOnly and cb = HasSignaturePayload])
      (use assms in \<open>simp_all add: default_cep_rule_def matches_payload del: matches.simps(2)\<close>)
  then have "filter (fires ?hist (fst x1, snd x1)) [?r] = [?r]" by simp
  then show ?thesis
    by (simp add: cep_with_default_rules_def cep_of_rules_at cep_run_at process_at Let_def cep_alert_def
        describes_def default_cep_rule_def)
qed

text \<open>
  No missed sequence under the default rule. When a source sends a SYN and later, within
  five seconds, its first packet since then whose payload contains "passwd", whatever came
  before and whatever other sources send in between, that packet raises exactly one alert, of
  the rule probe-then-exploit-attempt, describing it.
\<close>

theorem probe_then_exploit_detected:
  assumes "is_syn (snd x0)" and "sublist (bytes_of ''passwd'') (payload_sample (snd x1))"
    and "src_ip (snd x1) = src_ip (snd x0)" and "fst x1 - fst x0 \<le> 5000000000"
    and "\<forall>y \<in> set mid. src_ip (snd y) = src_ip (snd x0) \<longrightarrow>
      \<not> sublist (bytes_of ''passwd'') (payload_sample (snd y)) \<and> fst y - fst x0 \<le> 5000000000"
  shows "\<exists>eng als eng' a. cep_run (pre @ x0 # mid) cep_with_default_rules = Some (eng, als) \<and>
    process (fst x1) (snd x1) eng = Some (eng', [a]) \<and>
    rule_name a = ''probe-then-exploit-attempt'' \<and> describes Cep (snd x1) a"
  using assms by (rule probe_then_exploit)

text \<open>What is never removed.\<close>

text \<open>
  Expiry happens only when the same source speaks again. A SYN of a source that sends
  nothing more leaves its partial match in the table however late the other events are, and
  the table has an entry for every source ever seen.
\<close>

theorem silent_sources_keep_their_partial_matches:
  assumes "is_syn (snd x)" and "\<forall>y \<in> set xs. src_ip (snd y) \<noteq> src_ip (snd x)"
  shows "\<exists>eng als m. cep_run (x # xs) cep_with_default_rules = Some (eng, als) \<and> active eng = [m] \<and>
    dom m = (\<lambda>y. src_ip (snd y)) ` set (x # xs) \<and>
    m (src_ip (snd x)) = Some [\<lparr>pm_step = 1, started_at = fst x\<rparr>]"
proof -
  have "of_source (src_ip (snd x)) xs = []" using assms(2) by (auto simp: of_source_def filter_empty_conv)
  then have own: "of_source (src_ip (snd x)) (x # xs) = [] @ [x]" by simp
  have ks: "key_state default_cep_rule ([] @ [x]) = [\<lparr>pm_step = 1, started_at = fst x\<rparr>]"
    unfolding key_state_simps by (simp add: rule_step_def default_cep_rule_def assms(1))
  have dom: "of_source s (x # xs) = [] \<longleftrightarrow> s \<notin> (\<lambda>y. src_ip (snd y)) ` set (x # xs)" for s
    by (auto simp: of_source_def filter_empty_conv)
  let ?m = "\<lambda>s. if of_source s (x # xs) = [] then None else Some (key_state default_cep_rule (of_source s (x # xs)))"
  have "\<exists>eng als. cep_run (x # xs) cep_with_default_rules = Some (eng, als) \<and> active eng = [?m]"
    unfolding cep_with_default_rules_def cep_of_rules_at cep_run_at by (simp only: append_Nil) (simp add: cep_at_def)
  moreover have "dom ?m = (\<lambda>y. src_ip (snd y)) ` set (x # xs)" using dom by (auto simp: dom_def)
  moreover have "?m (src_ip (snd x)) = Some [\<lparr>pm_step = 1, started_at = fst x\<rparr>]" unfolding own ks by simp
  ultimately show ?thesis by blast
qed

subsection \<open>Examples\<close>

definition probe :: "u32 \<Rightarrow> NetworkEvent" where
  "probe ip = \<lparr>timestamp_ms = 0, src_ip = ip, dst_ip = 99, src_port = 1111, dst_port = 80,
     protocol = Tcp, flags = 1, payload_sample = []\<rparr>"

definition exploit :: "u32 \<Rightarrow> NetworkEvent" where
  "exploit ip = \<lparr>timestamp_ms = 0, src_ip = ip, dst_ip = 99, src_port = 1111, dst_port = 80,
     protocol = Tcp, flags = 3, payload_sample = bytes_of ''GET /../../etc/passwd''\<rparr>"

lemma probe_exploit_simps [simp]:
  "is_syn (probe ip)" "src_ip (probe ip) = ip" "src_ip (exploit ip) = ip" "payload_sample (probe ip) = []"
  "payload_sample (exploit ip) = bytes_of ''GET /../../etc/passwd''"
  by (simp_all add: probe_def exploit_def is_syn_def)

theorem cep_alerts_sound_witness:
  "\<exists>eng als. cep_run [(1, probe 42), (2, probe 7), (5, exploit 42)] (cep_of_rules [default_cep_rule]) = Some (eng, als) \<and>
    (\<forall>a \<in> set als. rule_name a = ''probe-then-exploit-attempt'' \<and> detector a = Cep)"
proof -
  let ?xs = "[(1, probe 42), (2, probe 7), (5, exploit 42)]"
  obtain eng als where "cep_run ?xs (cep_of_rules [default_cep_rule]) = Some (eng, als)"
    and "\<forall>a \<in> set als. \<exists>r \<in> set [default_cep_rule]. \<exists>w x. w \<noteq> [] \<and> subseq (w @ [x]) ?xs \<and>
       list_all2 (\<lambda>c y. matches c (snd y) \<and> src_ip (snd y) = src_ip (snd x)) (steps r) (w @ [x]) \<and>
       fst x - fst (hd w) \<le> cep_window r \<and> rule_name a = cep_name r \<and> describes Cep (snd x) a"
    using cep_alerts_sound [of ?xs "[default_cep_rule]"] by blast
  moreover have "cep_name default_cep_rule = ''probe-then-exploit-attempt''" by (simp add: default_cep_rule_def)
  ultimately show ?thesis by (intro exI [of _ eng] exI [of _ als] conjI) (auto simp: describes_def simp del: detector_run.simps)
qed

theorem probe_then_exploit_detected_witness:
  "\<exists>eng als eng' a. cep_run ([(1, exploit 42)] @ (2, probe 42) # [(3, exploit 7), (4, probe 42)]) cep_with_default_rules = Some (eng, als) \<and>
    process 5 (exploit 42) eng = Some (eng', [a]) \<and> rule_name a = ''probe-then-exploit-attempt'' \<and> describes Cep (exploit 42) a"
  by (rule probe_then_exploit_detected [of "(2, probe 42)" "(5, exploit 42)" "[(3, exploit 7), (4, probe 42)]" "[(1, exploit 42)]",
      unfolded fst_conv snd_conv]) (simp_all add: sublist_code)

theorem one_step_rules_never_fire_witness:
  "\<exists>eng. cep_run [(1, probe 42), (2, probe 42)]
     (cep_of_rules [\<lparr>cep_name = ''syn'', cep_severity = Low, steps = [IsSynOnly], cep_window = 1000\<rparr>]) = Some (eng, [])"
  by (rule one_step_rules_never_fire) simp

theorem silent_sources_keep_their_partial_matches_witness:
  "\<exists>eng als m. cep_run [(1, probe 42), (3600000000000, probe 7)] cep_with_default_rules = Some (eng, als) \<and> active eng = [m] \<and>
    m 42 = Some [\<lparr>pm_step = 1, started_at = 1\<rparr>]"
proof -
  have "\<forall>y \<in> set [(3600000000000, probe 7)]. src_ip (snd y) \<noteq> src_ip (snd (1, probe 42))" by simp
  from silent_sources_keep_their_partial_matches [OF _ this, unfolded fst_conv snd_conv]
  show ?thesis by (auto simp del: detector_run.simps)
qed

end
