(* ===== verification/SignatureScan.thy ===== *)
theory SignatureScan
  imports Models Detector
begin

section \<open>The signature detector\<close>

text \<open>
  \<^verbatim>\<open>engine/src/detection/signature.rs\<close>. The automaton comes from the crate \<^verbatim>\<open>aho_corasick\<close>,
  whose source is not part of the repository: building it (\<open>build\<close>) and the pattern ids of its
  overlapping search, in the order of the iterator (\<open>search\<close>), are parameters. \<open>overlapping_search\<close> states
  the crate's documented contract: the search reports every occurrence of every pattern. That the five
  patterns of the source build is the assumption of its \<^verbatim>\<open>expect\<close>.
\<close>

subsection \<open>Model\<close>

record 'ac SignatureDetector =
  automaton :: 'ac
  rule_names :: "string list"
  severities :: "Severity list"
  sig_next_id :: u64

definition default_patterns :: "string list" where
  "default_patterns = [''/etc/passwd'', ''UNION SELECT'', ''<script>alert('', ''cmd.exe'', ''../../'']"

definition default_names :: "string list" where
  "default_names = [''path-traversal-passwd'', ''sql-injection-union'', ''xss-script-tag'',
     ''windows-cmd-exec'', ''path-traversal-generic'']"

definition default_severities :: "Severity list" where
  "default_severities = [High, High, Medium, Critical, Medium]"

definition sig_with_default_rules :: "(bytes list \<Rightarrow> 'ac option) \<Rightarrow> 'ac SignatureDetector option" where
  "sig_with_default_rules build = do {
     a \<leftarrow> build (map bytes_of default_patterns);
     Some \<lparr>automaton = a, rule_names = default_names, severities = default_severities, sig_next_id = 1\<rparr>
   }"

fun scan_loop :: "nat list \<Rightarrow> NetworkEvent \<Rightarrow> 'ac SignatureDetector \<Rightarrow> ('ac SignatureDetector \<times> Alert list) option" where
  "scan_loop [] e d = Some (d, [])"
| "scan_loop (idx # ids) e d = do {
     name \<leftarrow> nth_opt (rule_names d) idx;
     sev \<leftarrow> nth_opt (severities d) idx;
     let a = \<lparr>alert_id = sig_next_id d, alert_timestamp_ms = timestamp_ms e, rule_name = name,
        severity = sev, alert_src_ip = src_ip_str e, alert_dst_ip = dst_ip_str e,
        detail = ''signature match for rule '' @ [CHR 0x27] @ name @ [CHR 0x27] @ '' in payload sample'',
        detector = Signature\<rparr>;
     (d', als) \<leftarrow> scan_loop ids e (d\<lparr>sig_next_id := sig_next_id d + 1\<rparr>);
     Some (d', a # als)
   }"

definition scan ::
    "('ac \<Rightarrow> bytes \<Rightarrow> nat list) \<Rightarrow> NetworkEvent \<Rightarrow> 'ac SignatureDetector \<Rightarrow> ('ac SignatureDetector \<times> Alert list) option" where
  "scan search e d =
     (if payload_sample e = [] then Some (d, [])
      else scan_loop (search (automaton d) (payload_sample e)) e d)"

subsection \<open>The contract of the search\<close>

definition occurrences :: "bytes \<Rightarrow> bytes \<Rightarrow> nat" where
  "occurrences p hay = length (filter (\<lambda>i. prefix p (drop i hay)) [0..<length hay])"

definition overlapping_search :: "(bytes list \<Rightarrow> 'ac option) \<Rightarrow> ('ac \<Rightarrow> bytes \<Rightarrow> nat list) \<Rightarrow> bool" where
  "overlapping_search build search \<longleftrightarrow>
     build (map bytes_of default_patterns) \<noteq> None \<and>
     (\<forall>pats a hay i. (\<forall>p \<in> set pats. p \<noteq> []) \<longrightarrow> build pats = Some a \<longrightarrow>
        count_list (search a hay) i = (if i < length pats then occurrences (pats ! i) hay else 0))"

lemma occurrences_pos:
  assumes "p \<noteq> []"
  shows "0 < occurrences p hay \<longleftrightarrow> sublist p hay"
proof
  assume "0 < occurrences p hay"
  then obtain i where "prefix p (drop i hay)" by (auto simp: occurrences_def filter_empty_conv)
  then show "sublist p hay"
    by (metis append_take_drop_id prefix_def sublist_def)
next
  assume "sublist p hay"
  then obtain ps ss where h: "hay = ps @ p @ ss" by (auto simp: sublist_def)
  then have "length ps \<in> set (filter (\<lambda>i. prefix p (drop i hay)) [0..<length hay])" using assms by simp
  then show "0 < occurrences p hay" by (auto simp: occurrences_def simp del: set_filter)
qed

lemma default_lengths [simp]:
  "length default_patterns = 5" "length default_names = 5" "length default_severities = 5"
  by (simp_all add: default_patterns_def default_names_def default_severities_def)

lemma default_names_distinct: "distinct default_names"
  by (simp add: default_names_def)

lemma default_patterns_nonempty: "\<forall>p \<in> set (map bytes_of default_patterns). p \<noteq> []"
  by (simp add: default_patterns_def)

text \<open>The detector of a worker: built from the default rules, whatever its counter.\<close>

definition sig_ok :: "(bytes list \<Rightarrow> 'ac option) \<Rightarrow> ('ac \<Rightarrow> bytes \<Rightarrow> nat list) \<Rightarrow> 'ac SignatureDetector \<Rightarrow> bool" where
  "sig_ok build search d \<longleftrightarrow> overlapping_search build search \<and>
     (\<exists>d0. sig_with_default_rules build = Some d0 \<and> d = d0\<lparr>sig_next_id := sig_next_id d\<rparr>)"

lemma sig_okD:
  assumes "sig_ok build search d"
  shows "rule_names d = default_names" and "severities d = default_severities"
    and "count_list (search (automaton d) hay) i =
      (if i < 5 then occurrences (map bytes_of default_patterns ! i) hay else 0)"
proof -
  obtain d0 where d0: "sig_with_default_rules build = Some d0" "d = d0\<lparr>sig_next_id := sig_next_id d\<rparr>"
    and s: "overlapping_search build search" using assms by (auto simp: sig_ok_def)
  from s default_patterns_nonempty obtain a where a: "build (map bytes_of default_patterns) = Some a"
    "\<forall>hay i. count_list (search a hay) i =
       (if i < length (map bytes_of default_patterns) then occurrences (map bytes_of default_patterns ! i) hay else 0)"
    unfolding overlapping_search_def by blast
  have "d0 = \<lparr>automaton = a, rule_names = default_names, severities = default_severities, sig_next_id = 1\<rparr>"
    using d0(1) by (simp add: sig_with_default_rules_def a(1))
  moreover from d0(2) obtain k where "d = d0\<lparr>sig_next_id := k\<rparr>" by blast
  ultimately have "automaton d = a" "rule_names d = default_names" "severities d = default_severities" by simp_all
  with a(2) show "rule_names d = default_names" "severities d = default_severities"
    "count_list (search (automaton d) hay) i = (if i < 5 then occurrences (map bytes_of default_patterns ! i) hay else 0)"
    by simp_all
qed

lemma scan_loop_returns:
  assumes "rule_names d = default_names" and "severities d = default_severities" and "\<forall>i \<in> set ids. i < 5"
  shows "\<exists>als. scan_loop ids e d = Some (d\<lparr>sig_next_id := sig_next_id d + of_nat (length ids)\<rparr>, als) \<and>
    map rule_name als = map (\<lambda>i. default_names ! i) ids \<and> map severity als = map (\<lambda>i. default_severities ! i) ids \<and>
    ids_from (sig_next_id d) als \<and> (\<forall>a \<in> set als. describes Signature e a)"
  using assms
proof (induction ids arbitrary: d)
  case (Cons i ids)
  let ?d = "d\<lparr>sig_next_id := sig_next_id d + 1\<rparr>"
  obtain als where "scan_loop ids e ?d = Some (?d\<lparr>sig_next_id := sig_next_id ?d + of_nat (length ids)\<rparr>, als)"
    "map rule_name als = map (\<lambda>i. default_names ! i) ids" "map severity als = map (\<lambda>i. default_severities ! i) ids"
    "ids_from (sig_next_id ?d) als" "\<forall>a \<in> set als. describes Signature e a"
  proof -
    have "rule_names ?d = default_names" "severities ?d = default_severities" "\<forall>i \<in> set ids. i < 5"
      using Cons.prems by simp_all
    from Cons.IH [OF this] show ?thesis using that by blast
  qed
  with Cons.prems show ?case by (simp add: nth_opt_def describes_def add.assoc)
qed simp

lemma sig_ok_counter: "sig_ok build search d \<Longrightarrow> sig_ok build search (d\<lparr>sig_next_id := n\<rparr>)"
proof -
  assume "sig_ok build search d"
  then obtain d0 k where "overlapping_search build search" "sig_with_default_rules build = Some d0" "d = d0\<lparr>sig_next_id := k\<rparr>"
    unfolding sig_ok_def by blast
  then show ?thesis by (simp add: sig_ok_def)
qed

lemma scan_result:
  assumes "sig_ok build search d"
  obtains ids als where "scan search e d = Some (d\<lparr>sig_next_id := sig_next_id d + of_nat (length als)\<rparr>, als)"
    and "map rule_name als = map (\<lambda>i. default_names ! i) ids" and "map severity als = map (\<lambda>i. default_severities ! i) ids"
    and "ids_from (sig_next_id d) als" and "\<forall>a \<in> set als. describes Signature e a"
    and "\<forall>i < 5. count_list ids i = occurrences (map bytes_of default_patterns ! i) (payload_sample e)"
    and "\<forall>i \<in> set ids. i < 5"
proof (cases "payload_sample e = []")
  case True
  show ?thesis
    by (rule that [of "[]" "[]"]) (simp_all add: scan_def True occurrences_def)
next
  case False
  let ?ids = "search (automaton d) (payload_sample e)"
  note ok = sig_okD [OF assms]
  have i: "\<forall>i \<in> set ?ids. i < 5"
  proof (rule ballI, rule ccontr)
    fix i assume "i \<in> set ?ids" "\<not> i < 5"
    then have "count_list ?ids i = 0" using ok(3) by simp
    with \<open>i \<in> set ?ids\<close> show False by (simp add: count_list_0_iff)
  qed
  obtain als where als: "scan_loop ?ids e d = Some (d\<lparr>sig_next_id := sig_next_id d + of_nat (length ?ids)\<rparr>, als)"
    "map rule_name als = map (\<lambda>i. default_names ! i) ?ids" "map severity als = map (\<lambda>i. default_severities ! i) ?ids"
    "ids_from (sig_next_id d) als" "\<forall>a \<in> set als. describes Signature e a"
    using scan_loop_returns [OF ok(1,2) i] by blast
  have "length als = length ?ids" using arg_cong [OF als(2), of length] by simp
  with als i False show ?thesis by (intro that [of als ?ids]) (simp_all add: scan_def ok(3))
qed

lemma sig_built:
  assumes "overlapping_search build search"
  obtains d where "sig_with_default_rules build = Some d" and "sig_ok build search d" and "sig_next_id d = 1"
proof -
  obtain a where "build (map bytes_of default_patterns) = Some a"
    using assms default_patterns_nonempty unfolding overlapping_search_def by blast
  then have d: "sig_with_default_rules build =
      Some \<lparr>automaton = a, rule_names = default_names, severities = default_severities, sig_next_id = 1\<rparr>"
    by (simp add: sig_with_default_rules_def)
  show ?thesis by (rule that [OF d]) (use assms d in \<open>auto simp: sig_ok_def\<close>)
qed

interpretation signature: event_detector "sig_ok build search" "scan search" "\<lambda>e. e" sig_next_id Signature for build search
proof unfold_locales
  fix d :: "'a SignatureDetector" and e
  assume ok: "sig_ok build search d"
  obtain als where r: "scan search e d = Some (d\<lparr>sig_next_id := sig_next_id d + of_nat (length als)\<rparr>, als)"
    "ids_from (sig_next_id d) als" "\<forall>a \<in> set als. describes Signature e a"
    by (rule scan_result [OF ok])
  then show "\<exists>s' als. scan search e d = Some (s', als)" by blast
  fix s' als' a
  assume "scan search e d = Some (s', als')"
  with r(1) have e: "s' = d\<lparr>sig_next_id := sig_next_id d + of_nat (length als)\<rparr>" "als' = als" by simp_all
  show "sig_ok build search s'" unfolding e by (rule sig_ok_counter [OF ok])
  show "ids_from (sig_next_id d) als' \<and> sig_next_id s' = sig_next_id d + of_nat (length als')" using r(2) e by simp
  show "describes Signature e a" if "a \<in> set als'" using that r(3) e by simp
qed

subsection \<open>Properties\<close>

text \<open>How often a rule is reported.\<close>

definition reported :: "string \<Rightarrow> Alert list \<Rightarrow> nat" where
  "reported name als = length (filter (\<lambda>a. rule_name a = name) als)"

lemma reported_count:
  assumes "map rule_name als = map (\<lambda>i. default_names ! i) ids" and "\<forall>i \<in> set ids. i < 5" and "i < 5"
  shows "reported (default_names ! i) als = count_list ids i"
proof -
  have "reported n als = count_list (map rule_name als) n" for n
    by (induction als) (simp_all add: reported_def)
  then have "reported (default_names ! i) als = count_list (map (\<lambda>j. default_names ! j) ids) (default_names ! i)"
    using assms(1) by simp
  also have "\<dots> = count_list ids i"
    using assms(2)
  proof (induction ids)
    case (Cons j ids)
    then have "default_names ! j = default_names ! i \<longleftrightarrow> j = i"
      using assms(3) nth_eq_iff_index_eq [OF default_names_distinct, of j i] by simp
    with Cons show ?case by simp
  qed simp
  finally show ?thesis .
qed

text \<open>
  C21: Nothing is missed and nothing invented. With a search that meets the crate's contract,
  the detector of the default rules can be built and scanning any event never panics; each of
  the five rules is reported exactly as often as its pattern occurs in the payload, overlaps
  included, so it is reported if and only if the payload contains the pattern; and every alert
  describes the event and has the name and severity of one and the same rule.
\<close>

theorem scan_reports_every_occurrence:
  assumes "overlapping_search build search" and "i < 5"
  shows "\<exists>d d' als. sig_with_default_rules build = Some d \<and> scan search e d = Some (d', als) \<and>
    reported (default_names ! i) als =
      length (filter (\<lambda>k. prefix (bytes_of (default_patterns ! i)) (drop k (payload_sample e))) [0..<length (payload_sample e)]) \<and>
    (0 < reported (default_names ! i) als \<longleftrightarrow> sublist (bytes_of (default_patterns ! i)) (payload_sample e)) \<and>
    (\<forall>a \<in> set als. describes Signature e a \<and> (\<exists>j < 5. rule_name a = default_names ! j \<and> severity a = default_severities ! j))"
proof -
  obtain d where d: "sig_with_default_rules build = Some d" and ok: "sig_ok build search d"
    by (rule sig_built [OF assms(1)])
  obtain ids als where r: "scan search e d = Some (d\<lparr>sig_next_id := sig_next_id d + of_nat (length als)\<rparr>, als)"
    and names: "map rule_name als = map (\<lambda>i. default_names ! i) ids"
    and sevs: "map severity als = map (\<lambda>i. default_severities ! i) ids"
    and desc: "\<forall>a \<in> set als. describes Signature e a"
    and cnt: "\<forall>i < 5. count_list ids i = occurrences (map bytes_of default_patterns ! i) (payload_sample e)"
    and ids: "\<forall>i \<in> set ids. i < 5"
    by (rule scan_result [OF ok])
  have pat: "map bytes_of default_patterns ! i = bytes_of (default_patterns ! i)" using assms(2) by simp
  have rep: "reported (default_names ! i) als = occurrences (bytes_of (default_patterns ! i)) (payload_sample e)"
    using reported_count [OF names ids assms(2)] cnt assms(2) pat by simp
  have "bytes_of (default_patterns ! i) \<noteq> []"
    using default_patterns_nonempty assms(2) nth_mem [of i default_patterns] by simp
  then have pos: "0 < reported (default_names ! i) als \<longleftrightarrow> sublist (bytes_of (default_patterns ! i)) (payload_sample e)"
    unfolding rep by (rule occurrences_pos)
  have "\<exists>j < 5. rule_name a = default_names ! j \<and> severity a = default_severities ! j" if a: "a \<in> set als" for a
  proof -
    obtain k where k: "k < length als" "a = als ! k" using a by (auto simp: in_set_conv_nth)
    have "length als = length ids" using arg_cong [OF names, of length] by simp
    moreover have "map rule_name als ! k = map (\<lambda>i. default_names ! i) ids ! k" by (simp only: names)
    moreover have "map severity als ! k = map (\<lambda>i. default_severities ! i) ids ! k" by (simp only: sevs)
    ultimately show ?thesis using k ids by (intro exI [of _ "ids ! k"]) simp
  qed
  with d r rep pos desc show ?thesis by (auto simp: occurrences_def)
qed

text \<open>
  Over every sequence of scans the alerts carry the consecutive ids from 1 and describe
  events of the sequence.
\<close>

theorem signature_alerts_numbered_and_attributed:
  assumes "overlapping_search build search"
  shows "\<exists>d d' als. sig_with_default_rules build = Some d \<and> detector_run (scan search) es d = Some (d', als) \<and>
    map alert_id als = map (\<lambda>i. 1 + of_nat i) [0..<length als] \<and>
    (\<forall>a \<in> set als. \<exists>e \<in> set es. describes Signature e a)"
proof -
  obtain d where d: "sig_with_default_rules build = Some d" and ok: "sig_ok build search d" and one: "sig_next_id d = 1"
    by (rule sig_built [OF assms])
  obtain d' als where "detector_run (scan search) es d = Some (d', als)" "ids_from (sig_next_id d) als"
    "\<forall>a \<in> set als. \<exists>e \<in> set es. describes Signature e a"
    by (rule signature.run_returns [OF ok])
  with d one show ?thesis by (auto simp: ids_from_map)
qed

subsection \<open>A reference search\<close>

text \<open>The contract can be met: a search that goes through the patterns one by one.\<close>

definition naive_build :: "bytes list \<Rightarrow> bytes list option" where
  "naive_build pats = Some pats"

definition naive_search :: "bytes list \<Rightarrow> bytes \<Rightarrow> nat list" where
  "naive_search pats hay = concat (map (\<lambda>i. replicate (occurrences (pats ! i) hay) i) [0..<length pats])"

lemma naive_overlapping: "overlapping_search naive_build naive_search"
proof -
  have rep: "count_list (replicate k j) i = (if j = i then k else 0)" for k i j :: nat by (induction k) auto
  have cat: "count_list (xs @ ys) i = count_list xs i + count_list ys i" for xs ys and i :: nat by (induction xs) simp_all
  have "count_list (concat (map (\<lambda>i. replicate (f i) i) [0..<n])) i = (if i < n then f i else 0)" for f n i
    by (induction n) (auto simp: rep cat)
  then show ?thesis by (simp add: overlapping_search_def naive_build_def naive_search_def)
qed

definition traversal_event :: NetworkEvent where
  "traversal_event = \<lparr>timestamp_ms = 0, src_ip = 1, dst_ip = 2, src_port = 1234, dst_port = 80, protocol = Tcp,
     flags = 0, payload_sample = bytes_of ''GET /../../etc/passwd HTTP/1.1''\<rparr>"

theorem scan_reports_every_occurrence_witness:
  "\<exists>d d' als. sig_with_default_rules naive_build = Some d \<and> scan naive_search traversal_event d = Some (d', als) \<and>
    reported ''path-traversal-passwd'' als = 1"
proof -
  have "length (filter (\<lambda>k. prefix (bytes_of (default_patterns ! 0)) (drop k (payload_sample traversal_event)))
      [0..<length (payload_sample traversal_event)]) = 1"
    by (simp add: traversal_event_def default_patterns_def upt_rec)
  with scan_reports_every_occurrence [OF naive_overlapping, of 0 traversal_event]
  show ?thesis by (auto simp: default_names_def)
qed

theorem signature_alerts_numbered_and_attributed_witness:
  "\<exists>d d' als. sig_with_default_rules naive_build = Some d \<and>
    detector_run (scan naive_search) [traversal_event, traversal_event] d = Some (d', als) \<and>
    map alert_id als = map (\<lambda>i. 1 + of_nat i) [0..<length als] \<and> (\<forall>a \<in> set als. describes Signature traversal_event a)"
  using signature_alerts_numbered_and_attributed [OF naive_overlapping, of "[traversal_event, traversal_event]"]
  by (auto simp del: detector_run.simps)

end
