(* ===== verification/UnitTests.thy ===== *)
theory UnitTests
  imports MpmcQueue CountMin HLL Anomaly Cep SignatureScan
begin

section \<open>The repository's unit tests\<close>

text \<open>
  The \<^verbatim>\<open>mod tests\<close> of \<^verbatim>\<open>queue.rs\<close>, \<^verbatim>\<open>anomaly.rs\<close>, \<^verbatim>\<open>cep.rs\<close> and \<^verbatim>\<open>signature.rs\<close>, run on the model: a test
  returns \<open>Some ()\<close> when it passes and \<open>None\<close> when it panics. The tests are programs over the model's
  operations, so that they check the model against what the authors expect of the code. For the
  anomaly test the clock readings are inputs. The concurrent stress test has a theory of its own,
  \<open>StressTest\<close>. \<^verbatim>\<open>hyperloglog_estimates_within_reasonable_error\<close> is modelled, but no theorem says that it
  passes: its outcome depends on the hash values of a thousand keys, which crate \<^verbatim>\<open>rustc_hash\<close> defines.
\<close>

definition assert_that :: "bool \<Rightarrow> unit option" where
  "assert_that b = (if b then Some () else None)"

lemma assert_that_simps [simp]: "assert_that True = Some ()" "assert_that False = None"
  by (simp_all add: assert_that_def)

subsection \<open>queue.rs\<close>

definition push_pop_single_thread :: "unit option" where
  "push_pop_single_thread = do {
     q \<leftarrow> queue_new 4;
     (q, r) \<leftarrow> push q (1 :: u32); assert_that (r = Inr ());
     (q, r) \<leftarrow> push q 2; assert_that (r = Inr ());
     (q, x) \<leftarrow> pop q; assert_that (x = Some 1);
     (q, x) \<leftarrow> pop q; assert_that (x = Some 2);
     (q, x) \<leftarrow> pop q; assert_that (x = None)
   }"

definition rejects_when_full :: "unit option" where
  "rejects_when_full = do {
     q \<leftarrow> queue_new 2;
     (q, r) \<leftarrow> push q (1 :: u32); assert_that (r = Inr ());
     (q, r) \<leftarrow> push q 2; assert_that (r = Inr ());
     (q, r) \<leftarrow> push q 3; assert_that (r = Inl 3)
   }"

lemma queue_tests_pass: "push_pop_single_thread = Some ()" "rejects_when_full = Some ()"
  by code_simp+

subsection \<open>anomaly.rs\<close>

definition count_min_sketch_never_undercounts :: "hasher \<Rightarrow> unit option" where
  "count_min_sketch_never_undercounts fx = do {
     cms \<leftarrow> cms_run fx (replicate 100 (Increment (bytes_of ''1.2.3.4''))) (cms_new 64 4);
     n \<leftarrow> cms_estimate fx (bytes_of ''1.2.3.4'') cms;
     assert_that (100 \<le> n)
   }"

definition hyperloglog_small_cardinality_does_not_overestimate :: "hasher \<Rightarrow> (f64 \<Rightarrow> f64) \<Rightarrow> unit option" where
  "hyperloglog_small_cardinality_does_not_overestimate fx ln64 = do {
     hll \<leftarrow> hll_add fx (bytes_of ''only-one-item'') (hll_new 10);
     assert_that (hll_estimate ln64 hll < 5)
   }"

definition hyperloglog_estimates_within_reasonable_error :: "hasher \<Rightarrow> (f64 \<Rightarrow> f64) \<Rightarrow> unit option" where
  "hyperloglog_estimates_within_reasonable_error fx ln64 = do {
     hll \<leftarrow> hll_add_all fx (map (\<lambda>i. u32_to_be_bytes (of_nat i)) [0..<1000]) (hll_new 10);
     let est = hll_estimate ln64 hll;
     assert_that (800 < est \<and> est < 1200)
   }"

text \<open>The test rests on the hasher: it fails when the keys fall into too few buckets.\<close>

lemma hyperloglog_test_depends_on_the_hasher:
  assumes "ln_accurate ln64" and "touched fx 10 (set (map (\<lambda>i. u32_to_be_bytes (of_nat i)) [0..<1000])) < 25"
  shows "hyperloglog_estimates_within_reasonable_error fx ln64 = None"
proof -
  let ?ks = "map (\<lambda>i. u32_to_be_bytes (of_nat i)) [0..<1000]"
  have "hll_add_all fx ?ks (hll_new (of_nat 10)) = Some (hll_of fx 10 (set ?ks))" by (rule hll_run) simp_all
  then have r: "hll_add_all fx ?ks (hll_new 10) = Some (hll_of fx 10 (set ?ks))" by (simp only: of_nat_numeral)
  have "\<not> 25 \<le> hll_estimate ln64 (hll_of fx 10 (set ?ks))"
    unfolding hll_estimate_of(1) [OF assms(1) finite_set] using assms(2) by (simp only: not_le)
  then have "\<not> 800 < hll_estimate ln64 (hll_of fx 10 (set ?ks))" by linarith
  then show ?thesis
    by (simp only: hyperloglog_estimates_within_reasonable_error_def r bind.bind_lunit Let_def assert_that_simps simp_thms)
qed

definition attack_event :: "nat \<Rightarrow> NetworkEvent" where
  "attack_event i = \<lparr>timestamp_ms = 0, src_ip = 0x0A0000FF, dst_ip = 0xC0A80101, src_port = 4444 + of_nat i, dst_port = 80,
     protocol = Tcp, flags = 1, payload_sample = []\<rparr>"

definition syn_flood_fires_even_when_estimate_jumps_past_threshold ::
    "hasher \<Rightarrow> (f64 \<Rightarrow> f64) \<Rightarrow> instant \<Rightarrow> (instant \<times> instant) list \<Rightarrow> unit option" where
  "syn_flood_fires_even_when_estimate_jumps_past_threshold fx ln64 start clocks = do {
     let det = anomaly_new start 5000000000;
     noisy \<leftarrow> cms_run fx (map (\<lambda>i. Increment (u32_to_be_bytes (of_nat i))) [0..<40]) (syn_counts det);
     let det = det\<lparr>syn_counts := noisy\<rparr>;
     (det, als) \<leftarrow> detector_run (\<lambda>(clock, e). observe fx ln64 clock e)
       (zip clocks (map (\<lambda>i. attack_event (i + 1)) [0..<80])) det;
     assert_that (length (filter (\<lambda>a. rule_name a = ''syn-flood-anomaly'') als) = 1)
   }"

lemma since_clear_increments: "since_clear (map Increment ks) hist = hist @ ks"
  by (induction ks arbitrary: hist) simp_all

lemma count_min_test_passes: "count_min_sketch_never_undercounts fx = Some ()"
proof -
  let ?k = "bytes_of ''1.2.3.4''" and ?hist = "replicate 100 (bytes_of ''1.2.3.4'')"
  have ops: "replicate 100 (Increment ?k) = map Increment ?hist" by (simp only: map_replicate)
  have pos: "0 < (64 :: nat)" by simp
  have r: "cms_run fx (replicate 100 (Increment ?k)) (cms_new 64 4) = Some (cms_of fx 64 4 ?hist)"
    using cms_run_new [OF pos, of fx "map Increment ?hist" 4] unfolding ops since_clear_increments append_Nil .
  obtain e where e: "cms_estimate fx ?k (cms_of fx 64 4 ?hist) = Some e" "min u32_max (count_list ?hist ?k) \<le> unat e"
    by (rule cms_estimate_bounds [of 64 4 fx ?k ?hist]) simp_all
  have c: "count_list (replicate n x) x = n" for n and x :: bytes by (induction n) simp_all
  have "100 \<le> unat e" using e(2) by (simp only: c) (simp add: u32_max_def)
  then have "100 \<le> e" by (simp add: word_le_nat_alt)
  then show ?thesis by (simp only: count_min_sketch_never_undercounts_def r e(1) bind.bind_lunit assert_that_simps)
qed

lemma hll_test_passes:
  assumes "ln_accurate ln64"
  shows "hyperloglog_small_cardinality_does_not_overestimate fx ln64 = Some ()"
proof -
  have "hll_add fx key (hll_new 10) = Some (hll_of fx 10 {key})" for key
    using hll_add_of [of 10 "{}" fx key] hll_new_of [of 10 fx] by simp
  then show ?thesis
    by (simp only: hyperloglog_small_cardinality_does_not_overestimate_def bind.bind_lunit
        hll_estimate_one [OF assms] assert_that_simps)
qed

text \<open>The flood test keeps two histories apart: the sketch has seen the noise, the port table has not.\<close>

lemma parts_run:
  assumes "ln_accurate ln64" and "flood_inv fx hf als d" and "scan_inv fx hs als d" and "0 < window d"
    and "\<forall>ob \<in> set obs. fst (fst ob) < window_start d + window d"
  shows "\<exists>d' new. detector_run (\<lambda>(clock, e). observe fx ln64 clock e) obs d = Some (d', new) \<and>
    flood_inv fx (hf @ map snd obs) (als @ new) d' \<and> (\<forall>a \<in> set new. \<exists>ob \<in> set obs. describes Anomaly (snd ob) a)"
  using assms(2-5)
proof (induction obs arbitrary: d hf hs als)
  case (Cons ob obs)
  obtain now later e where ob: "ob = ((now, later), e)" by (metis surj_pair)
  have "now < window_start d + window d" using Cons.prems(4) by (simp add: ob)
  then have "\<not> rolls now d" using Cons.prems(3) by (simp add: rolls_def)
  then have same: "maybe_roll_window now later d = d" by (simp add: roll_frame)
  obtain d1 n1 where o: "observe fx ln64 (now, later) e d = Some (d1, n1)" and f: "flood_inv fx (hf @ [e]) (als @ n1) d1"
    and s: "scan_inv fx (hs @ [e]) (als @ n1) d1" and w: "window_frame d d1" and a: "\<forall>a \<in> set n1. describes Anomaly e a"
    by (rule observe_parts [of fx hf als now later d hs ln64 e, unfolded same, OF Cons.prems(1,2) assms(1)])
  have w1: "window d1 = window d" "window_start d1 = window_start d" using w by (simp_all add: window_frame_def)
  obtain d' n2 where "detector_run (\<lambda>(clock, e). observe fx ln64 clock e) obs d1 = Some (d', n2)"
    "flood_inv fx ((hf @ [e]) @ map snd obs) ((als @ n1) @ n2) d'" "\<forall>a \<in> set n2. \<exists>ob \<in> set obs. describes Anomaly (snd ob) a"
    using Cons.IH [OF f s] Cons.prems(3,4) w1 by auto
  with o a show ?case by (intro exI [of _ d'] exI [of _ "n1 @ n2"]) (auto simp: ob)
qed simp

lemma noise_keys: "map (\<lambda>i. u32_to_be_bytes (of_nat i)) ns = syn_keys (map (\<lambda>i. (attack_event 0)\<lparr>src_ip := of_nat i\<rparr>) ns)"
proof (induction ns)
  case (Cons n ns)
  then show ?case by (simp add: syn_keys_def is_syn_def attack_event_def)
qed (simp add: syn_keys_def)

lemma distinct_singleton_list:
  assumes "distinct xs" and "x \<in> set xs" and "\<And>y. y \<in> set xs \<Longrightarrow> y = x"
  shows "xs = [x]"
proof -
  have "set xs = {x}" using assms(2,3) by blast
  then have "length xs = 1" using distinct_card [OF assms(1)] by simp
  then obtain y where "xs = [y]" by (auto simp: length_Suc_conv)
  with assms(2) show ?thesis by simp
qed

lemma noisy_inv:
  assumes "length noise < 50"
  shows "flood_inv fx noise [] ((anomaly_new start 5000000000)\<lparr>syn_counts := cms_of fx 2048 4 (syn_keys noise)\<rparr>)"
    and "scan_inv fx [] [] ((anomaly_new start 5000000000)\<lparr>syn_counts := cms_of fx 2048 4 (syn_keys noise)\<rparr>)"
proof -
  have "\<not> 50 \<le> syn_count t noise" for t
    using length_filter_le [of "\<lambda>e. is_syn e \<and> src_ip e = t" noise] assms unfolding syn_count_def by linarith
  moreover have "cms_reports fx (cms_of fx 2048 4 (syn_keys noise)) (syn_keys noise)"
    unfolding cms_reports_def by (intro exI [of _ 2048] exI [of _ 4]) simp
  ultimately show "flood_inv fx noise [] ((anomaly_new start 5000000000)\<lparr>syn_counts := cms_of fx 2048 4 (syn_keys noise)\<rparr>)"
    by (simp add: flood_inv_def anomaly_new_def)
  show "scan_inv fx [] [] ((anomaly_new start 5000000000)\<lparr>syn_counts := cms_of fx 2048 4 (syn_keys noise)\<rparr>)"
    using window_inv_new [of fx start 5000000000] by (simp add: window_inv_def scan_inv_def port_keys_def touched_def anomaly_new_def)
qed

lemma flood_test_passes:
  assumes "ln_accurate ln64" and "length clocks = 80" and "\<forall>t \<in> set clocks. fst t < start + 5000000000"
  shows "syn_flood_fires_even_when_estimate_jumps_past_threshold fx ln64 start clocks = Some ()"
proof -
  let ?d0 = "anomaly_new start 5000000000" and ?noise = "map (\<lambda>i. (attack_event 0)\<lparr>src_ip := of_nat i\<rparr>) [0..<40]"
    and ?evs = "map (\<lambda>i. attack_event (i + 1)) [0..<80]"
  have pos: "0 < (2048 :: nat)" by simp
  have ops: "map (\<lambda>i. Increment (u32_to_be_bytes (of_nat i))) [0..<40] = map Increment (syn_keys ?noise)"
    unfolding noise_keys [symmetric] map_map comp_def ..
  have noisy: "cms_run fx (map (\<lambda>i. Increment (u32_to_be_bytes (of_nat i))) [0..<40]) (syn_counts ?d0) =
      Some (cms_of fx 2048 4 (syn_keys ?noise))"
    using cms_run_new [OF pos, of fx "map Increment (syn_keys ?noise)" 4]
    unfolding ops since_clear_increments append_Nil by (simp add: anomaly_new_def)
  let ?d = "?d0\<lparr>syn_counts := cms_of fx 2048 4 (syn_keys ?noise)\<rparr>"
  have "length ?noise < 50" by (simp only: length_map length_upt)
  note inv = noisy_inv [OF this, of fx start]
  have evs: "map snd (zip clocks ?evs) = ?evs" using assms(2) by (intro map_snd_zip) (simp only: length_map length_upt)
  have t: "\<forall>ob \<in> set (zip clocks ?evs). fst (fst ob) < window_start ?d + window ?d"
  proof
    fix ob assume "ob \<in> set (zip clocks ?evs)"
    then have "fst ob \<in> set clocks" by (metis prod.collapse set_zip_leftD)
    then show "fst (fst ob) < window_start ?d + window ?d" using assms(3) by (simp add: anomaly_new_def)
  qed
  have w: "0 < window ?d" by (simp add: anomaly_new_def)
  obtain d' new where run: "detector_run (\<lambda>(clock, e). observe fx ln64 clock e) (zip clocks ?evs) ?d = Some (d', new)"
    and i: "flood_inv fx (?noise @ ?evs) new d'" and by_attacker: "\<forall>a \<in> set new. \<exists>ob \<in> set (zip clocks ?evs). describes Anomaly (snd ob) a"
    using parts_run [OF assms(1) inv w t] unfolding evs by auto
  let ?ip = "ip_to_string 0x0A0000FF"
  have "alert_src_ip a = ?ip" if "a \<in> set new" for a
  proof -
    obtain ob where "ob \<in> set (zip clocks ?evs)" and d: "describes Anomaly (snd ob) a" using by_attacker \<open>a \<in> set new\<close> by blast
    then have "snd ob \<in> set ?evs" by (metis prod.collapse set_zip_rightD)
    then have "src_ip (snd ob) = 0x0A0000FF" by (auto simp: attack_event_def)
    with d show ?thesis by (simp add: describes_def src_ip_str_def)
  qed
  then have same: "x = ?ip" if "x \<in> set (named_by ''syn-flood-anomaly'' new)" for x using that by (auto simp: named_by_def)
  have "\<forall>e \<in> set ?evs. is_syn e \<and> src_ip e = 0x0A0000FF" by (auto simp: is_syn_def attack_event_def)
  then have "filter (\<lambda>e. is_syn e \<and> src_ip e = 0x0A0000FF) ?evs = ?evs" by (simp only: filter_id_conv)
  then have "80 \<le> syn_count 0x0A0000FF (?noise @ ?evs)"
    by (simp only: syn_count_def filter_append length_append length_map length_upt)
  then have "0x0A0000FF \<in> alerted_flood_this_window d'" using i by (simp add: flood_inv_def)
  then have "?ip \<in> set (named_by ''syn-flood-anomaly'' new)" using i by (auto simp: flood_inv_def)
  moreover have "distinct (named_by ''syn-flood-anomaly'' new)" using i by (simp add: flood_inv_def)
  ultimately have "named_by ''syn-flood-anomaly'' new = [?ip]" using same by (metis distinct_singleton_list)
  then have "length (filter (\<lambda>a. rule_name a = ''syn-flood-anomaly'') new) = 1"
    using arg_cong [of _ _ length] by (fastforce simp: named_by_def)
  then show ?thesis
    by (simp only: syn_flood_fires_even_when_estimate_jumps_past_threshold_def Let_def noisy run bind.bind_lunit prod.case refl simp_thms assert_that_simps)
qed

subsection \<open>cep.rs\<close>

text \<open>\<open>probe\<close> and \<open>exploit\<close> are the events of the helpers \<^verbatim>\<open>syn_event\<close> and \<^verbatim>\<open>payload_event\<close>.\<close>

definition sequence_within_window_fires_alert :: "instant \<Rightarrow> instant \<Rightarrow> unit option" where
  "sequence_within_window_fires_alert t0 t1 = do {
     (cep, als) \<leftarrow> process t0 (probe 42) cep_with_default_rules; assert_that (als = []);
     (cep, als) \<leftarrow> process t1 (exploit 42) cep; assert_that (length als = 1);
     a \<leftarrow> nth_opt als 0; assert_that (rule_name a = ''probe-then-exploit-attempt'')
   }"

definition different_source_does_not_cross_contaminate :: "instant \<Rightarrow> instant \<Rightarrow> unit option" where
  "different_source_does_not_cross_contaminate t0 t1 = do {
     (cep, als) \<leftarrow> process t0 (probe 1) cep_with_default_rules; assert_that (als = []);
     (cep, als) \<leftarrow> process t1 (exploit 2) cep; assert_that (als = [])
   }"

definition single_out_of_order_event_does_not_fire :: "instant \<Rightarrow> unit option" where
  "single_out_of_order_event_does_not_fire t = do {
     (cep, als) \<leftarrow> process t (exploit 7) cep_with_default_rules; assert_that (als = [])
   }"

lemma payload_matches: "\<not> matches HasSignaturePayload (probe ip)" "matches HasSignaturePayload (exploit ip)" "\<not> is_syn (exploit ip)"
  by (simp_all add: matches_payload sublist_code del: matches.simps) (simp_all add: probe_def exploit_def is_syn_def)

lemmas cep_evaluation = cep_with_default_rules_def cep_of_rules_def default_cep_rule_def process_def rule_step_def nth_opt_def
  Let_def cep_alert_def

lemma cep_tests_pass:
  "t1 - t0 \<le> 5000000000 \<Longrightarrow> sequence_within_window_fires_alert t0 t1 = Some ()"
  "different_source_does_not_cross_contaminate t0 t1 = Some ()"
  "single_out_of_order_event_does_not_fire t = Some ()"
  by (simp_all add: sequence_within_window_fires_alert_def different_source_does_not_cross_contaminate_def
      single_out_of_order_event_does_not_fire_def cep_evaluation payload_matches del: matches.simps(2))

subsection \<open>signature.rs\<close>

definition evt :: "string \<Rightarrow> NetworkEvent" where
  "evt payload = \<lparr>timestamp_ms = 0, src_ip = 1, dst_ip = 2, src_port = 1234, dst_port = 80, protocol = Tcp, flags = 0,
     payload_sample = bytes_of payload\<rparr>"

definition detects_path_traversal :: "(bytes list \<Rightarrow> 'ac option) \<Rightarrow> ('ac \<Rightarrow> bytes \<Rightarrow> nat list) \<Rightarrow> unit option" where
  "detects_path_traversal build search = do {
     d \<leftarrow> sig_with_default_rules build;
     (d, als) \<leftarrow> scan search (evt ''GET /../../etc/passwd HTTP/1.1'') d;
     assert_that (\<exists>a \<in> set als. rule_name a = ''path-traversal-passwd'')
   }"

definition benign_payload_produces_no_alerts :: "(bytes list \<Rightarrow> 'ac option) \<Rightarrow> ('ac \<Rightarrow> bytes \<Rightarrow> nat list) \<Rightarrow> unit option" where
  "benign_payload_produces_no_alerts build search = do {
     d \<leftarrow> sig_with_default_rules build;
     (d, als) \<leftarrow> scan search (evt ''GET /index.html HTTP/1.1'') d;
     assert_that (als = [])
   }"

lemma scan_rules:
  assumes "overlapping_search build search"
  obtains d d' als where "sig_with_default_rules build = Some d" and "scan search e d = Some (d', als)"
    and "\<And>i. i < 5 \<Longrightarrow> (\<exists>a \<in> set als. rule_name a = default_names ! i) \<longleftrightarrow> sublist (bytes_of (default_patterns ! i)) (payload_sample e)"
    and "\<And>a. a \<in> set als \<Longrightarrow> \<exists>i < 5. rule_name a = default_names ! i"
proof -
  obtain d where d: "sig_with_default_rules build = Some d" "sig_ok build search d" using sig_built [OF assms] by blast
  obtain ids als where r: "scan search e d = Some (d\<lparr>sig_next_id := sig_next_id d + of_nat (length als)\<rparr>, als)"
    and n: "map rule_name als = map (\<lambda>i. default_names ! i) ids"
    and c: "\<forall>i < 5. count_list ids i = occurrences (map bytes_of default_patterns ! i) (payload_sample e)"
    and i: "\<forall>i \<in> set ids. i < 5"
    by (rule scan_result [OF d(2)])
  have names: "rule_name ` set als = (\<lambda>i. default_names ! i) ` set ids" using arg_cong [OF n, of set] by simp
  have "(\<exists>a \<in> set als. rule_name a = default_names ! j) \<longleftrightarrow> sublist (bytes_of (default_patterns ! j)) (payload_sample e)" if j: "j < 5" for j
  proof -
    have "(\<exists>a \<in> set als. rule_name a = default_names ! j) \<longleftrightarrow> default_names ! j \<in> rule_name ` set als" unfolding image_iff by metis
    also have "\<dots> \<longleftrightarrow> j \<in> set ids"
      unfolding names using i j nth_eq_iff_index_eq [OF default_names_distinct] by auto
    also have "\<dots> \<longleftrightarrow> 0 < count_list ids j" by (metis count_list_0_iff gr0I less_irrefl)
    also have "\<dots> \<longleftrightarrow> 0 < occurrences (bytes_of (default_patterns ! j)) (payload_sample e)" using c j by simp
    also have "\<dots> \<longleftrightarrow> sublist (bytes_of (default_patterns ! j)) (payload_sample e)"
      by (rule occurrences_pos) (use default_patterns_nonempty j nth_mem [of j default_patterns] in simp)
    finally show ?thesis .
  qed
  moreover have "\<exists>j < 5. rule_name a = default_names ! j" if "a \<in> set als" for a using names i that by blast
  ultimately show ?thesis by (rule that [OF d(1) r])
qed

lemma signature_tests_pass:
  assumes "overlapping_search build search"
  shows "detects_path_traversal build search = Some ()" and "benign_payload_produces_no_alerts build search = Some ()"
proof -
  obtain d d' als where r: "sig_with_default_rules build = Some d" "scan search (evt ''GET /../../etc/passwd HTTP/1.1'') d = Some (d', als)"
    and h: "\<And>i. i < 5 \<Longrightarrow> (\<exists>a \<in> set als. rule_name a = default_names ! i) \<longleftrightarrow>
      sublist (bytes_of (default_patterns ! i)) (payload_sample (evt ''GET /../../etc/passwd HTTP/1.1''))"
    by (rule scan_rules [OF assms]) blast
  have "sublist (bytes_of (default_patterns ! 0)) (payload_sample (evt ''GET /../../etc/passwd HTTP/1.1''))" by code_simp
  with h [of 0] have "\<exists>a \<in> set als. rule_name a = ''path-traversal-passwd''" by (simp add: default_names_def)
  with r show "detects_path_traversal build search = Some ()" by (simp add: detects_path_traversal_def)
next
  obtain d d' als where r: "sig_with_default_rules build = Some d" "scan search (evt ''GET /index.html HTTP/1.1'') d = Some (d', als)"
    and h: "\<And>i. i < 5 \<Longrightarrow> (\<exists>a \<in> set als. rule_name a = default_names ! i) \<longleftrightarrow>
      sublist (bytes_of (default_patterns ! i)) (payload_sample (evt ''GET /index.html HTTP/1.1''))"
    and n: "\<And>a. a \<in> set als \<Longrightarrow> \<exists>i < 5. rule_name a = default_names ! i"
    by (rule scan_rules [OF assms]) blast
  have "list_all (\<lambda>i. \<not> sublist (bytes_of (default_patterns ! i)) (payload_sample (evt ''GET /index.html HTTP/1.1''))) [0..<5]"
    by code_simp
  then have "a \<notin> set als" for a using h n by (force simp: list_all_iff)
  then have "als = []" by (cases als) auto
  with r show "benign_payload_produces_no_alerts build search = Some ()" by (simp add: benign_payload_produces_no_alerts_def)
qed

text \<open>
  C39: The model passes the repository's unit tests whose outcome does not depend on the hash values.
  The two sequential tests of queue.rs, all tests of anomaly.rs but one, and the tests of cep.rs
  and signature.rs, written as programs over the model's operations, return without a failed
  assertion, for every hasher, every accurate logarithm, every automaton that keeps its contract
  and all clock readings for which a test runs within its window of five seconds. The exception,
  hyperloglog_estimates_within_reasonable_error, does depend on the hasher: it fails with one that
  spreads its thousand keys over fewer than 25 buckets. (The concurrent stress test is not part of
  this statement.)
\<close>

theorem hash_independent_unit_tests_pass:
  assumes "ln_accurate ln64" and "overlapping_search build search" and "t1 - t0 \<le> 5000000000"
    and "length clocks = 80" and "\<forall>t \<in> set clocks. fst t < start + 5000000000"
  shows "push_pop_single_thread = Some () \<and> rejects_when_full = Some () \<and>
    count_min_sketch_never_undercounts fx = Some () \<and>
    hyperloglog_small_cardinality_does_not_overestimate fx ln64 = Some () \<and>
    syn_flood_fires_even_when_estimate_jumps_past_threshold fx ln64 start clocks = Some () \<and>
    sequence_within_window_fires_alert t0 t1 = Some () \<and>
    different_source_does_not_cross_contaminate t0 t1 = Some () \<and>
    single_out_of_order_event_does_not_fire t0 = Some () \<and>
    detects_path_traversal build search = Some () \<and> benign_payload_produces_no_alerts build search = Some () \<and>
    (touched fx 10 (set (map (\<lambda>i. u32_to_be_bytes (of_nat i)) [0..<1000])) < 25 \<longrightarrow>
       hyperloglog_estimates_within_reasonable_error fx ln64 = None)"
  using queue_tests_pass count_min_test_passes hll_test_passes [OF assms(1)] flood_test_passes [OF assms(1,4,5)]
    cep_tests_pass(1) [OF assms(3)] cep_tests_pass(2,3) signature_tests_pass [OF assms(2)]
    hyperloglog_test_depends_on_the_hasher [OF assms(1)] by blast

text \<open>A hasher that gives every key the same bucket.\<close>

theorem hash_independent_unit_tests_pass_witness:
  "hyperloglog_small_cardinality_does_not_overestimate (\<lambda>_. 0) ln_rounded = Some () \<and>
    syn_flood_fires_even_when_estimate_jumps_past_threshold (\<lambda>_. 0) ln_rounded 0 (replicate 80 (7, 7)) = Some () \<and>
    sequence_within_window_fires_alert 1 2 = Some () \<and> detects_path_traversal naive_build naive_search = Some () \<and>
    hyperloglog_estimates_within_reasonable_error (\<lambda>_. 0) ln_rounded = None"
proof -
  have "key_bucket (\<lambda>_. 0) 10 ` ks \<subseteq> {key_bucket (\<lambda>_. 0) 10 []}" for ks by (auto simp: key_bucket_def hash_slice_def)
  then have "card (key_bucket (\<lambda>_. 0) 10 ` ks) \<le> card {key_bucket (\<lambda>_. 0) 10 []}" for ks by (intro card_mono) simp_all
  then have "touched (\<lambda>_. 0) 10 ks \<le> 1" for ks by (simp add: touched_def)
  then have few: "touched (\<lambda>_. 0) 10 ks < 25" for ks by (rule le_less_trans) simp
  have clocks: "(2 :: instant) - 1 \<le> 5000000000" "length (replicate 80 (7 :: instant, 7 :: instant)) = 80"
    "\<forall>t \<in> set (replicate 80 (7 :: instant, 7 :: instant)). fst t < 0 + 5000000000" by simp_all
  from hash_independent_unit_tests_pass [OF ln_rounded_accurate naive_overlapping clocks, of "\<lambda>_. 0"] few
  show ?thesis by blast
qed

end
