(* ===== verification/Pipeline.thy ===== *)
theory Pipeline
  imports Models MpmcQueue SignatureScan Anomaly Cep
begin

section \<open>The pipeline\<close>

text \<open>
  \<^verbatim>\<open>engine/src/pipeline.rs\<close> and the constants of \<^verbatim>\<open>main.rs\<close>: one producer thread, one queue and
  one worker thread per shard, a shared alert store and shared counters. The threads interleave in
  the actions of \<open>perform\<close>: the producer routing one event; a worker popping an event and running its
  detectors, which touch the worker's own state only; and the two halves of \<open>record_alert\<close>, the counter
  and the store under the mutex, once per alert. A completed call of \<^verbatim>\<open>push\<close> or \<^verbatim>\<open>pop\<close> is one action;
  theory \<open>Threads\<close> shows that every interleaving of the atomic accesses is a run of such actions. Every
  action is reported by a label; \<open>None\<close> is a panic.
\<close>

subsection \<open>State\<close>

record AppState =
  queues :: "NetworkEvent MpmcQueue list"
  alerts :: "Alert list"
  events_processed :: u64
  events_dropped :: u64
  alerts_fired :: u64

definition alert_history_cap :: nat where
  "alert_history_cap = 5000"

definition worker_count_default :: nat where
  "worker_count_default = 4"

definition queue_capacity_default :: usize where
  "queue_capacity_default = push_bit 16 1"

definition app_new :: "nat \<Rightarrow> usize \<Rightarrow> AppState option" where
  "app_new worker_count capacity = do {
     qs \<leftarrow> those (map (\<lambda>_. queue_new capacity) [0..<worker_count]);
     Some \<lparr>queues = qs, alerts = [], events_processed = 0, events_dropped = 0, alerts_fired = 0\<rparr>
   }"

text \<open>\<^verbatim>\<open>record_alert\<close>: its counter, its critical section, and the whole call. Theory \<open>AlertLock\<close> has the lock.\<close>

definition count_alert :: "AppState \<Rightarrow> AppState" where
  "count_alert st = st\<lparr>alerts_fired := alerts_fired st + 1\<rparr>"

definition store_alert :: "Alert \<Rightarrow> AppState \<Rightarrow> AppState" where
  "store_alert a st =
     (let as = alerts st @ [a]
      in st\<lparr>alerts := (if alert_history_cap < length as then tl as else as)\<rparr>)"

definition record_alert :: "Alert \<Rightarrow> AppState \<Rightarrow> AppState" where
  "record_alert a st = store_alert a (count_alert st)"

text \<open>Code outside the repository: the automaton, the hasher and the logarithm.\<close>

record 'ac Libs =
  lib_build :: "bytes list \<Rightarrow> 'ac option"
  lib_search :: "'ac \<Rightarrow> bytes \<Rightarrow> nat list"
  lib_fx :: hasher
  lib_ln :: "f64 \<Rightarrow> f64"

text \<open>The locals of a worker thread, and the alerts of the current event still to be recorded; \<open>counted\<close>
  says that the first of them has been counted.\<close>

record 'ac Worker =
  sig :: "'ac SignatureDetector"
  anomaly :: WindowedAnomalyDetector
  cep :: CepEngine
  pending :: "Alert list"
  counted :: bool

definition worker_new :: "'ac Libs \<Rightarrow> instant \<Rightarrow> 'ac Worker option" where
  "worker_new L now = do {
     s \<leftarrow> sig_with_default_rules (lib_build L);
     Some \<lparr>sig = s, anomaly = anomaly_new now 5000000000, cep = cep_with_default_rules,
           pending = [], counted = False\<rparr>
   }"

text \<open>The clock readings of one event: two by the anomaly detector, one by the CEP engine.\<close>

type_synonym clocks = "(instant \<times> instant) \<times> instant"

definition detect :: "'ac Libs \<Rightarrow> clocks \<Rightarrow> NetworkEvent \<Rightarrow> 'ac Worker \<Rightarrow> ('ac Worker \<times> Alert list) option" where
  "detect L t e w = do {
     (s, als1) \<leftarrow> scan (lib_search L) e (sig w);
     (an, als2) \<leftarrow> observe (lib_fx L) (lib_ln L) (fst t) e (anomaly w);
     (c, als3) \<leftarrow> process (snd t) e (cep w);
     Some (w\<lparr>sig := s, anomaly := an, cep := c\<rparr>, als1 @ als2 @ als3)
   }"

subsection \<open>Actions\<close>

record 'ac System =
  app :: AppState
  workers :: "'ac Worker list"

datatype action = Produce NetworkEvent | Work nat clocks | Count nat | Store nat

datatype label =
    Accepted NetworkEvent
  | Dropped NetworkEvent
  | Handled nat clocks NetworkEvent "Alert list"
  | Idle nat
  | Counted nat
  | Stored nat Alert

definition shard_of :: "nat \<Rightarrow> NetworkEvent \<Rightarrow> nat" where
  "shard_of n e = unat (shard_key e) mod n"

text \<open>The body of the producer's inner loop.\<close>

definition produce :: "NetworkEvent \<Rightarrow> AppState \<Rightarrow> (AppState \<times> label) option" where
  "produce e st =
     (let n = length (queues st)
      in if n = 0 then None
         else do {
           q \<leftarrow> nth_opt (queues st) (shard_of n e);
           (q', r) \<leftarrow> push q e;
           let st' = st\<lparr>queues := (queues st)[shard_of n e := q']\<rparr>;
           Some (case r of
               Inr _ \<Rightarrow> (st', Accepted e)
             | Inl _ \<Rightarrow> (st'\<lparr>events_dropped := events_dropped st' + 1\<rparr>, Dropped e))
         })"

text \<open>One pass of a worker's loop, up to the recording of the alerts.\<close>

definition work :: "'ac Libs \<Rightarrow> nat \<Rightarrow> clocks \<Rightarrow> 'ac System \<Rightarrow> ('ac System \<times> label) option" where
  "work L i t s = do {
     w \<leftarrow> nth_opt (workers s) i;
     q \<leftarrow> nth_opt (queues (app s)) i;
     (q', r) \<leftarrow> pop q;
     let st = (app s)\<lparr>queues := (queues (app s))[i := q']\<rparr>;
     case r of
       None \<Rightarrow> Some (s\<lparr>app := st\<rparr>, Idle i)
     | Some e \<Rightarrow> do {
         let st' = st\<lparr>events_processed := events_processed st + 1\<rparr>;
         (w', als) \<leftarrow> detect L t e w;
         Some (s\<lparr>app := st', workers := (workers s)[i := w'\<lparr>pending := als\<rparr>]\<rparr>, Handled i t e als)
       }
   }"

fun perform :: "'ac Libs \<Rightarrow> action \<Rightarrow> 'ac System \<Rightarrow> ('ac System \<times> label) option" where
  "perform L (Produce e) s = do { (st, l) \<leftarrow> produce e (app s); Some (s\<lparr>app := st\<rparr>, l) }"
| "perform L (Work i t) s = work L i t s"
| "perform L (Count i) s =
     Some (s\<lparr>app := count_alert (app s), workers := (workers s)[i := (workers s ! i)\<lparr>counted := True\<rparr>]\<rparr>, Counted i)"
| "perform L (Store i) s =
     (let w = workers s ! i
      in Some (s\<lparr>app := store_alert (hd (pending w)) (app s),
                 workers := (workers s)[i := w\<lparr>pending := tl (pending w), counted := False\<rparr>]\<rparr>,
               Stored i (hd (pending w))))"

text \<open>A worker pops only when the alerts of the last event are recorded; it counts, then stores each.\<close>

fun enabled :: "action \<Rightarrow> 'ac System \<Rightarrow> bool" where
  "enabled (Produce e) s \<longleftrightarrow> True"
| "enabled (Work i t) s \<longleftrightarrow> i < length (workers s) \<and> pending (workers s ! i) = []"
| "enabled (Count i) s \<longleftrightarrow> i < length (workers s) \<and> pending (workers s ! i) \<noteq> [] \<and> \<not> counted (workers s ! i)"
| "enabled (Store i) s \<longleftrightarrow> i < length (workers s) \<and> pending (workers s ! i) \<noteq> [] \<and> counted (workers s ! i)"

text \<open>\<^verbatim>\<open>main\<close>: the state, the producer and a worker per queue; \<open>starts\<close> are the clock readings of the workers.\<close>

definition system_new :: "'ac Libs \<Rightarrow> usize \<Rightarrow> instant list \<Rightarrow> 'ac System option" where
  "system_new L capacity starts = do {
     st \<leftarrow> app_new (length starts) capacity;
     ws \<leftarrow> those (map (worker_new L) starts);
     Some \<lparr>app = st, workers = ws\<rparr>
   }"

inductive reach :: "'ac Libs \<Rightarrow> usize \<Rightarrow> instant list \<Rightarrow> 'ac System \<Rightarrow> label list \<Rightarrow> bool"
  for L capacity starts where
  start: "system_new L capacity starts = Some s \<Longrightarrow> reach L capacity starts s []"
| action: "reach L capacity starts s trace \<Longrightarrow> enabled a s \<Longrightarrow> perform L a s = Some (s', l) \<Longrightarrow>
    reach L capacity starts s' (trace @ [l])"

subsection \<open>Workers\<close>

definition libs_ok :: "'ac Libs \<Rightarrow> bool" where
  "libs_ok L \<longleftrightarrow> overlapping_search (lib_build L) (lib_search L) \<and> ln_accurate (lib_ln L)"

definition worker_ok :: "'ac Libs \<Rightarrow> 'ac Worker \<Rightarrow> bool" where
  "worker_ok L w \<longleftrightarrow> sig_ok (lib_build L) (lib_search L) (sig w) \<and>
     (ln_accurate (lib_ln L) \<and> (\<exists>hist als. window_inv (lib_fx L) hist als (anomaly w))) \<and>
     (\<exists>rs hist n. cep w = cep_at rs hist n)"

lemma worker_new_ok:
  assumes "libs_ok L"
  obtains w where "worker_new L now = Some w" and "worker_ok L w" and "pending w = []" and "\<not> counted w"
proof -
  obtain d where d: "sig_with_default_rules (lib_build L) = Some d" "sig_ok (lib_build L) (lib_search L) d"
    using sig_built [of "lib_build L" "lib_search L"] assms by (auto simp: libs_ok_def)
  let ?w = "\<lparr>sig = d, anomaly = anomaly_new now 5000000000, cep = cep_with_default_rules, pending = [], counted = False\<rparr>"
  have "worker_new L now = Some ?w" by (simp add: worker_new_def d(1))
  moreover have "worker_ok L ?w"
    using assms d(2) window_inv_new [of "lib_fx L" now 5000000000]
    by (auto simp: worker_ok_def libs_ok_def cep_with_default_rules_def cep_of_rules_at)
  ultimately show ?thesis by (rule that) simp_all
qed

lemma worker_ok_recording [simp]:
  "worker_ok L (w\<lparr>pending := p\<rparr>) = worker_ok L w" "worker_ok L (w\<lparr>counted := c\<rparr>) = worker_ok L w"
  by (simp_all add: worker_ok_def)

lemma detect_ok:
  assumes "worker_ok L w"
  obtains w' als where "detect L t e w = Some (w', als)" and "worker_ok L w'" and "pending w' = pending w"
    and "counted w' = counted w" and "\<forall>a \<in> set als. \<exists>k. describes k e a"
proof -
  have s: "sig_ok (lib_build L) (lib_search L) (sig w)"
    and an: "ln_accurate (lib_ln L) \<and> (\<exists>hist als. window_inv (lib_fx L) hist als (anomaly w))"
    and c: "\<exists>rs hist n. cep w = cep_at rs hist n" using assms by (simp_all add: worker_ok_def)
  obtain s' als1 where 1: "scan (lib_search L) e (sig w) = Some (s', als1)"
    using signature.step_returns [OF s] by blast
  obtain an' als2 where 2: "observe (lib_fx L) (lib_ln L) (fst t) e (anomaly w) = Some (an', als2)"
    using anomaly.step_returns [OF an, of "(fst t, e)"] by auto
  obtain c' als3 where 3: "process (snd t) e (cep w) = Some (c', als3)"
    using cep.step_returns [OF c, of "(snd t, e)"] by auto
  let ?w = "w\<lparr>sig := s', anomaly := an', cep := c'\<rparr>"
  have "sig_ok (lib_build L) (lib_search L) s'" by (rule signature.step_inv [OF s 1])
  moreover have "ln_accurate (lib_ln L) \<and> (\<exists>hist als. window_inv (lib_fx L) hist als an')"
    using anomaly.step_inv [OF an, of "(fst t, e)"] 2 by simp
  moreover have "\<exists>rs hist n. c' = cep_at rs hist n"
    using cep.step_inv [OF c, of "(snd t, e)"] 3 by simp
  ultimately have "worker_ok L ?w" by (simp add: worker_ok_def)
  moreover have "\<exists>k. describes k e a" if a: "a \<in> set (als1 @ als2 @ als3)" for a
  proof -
    consider "a \<in> set als1" | "a \<in> set als2" | "a \<in> set als3" using a by auto
    then show ?thesis
    proof cases
      case 1
      then show ?thesis using signature.step_describes [OF s \<open>scan (lib_search L) e (sig w) = Some (s', als1)\<close>] by blast
    next
      case 2
      then show ?thesis using anomaly.step_describes [OF an, of "(fst t, e)" an' als2 a]
          \<open>observe (lib_fx L) (lib_ln L) (fst t) e (anomaly w) = Some (an', als2)\<close> by auto
    next
      case 3
      then show ?thesis using cep.step_describes [OF c, of "(snd t, e)" c' als3 a]
          \<open>process (snd t) e (cep w) = Some (c', als3)\<close> by auto
    qed
  qed
  ultimately show ?thesis by (intro that [of ?w "als1 @ als2 @ als3"]) (auto simp: detect_def 1 2 3)
qed

text \<open>The recording fields do not influence detection.\<close>

lemma detect_recording:
  assumes "detect L t e (w\<lparr>pending := p, counted := c\<rparr>) = Some (w', als)"
  shows "\<exists>v. detect L t e w = Some (v, als) \<and> w' = v\<lparr>pending := p, counted := c\<rparr>"
  using assms by (auto simp: detect_def split: bind_splits)

subsection \<open>What an action does\<close>

definition contents :: "'ac System \<Rightarrow> NetworkEvent list list" where
  "contents s = map queue_list (queues (app s))"

definition sys_ok :: "'ac Libs \<Rightarrow> nat \<Rightarrow> usize \<Rightarrow> 'ac System \<Rightarrow> bool" where
  "sys_ok L n capacity s \<longleftrightarrow> length (queues (app s)) = n \<and> length (workers s) = n \<and>
     (\<forall>q \<in> set (queues (app s)). mpmc_ok q \<and> queue_capacity q = unat capacity) \<and>
     (\<forall>w \<in> set (workers s). worker_ok L w)"

text \<open>The effect of an action with each label, over plain lists in place of the ring buffers.\<close>

fun effect :: "'ac Libs \<Rightarrow> nat \<Rightarrow> usize \<Rightarrow> 'ac System \<Rightarrow> label \<Rightarrow> 'ac System \<Rightarrow> bool" where
  "effect L n capacity s (Accepted e) s' \<longleftrightarrow>
     (let i = shard_of n e
      in i < n \<and> length (contents s ! i) < unat capacity \<and> contents s' = (contents s)[i := contents s ! i @ [e]] \<and>
         workers s' = workers s \<and> app s' = (app s)\<lparr>queues := queues (app s')\<rparr>)"
| "effect L n capacity s (Dropped e) s' \<longleftrightarrow>
     (let i = shard_of n e
      in i < n \<and> length (contents s ! i) = unat capacity \<and> contents s' = contents s \<and> workers s' = workers s \<and>
         app s' = (app s)\<lparr>queues := queues (app s'), events_dropped := events_dropped (app s) + 1\<rparr>)"
| "effect L n capacity s (Handled i t e als) s' \<longleftrightarrow>
     i < n \<and> pending (workers s ! i) = [] \<and> contents s ! i \<noteq> [] \<and> e = hd (contents s ! i) \<and>
     contents s' = (contents s)[i := tl (contents s ! i)] \<and>
     (\<exists>w'. detect L t e (workers s ! i) = Some (w', als) \<and> workers s' = (workers s)[i := w'\<lparr>pending := als\<rparr>]) \<and>
     app s' = (app s)\<lparr>queues := queues (app s'), events_processed := events_processed (app s) + 1\<rparr>"
| "effect L n capacity s (Idle i) s' \<longleftrightarrow>
     i < n \<and> contents s ! i = [] \<and> contents s' = contents s \<and> workers s' = workers s \<and>
     app s' = (app s)\<lparr>queues := queues (app s')\<rparr>"
| "effect L n capacity s (Counted i) s' \<longleftrightarrow>
     i < n \<and> pending (workers s ! i) \<noteq> [] \<and> \<not> counted (workers s ! i) \<and> app s' = count_alert (app s) \<and>
     workers s' = (workers s)[i := (workers s ! i)\<lparr>counted := True\<rparr>]"
| "effect L n capacity s (Stored i a) s' \<longleftrightarrow>
     i < n \<and> pending (workers s ! i) \<noteq> [] \<and> counted (workers s ! i) \<and> a = hd (pending (workers s ! i)) \<and>
     app s' = store_alert a (app s) \<and>
     workers s' = (workers s)[i := (workers s ! i)\<lparr>pending := tl (pending (workers s ! i)), counted := False\<rparr>]"

lemma queues_recording [simp]:
  "queues (count_alert st) = queues st" "queues (store_alert a st) = queues st"
  by (simp_all add: count_alert_def store_alert_def Let_def)

lemma sys_ok_worker: "sys_ok L n capacity s \<Longrightarrow> i < n \<Longrightarrow> worker_ok L (workers s ! i)"
  by (auto simp: sys_ok_def)

lemma sys_ok_queue: "sys_ok L n capacity s \<Longrightarrow> i < n \<Longrightarrow> mpmc_ok (queues (app s) ! i) \<and> queue_capacity (queues (app s) ! i) = unat capacity"
  by (auto simp: sys_ok_def)

lemma ball_list_update: "\<forall>x \<in> set xs. P x \<Longrightarrow> P y \<Longrightarrow> \<forall>x \<in> set (xs[i := y]). P x"
  using set_update_subset_insert by fastforce

lemma sys_ok_update:
  assumes "sys_ok L n capacity s" and "queues (app s') = (queues (app s))[i := q]" and "mpmc_ok q"
    and "queue_capacity q = unat capacity" and "length (workers s') = n" and "\<forall>w \<in> set (workers s'). worker_ok L w"
  shows "sys_ok L n capacity s'"
  using assms ball_list_update [of "queues (app s)" "\<lambda>q. mpmc_ok q \<and> queue_capacity q = unat capacity" q i]
  by (simp add: sys_ok_def)

lemma produce_ok:
  assumes ok: "sys_ok L n capacity s" and n: "0 < n"
  shows "\<exists>s' l. perform L (Produce e) s = Some (s', l) \<and> sys_ok L n capacity s' \<and> effect L n capacity s l s'"
proof -
  let ?i = "shard_of n e"
  have i: "?i < n" using n by (simp add: shard_of_def)
  have len: "length (queues (app s)) = n" "length (workers s) = n" and ws: "\<forall>w \<in> set (workers s). worker_ok L w"
    using ok by (simp_all add: sys_ok_def)
  have q: "mpmc_ok (queues (app s) ! ?i)" "queue_capacity (queues (app s) ! ?i) = unat capacity"
    using sys_ok_queue [OF ok i] by simp_all
  have get: "nth_opt (queues (app s)) (shard_of (length (queues (app s))) e) = Some (queues (app s) ! ?i)"
    using i by (simp add: nth_opt_def len)
  have c: "contents s ! ?i = queue_list (queues (app s) ! ?i)" using i len by (simp add: contents_def)
  from q(1) show ?thesis
  proof (cases rule: mpmc.enq_cases [where x = e])
    case (room q')
    let ?s = "s\<lparr>app := (app s)\<lparr>queues := (queues (app s))[?i := q']\<rparr>\<rparr>"
    have "perform L (Produce e) s = Some (?s, Accepted e)"
      using n by (simp add: produce_def len get [unfolded len] room Let_def)
    moreover have "sys_ok L n capacity ?s"
      by (rule sys_ok_update [OF ok, of _ ?i q']) (use room q(2) len ws in simp_all)
    moreover have "effect L n capacity s (Accepted e) ?s"
      using i room c q(2) len by (simp add: Let_def contents_def map_update)
    ultimately show ?thesis by blast
  next
    case full
    let ?s = "s\<lparr>app := (app s)\<lparr>events_dropped := events_dropped (app s) + 1\<rparr>\<rparr>"
    have same: "(queues (app s))[?i := queues (app s) ! ?i] = queues (app s)" by simp
    have "perform L (Produce e) s = Some (?s, Dropped e)"
      using n by (simp add: produce_def len get [unfolded len] full Let_def)
    moreover have "sys_ok L n capacity ?s"
      by (rule sys_ok_update [OF ok, of _ ?i "queues (app s) ! ?i"]) (use q len ws in simp_all)
    moreover have "effect L n capacity s (Dropped e) ?s"
      using i full c q(2) by (simp add: Let_def contents_def)
    ultimately show ?thesis by blast
  qed
qed

lemma work_ok:
  assumes ok: "sys_ok L n capacity s" and en: "enabled (Work i t) s"
  shows "\<exists>s' l. perform L (Work i t) s = Some (s', l) \<and> sys_ok L n capacity s' \<and> effect L n capacity s l s'"
proof -
  have len: "length (queues (app s)) = n" "length (workers s) = n" and ws: "\<forall>w \<in> set (workers s). worker_ok L w"
    using ok by (simp_all add: sys_ok_def)
  have i: "i < n" and p: "pending (workers s ! i) = []" using en len by simp_all
  have q: "mpmc_ok (queues (app s) ! i)" "queue_capacity (queues (app s) ! i) = unat capacity"
    using sys_ok_queue [OF ok i] by simp_all
  have get: "nth_opt (queues (app s)) i = Some (queues (app s) ! i)" "nth_opt (workers s) i = Some (workers s ! i)"
    using i by (simp_all add: nth_opt_def len)
  have c: "contents s ! i = queue_list (queues (app s) ! i)" using i len by (simp add: contents_def)
  from q(1) show ?thesis
  proof (cases rule: mpmc.deq_cases)
    case (some q' e xs)
    obtain w' als where d: "detect L t e (workers s ! i) = Some (w', als)" "worker_ok L w'"
      by (rule detect_ok [OF sys_ok_worker [OF ok i]])
    let ?s = "s\<lparr>app := (app s)\<lparr>queues := (queues (app s))[i := q'], events_processed := events_processed (app s) + 1\<rparr>,
                workers := (workers s)[i := w'\<lparr>pending := als\<rparr>]\<rparr>"
    have pf: "perform L (Work i t) s = Some (?s, Handled i t e als)"
      by (simp add: work_def get some d)
    have wsu: "\<forall>v \<in> set ((workers s)[i := w'\<lparr>pending := als\<rparr>]). worker_ok L v"
      using d(2) by (intro ball_list_update [OF ws]) simp
    have "sys_ok L n capacity ?s"
      by (rule sys_ok_update [OF ok, of _ i q']) (use some q(2) len wsu in simp_all)
    moreover have "effect L n capacity s (Handled i t e als) ?s"
      using i p some c d(1) by (simp add: contents_def map_update)
    ultimately show ?thesis using pf by blast
  next
    case none
    have "perform L (Work i t) s = Some (s, Idle i)"
      by (simp add: work_def get none)
    moreover have "effect L n capacity s (Idle i) s" using i none c by simp
    ultimately show ?thesis using ok by blast
  qed
qed

lemma perform_ok:
  assumes ok: "sys_ok L n capacity s" and "0 < n" and en: "enabled a s"
  shows "\<exists>s' l. perform L a s = Some (s', l) \<and> sys_ok L n capacity s' \<and> effect L n capacity s l s'"
proof (cases a)
  case (Produce e)
  then show ?thesis using produce_ok [OF ok assms(2)] by simp
next
  case (Work i t)
  then show ?thesis using work_ok [OF ok] en by blast
next
  case (Count i)
  have ws: "\<forall>w \<in> set (workers s). worker_ok L w" and i: "i < n"
    using ok en Count by (simp_all add: sys_ok_def)
  have "\<forall>w \<in> set ((workers s)[i := (workers s ! i)\<lparr>counted := True\<rparr>]). worker_ok L w"
    using sys_ok_worker [OF ok i] by (intro ball_list_update [OF ws]) simp
  with ok en i show ?thesis by (auto simp: Count sys_ok_def)
next
  case (Store i)
  have ws: "\<forall>w \<in> set (workers s). worker_ok L w" and i: "i < n"
    using ok en Store by (simp_all add: sys_ok_def)
  have "\<forall>w \<in> set ((workers s)[i := (workers s ! i)\<lparr>pending := tl (pending (workers s ! i)), counted := False\<rparr>]). worker_ok L w"
    using sys_ok_worker [OF ok i] by (intro ball_list_update [OF ws]) simp
  with ok en i show ?thesis by (auto simp: Store sys_ok_def Let_def)
qed

lemma those_const: "those (map (\<lambda>_. Some q) xs) = Some (replicate (length xs) q)"
  by (induction xs) simp_all

lemma system_new_ok:
  assumes "libs_ok L" and "queue_new capacity = Some (q0 :: NetworkEvent MpmcQueue)" and "mpmc_ok q0" and "queue_list q0 = []"
    and "queue_capacity q0 = unat capacity"
  obtains s where "system_new L capacity starts = Some s" and "sys_ok L (length starts) capacity s"
    and "contents s = replicate (length starts) []"
    and "app s = \<lparr>queues = queues (app s), alerts = [], events_processed = 0, events_dropped = 0, alerts_fired = 0\<rparr>"
    and "\<And>i. i < length starts \<Longrightarrow> worker_new L (starts ! i) = Some (workers s ! i)"
    and "\<And>i. i < length starts \<Longrightarrow> pending (workers s ! i) = [] \<and> \<not> counted (workers s ! i)"
proof -
  define ws where "ws = map (\<lambda>t. the (worker_new L t)) starts"
  have w: "worker_new L t = Some (the (worker_new L t)) \<and> worker_ok L (the (worker_new L t)) \<and>
      pending (the (worker_new L t)) = [] \<and> \<not> counted (the (worker_new L t))" for t
    by (rule worker_new_ok [OF assms(1), of t]) simp
  then have "map (worker_new L) starts = map (\<lambda>t. Some (the (worker_new L t))) starts" by simp
  then have those_ws: "those (map (worker_new L) starts) = Some ws" unfolding ws_def by (simp only: those_map_Some)
  let ?app = "\<lparr>queues = replicate (length starts) q0, alerts = [], events_processed = 0, events_dropped = 0, alerts_fired = 0\<rparr>"
  have "app_new (length starts) capacity = Some ?app"
    using those_const [of q0 "[0..<length starts]"] by (simp add: app_new_def assms(2))
  then have "system_new L capacity starts = Some \<lparr>app = ?app, workers = ws\<rparr>" by (simp add: system_new_def those_ws)
  then show ?thesis
    by (rule that) (use w assms(3-5) in \<open>auto simp: sys_ok_def contents_def ws_def map_replicate\<close>)
qed

end
