(* ===== verification/PipelineRuns.thy ===== *)
theory PipelineRuns
  imports Pipeline
begin

section \<open>Runs of the pipeline\<close>

text \<open>
  Every interleaving of the producer and the workers: what the labels of a run say about the state it
  reaches.
\<close>

subsection \<open>What a trace tells\<close>

definition accepted :: "label list \<Rightarrow> NetworkEvent list" where
  "accepted trace = concat (map (\<lambda>l. case l of Accepted e \<Rightarrow> [e] | _ \<Rightarrow> []) trace)"

definition dropped :: "label list \<Rightarrow> NetworkEvent list" where
  "dropped trace = concat (map (\<lambda>l. case l of Dropped e \<Rightarrow> [e] | _ \<Rightarrow> []) trace)"

definition handled :: "label list \<Rightarrow> (nat \<times> clocks \<times> NetworkEvent \<times> Alert list) list" where
  "handled trace = concat (map (\<lambda>l. case l of Handled i t e als \<Rightarrow> [(i, t, e, als)] | _ \<Rightarrow> []) trace)"

definition counts :: "label list \<Rightarrow> nat list" where
  "counts trace = concat (map (\<lambda>l. case l of Counted i \<Rightarrow> [i] | _ \<Rightarrow> []) trace)"

definition stored :: "label list \<Rightarrow> (nat \<times> Alert) list" where
  "stored trace = concat (map (\<lambda>l. case l of Stored i a \<Rightarrow> [(i, a)] | _ \<Rightarrow> []) trace)"

lemmas trace_defs = accepted_def dropped_def handled_def counts_def stored_def

lemma trace_Nil [simp]:
  "accepted [] = []" "dropped [] = []" "handled [] = []" "counts [] = []" "stored [] = []"
  by (simp_all add: trace_defs)

lemma trace_snoc [simp]:
  "accepted (trace @ [l]) = accepted trace @ (case l of Accepted e \<Rightarrow> [e] | _ \<Rightarrow> [])"
  "dropped (trace @ [l]) = dropped trace @ (case l of Dropped e \<Rightarrow> [e] | _ \<Rightarrow> [])"
  "handled (trace @ [l]) = handled trace @ (case l of Handled i t e als \<Rightarrow> [(i, t, e, als)] | _ \<Rightarrow> [])"
  "counts (trace @ [l]) = counts trace @ (case l of Counted i \<Rightarrow> [i] | _ \<Rightarrow> [])"
  "stored (trace @ [l]) = stored trace @ (case l of Stored i a \<Rightarrow> [(i, a)] | _ \<Rightarrow> [])"
  by (simp_all add: trace_defs)

text \<open>The events of one worker with their clock readings, and the alerts they raised.\<close>

definition inputs_of :: "nat \<Rightarrow> label list \<Rightarrow> (clocks \<times> NetworkEvent) list" where
  "inputs_of i trace = map (\<lambda>(j, t, e, als). (t, e)) (filter (\<lambda>(j, t, e, als). j = i) (handled trace))"

definition raised_by :: "nat \<Rightarrow> label list \<Rightarrow> Alert list" where
  "raised_by i trace = concat (map (\<lambda>(j, t, e, als). if j = i then als else []) (handled trace))"

definition stored_by :: "nat \<Rightarrow> label list \<Rightarrow> Alert list" where
  "stored_by i trace = map snd (filter (\<lambda>(j, a). j = i) (stored trace))"

lemma of_worker_Nil [simp]: "inputs_of i [] = []" "raised_by i [] = []" "stored_by i [] = []"
  by (simp_all add: inputs_of_def raised_by_def stored_by_def)

lemma of_worker_snoc [simp]:
  "inputs_of i (trace @ [l]) = inputs_of i trace @ (case l of Handled j t e als \<Rightarrow> if j = i then [(t, e)] else [] | _ \<Rightarrow> [])"
  "raised_by i (trace @ [l]) = raised_by i trace @ (case l of Handled j t e als \<Rightarrow> if j = i then als else [] | _ \<Rightarrow> [])"
  "stored_by i (trace @ [l]) = stored_by i trace @ (case l of Stored j a \<Rightarrow> if j = i then [a] else [] | _ \<Rightarrow> [])"
  by (simp_all add: inputs_of_def raised_by_def stored_by_def split: label.split)

subsection \<open>The invariant\<close>

text \<open>Queue \<open>i\<close> holds the accepted events of its shard that worker \<open>i\<close> has not handled.\<close>

definition queues_inv :: "nat \<Rightarrow> 'ac System \<Rightarrow> label list \<Rightarrow> bool" where
  "queues_inv n s trace \<longleftrightarrow>
     (\<forall>i < n. filter (\<lambda>e. shard_of n e = i) (accepted trace) = map snd (inputs_of i trace) @ contents s ! i)"

text \<open>Worker \<open>i\<close> is a sequential run of its detectors over the events it handled.\<close>

definition workers_inv :: "'ac Libs \<Rightarrow> instant list \<Rightarrow> 'ac System \<Rightarrow> label list \<Rightarrow> bool" where
  "workers_inv L starts s trace \<longleftrightarrow>
     (\<forall>i < length starts. \<exists>w0 w. worker_new L (starts ! i) = Some w0 \<and>
        detector_run (\<lambda>(t, e). detect L t e) (inputs_of i trace) w0 = Some (w, raised_by i trace) \<and>
        workers s ! i = w\<lparr>pending := pending (workers s ! i), counted := counted (workers s ! i)\<rparr>)"

text \<open>Every alert raised is stored once, in order, or still pending with its worker.\<close>

definition alerts_inv :: "nat \<Rightarrow> 'ac System \<Rightarrow> label list \<Rightarrow> bool" where
  "alerts_inv n s trace \<longleftrightarrow>
     (\<forall>i < n. raised_by i trace = stored_by i trace @ pending (workers s ! i)) \<and>
     alerts (app s) = drop (length (stored trace) - alert_history_cap) (map snd (stored trace))"

definition counters_inv :: "nat \<Rightarrow> 'ac System \<Rightarrow> label list \<Rightarrow> bool" where
  "counters_inv n s trace \<longleftrightarrow>
     events_processed (app s) = of_nat (length (handled trace)) \<and>
     events_dropped (app s) = of_nat (length (dropped trace)) \<and>
     alerts_fired (app s) = of_nat (length (counts trace)) \<and>
     (\<forall>i < n. (counted (workers s ! i) \<longrightarrow> pending (workers s ! i) \<noteq> []) \<and>
        count_list (counts trace) i = length (stored_by i trace) + (if counted (workers s ! i) then 1 else 0))"

definition run_inv :: "'ac Libs \<Rightarrow> usize \<Rightarrow> instant list \<Rightarrow> 'ac System \<Rightarrow> label list \<Rightarrow> bool" where
  "run_inv L capacity starts s trace \<longleftrightarrow>
     sys_ok L (length starts) capacity s \<and> queues_inv (length starts) s trace \<and> workers_inv L starts s trace \<and>
     alerts_inv (length starts) s trace \<and> counters_inv (length starts) s trace"

lemma effect_index: "effect L n capacity s (Handled i t e als) s' \<Longrightarrow> i < n"
  by simp

lemma contents_length: "sys_ok L n capacity s \<Longrightarrow> length (contents s) = n"
  by (simp add: sys_ok_def contents_def)

lemma queues_inv_step:
  assumes inv: "queues_inv n s trace" and eff: "effect L n capacity s l s'" and len: "length (contents s) = n"
  shows "queues_inv n s' (trace @ [l])"
proof (cases l)
  case (Handled i t e als)
  then have c: "contents s ! i = e # tl (contents s ! i)" "contents s' = (contents s)[i := tl (contents s ! i)]" "i < n"
    using eff by (simp_all add: hd_Cons_tl)
  show ?thesis
    unfolding queues_inv_def
  proof (intro allI impI)
    fix j assume j: "j < n"
    have "filter (\<lambda>e. shard_of n e = j) (accepted trace) = map snd (inputs_of j trace) @ contents s ! j"
      using inv j by (simp add: queues_inv_def)
    then show "filter (\<lambda>e. shard_of n e = j) (accepted (trace @ [l])) = map snd (inputs_of j (trace @ [l])) @ contents s' ! j"
      using c j len by (cases "j = i") (simp_all add: Handled)
  qed
next
  case (Accepted e)
  then show ?thesis using inv eff len by (auto simp: queues_inv_def Let_def nth_list_update)
next
  case (Counted i)
  then show ?thesis using inv eff by (simp add: queues_inv_def contents_def)
next
  case (Stored i a)
  then show ?thesis using inv eff by (simp add: queues_inv_def contents_def)
qed (use inv eff in \<open>simp_all add: queues_inv_def Let_def\<close>)

text \<open>Updates of a worker's recording fields leave its detectors alone.\<close>

lemma recording_only:
  fixes v v' :: "'ac Worker"
  assumes "v = w\<lparr>pending := pending v, counted := counted v\<rparr>"
    and "sig v' = sig v" "anomaly v' = anomaly v" "cep v' = cep v"
  shows "v' = w\<lparr>pending := pending v', counted := counted v'\<rparr>"
proof -
  have "sig v = sig w" "anomaly v = anomaly w" "cep v = cep w"
    using arg_cong [OF assms(1), of sig] arg_cong [OF assms(1), of anomaly] arg_cong [OF assms(1), of cep] by simp_all
  with assms(2-4) show ?thesis by (intro Worker.equality) simp_all
qed

lemma workers_inv_same:
  assumes inv: "workers_inv L starts s trace"
    and "\<And>i. i < length starts \<Longrightarrow> inputs_of i trace' = inputs_of i trace \<and> raised_by i trace' = raised_by i trace"
    and "\<And>i. i < length starts \<Longrightarrow> sig (workers s' ! i) = sig (workers s ! i) \<and>
      anomaly (workers s' ! i) = anomaly (workers s ! i) \<and> cep (workers s' ! i) = cep (workers s ! i)"
  shows "workers_inv L starts s' trace'"
  unfolding workers_inv_def
proof (intro allI impI)
  fix i assume i: "i < length starts"
  obtain w0 w where w: "worker_new L (starts ! i) = Some w0"
    "detector_run (\<lambda>(t, e). detect L t e) (inputs_of i trace) w0 = Some (w, raised_by i trace)"
    "workers s ! i = w\<lparr>pending := pending (workers s ! i), counted := counted (workers s ! i)\<rparr>"
    using inv i unfolding workers_inv_def by blast
  have "workers s' ! i = w\<lparr>pending := pending (workers s' ! i), counted := counted (workers s' ! i)\<rparr>"
    by (rule recording_only [OF w(3)]) (use assms(3) [OF i] in simp_all)
  with w assms(2) [OF i] show "\<exists>w0 w. worker_new L (starts ! i) = Some w0 \<and>
      detector_run (\<lambda>(t, e). detect L t e) (inputs_of i trace') w0 = Some (w, raised_by i trace') \<and>
      workers s' ! i = w\<lparr>pending := pending (workers s' ! i), counted := counted (workers s' ! i)\<rparr>" by auto
qed

lemma workers_inv_handled:
  assumes inv: "workers_inv L starts s trace" and i: "i < length starts" and len: "length (workers s) = length starts"
    and d: "detect L t e (workers s ! i) = Some (w', als)" and ws: "workers s' = (workers s)[i := w'\<lparr>pending := als\<rparr>]"
  shows "workers_inv L starts s' (trace @ [Handled i t e als])"
  unfolding workers_inv_def
proof (intro allI impI)
  fix j assume j: "j < length starts"
  obtain w0 w where w: "worker_new L (starts ! j) = Some w0"
    "detector_run (\<lambda>(t, e). detect L t e) (inputs_of j trace) w0 = Some (w, raised_by j trace)"
    "workers s ! j = w\<lparr>pending := pending (workers s ! j), counted := counted (workers s ! j)\<rparr>"
    using inv j unfolding workers_inv_def by blast
  show "\<exists>w0 w. worker_new L (starts ! j) = Some w0 \<and>
      detector_run (\<lambda>(t, e). detect L t e) (inputs_of j (trace @ [Handled i t e als])) w0 =
        Some (w, raised_by j (trace @ [Handled i t e als])) \<and>
      workers s' ! j = w\<lparr>pending := pending (workers s' ! j), counted := counted (workers s' ! j)\<rparr>"
  proof (cases "j = i")
    case True
    obtain v where v: "detect L t e w = Some (v, als)"
      "w' = v\<lparr>pending := pending (workers s ! i), counted := counted (workers s ! i)\<rparr>"
      using detect_recording [where w = w and p = "pending (workers s ! i)" and c = "counted (workers s ! i)"] d w(3) True
      by (metis (no_types))
    have "detector_run (\<lambda>(t, e). detect L t e) (inputs_of i trace @ [(t, e)]) w0 = Some (v, raised_by i trace @ als)"
      using w(2) True by (simp add: detector_run_append v(1))
    moreover have "workers s' ! i = v\<lparr>pending := pending (workers s' ! i), counted := counted (workers s' ! i)\<rparr>"
      using i len by (simp add: ws v(2))
    ultimately show ?thesis using w(1) True by auto
  next
    case False
    with w show ?thesis by (auto simp: ws)
  qed
qed

lemma workers_inv_step:
  assumes inv: "workers_inv L starts s trace" and eff: "effect L (length starts) capacity s l s'"
    and len: "length (workers s) = length starts"
  shows "workers_inv L starts s' (trace @ [l])"
proof (cases l)
  case (Handled i t e als)
  then obtain w' where "i < length starts" "detect L t e (workers s ! i) = Some (w', als)"
    "workers s' = (workers s)[i := w'\<lparr>pending := als\<rparr>]"
    using eff by (simp only: effect.simps) blast
  then show ?thesis unfolding Handled by (intro workers_inv_handled [OF inv _ len])
next
  case (Accepted e)
  then show ?thesis using eff by (intro workers_inv_same [OF inv]) (simp_all add: Let_def)
next
  case (Dropped e)
  then show ?thesis using eff by (intro workers_inv_same [OF inv]) (simp_all add: Let_def)
next
  case (Idle i)
  then show ?thesis using eff by (intro workers_inv_same [OF inv]) simp_all
next
  case (Counted i)
  then show ?thesis using eff len by (intro workers_inv_same [OF inv]) (auto simp: nth_list_update)
next
  case (Stored i a)
  then show ?thesis using eff len by (intro workers_inv_same [OF inv]) (auto simp: nth_list_update)
qed

text \<open>The store keeps the newest alerts.\<close>

lemma keep_newest:
  "(let as = drop (length xs - cap) xs @ [a] in if cap < length as then tl as else as) = drop (length (xs @ [a]) - cap) (xs @ [a])"
proof (cases "cap \<le> length xs")
  case True
  let ?k = "length xs - cap"
  have "drop ?k xs @ [a] = drop ?k (xs @ [a])" by simp
  then have "tl (drop ?k xs @ [a]) = drop (Suc ?k) (xs @ [a])" by (simp only: drop_Suc tl_drop)
  moreover have "Suc ?k = length (xs @ [a]) - cap" using True by simp
  moreover have "length (drop ?k xs @ [a]) = cap + 1" using True by simp
  ultimately show ?thesis by (simp only: Let_def) simp
qed simp

lemma alerts_inv_step:
  assumes inv: "alerts_inv n s trace" and eff: "effect L n capacity s l s'" and len: "length (workers s) = n"
  shows "alerts_inv n s' (trace @ [l])"
proof (cases l)
  case (Handled i t e als)
  then obtain w' where "i < n" "pending (workers s ! i) = []" "workers s' = (workers s)[i := w'\<lparr>pending := als\<rparr>]"
    "alerts (app s') = alerts (app s)"
    using eff by auto (metis AppState.ext_inject AppState.surjective AppState.update_convs)
  with inv len show ?thesis by (auto simp: Handled alerts_inv_def nth_list_update)
next
  case (Counted i)
  then show ?thesis using inv eff len by (auto simp: alerts_inv_def count_alert_def nth_list_update)
next
  case (Stored i a)
  then have e: "i < n" "pending (workers s ! i) = a # tl (pending (workers s ! i))"
    "workers s' = (workers s)[i := (workers s ! i)\<lparr>pending := tl (pending (workers s ! i)), counted := False\<rparr>]"
    "app s' = store_alert a (app s)"
    using eff by (simp_all add: hd_Cons_tl)
  have "alerts (app s') = drop (length (stored (trace @ [l])) - alert_history_cap) (map snd (stored (trace @ [l])))"
    using inv keep_newest [of "map snd (stored trace)" alert_history_cap a]
    by (simp add: e(4) store_alert_def Let_def alerts_inv_def Stored)
  moreover have "raised_by j (trace @ [l]) = stored_by j (trace @ [l]) @ pending (workers s' ! j)" if j: "j < n" for j
  proof -
    have "raised_by j trace = stored_by j trace @ pending (workers s ! j)" using inv j by (simp add: alerts_inv_def)
    with e(1-3) j len show ?thesis by (cases "j = i") (simp_all add: Stored)
  qed
  ultimately show ?thesis by (simp add: alerts_inv_def)
next
  case (Accepted e)
  then have "workers s' = workers s" "alerts (app s') = alerts (app s)"
    using eff by (auto simp: Let_def) (metis AppState.select_convs(2) AppState.surjective AppState.update_convs(1))
  with inv show ?thesis by (simp add: alerts_inv_def Accepted)
next
  case (Dropped e)
  then have "workers s' = workers s" "alerts (app s') = alerts (app s)"
    using eff by (auto simp: Let_def) (metis AppState.select_convs(2) AppState.surjective AppState.update_convs(1,4))
  with inv show ?thesis by (simp add: alerts_inv_def Dropped)
next
  case (Idle i)
  then have "workers s' = workers s" "alerts (app s') = alerts (app s)"
    using eff by auto (metis AppState.select_convs(2) AppState.surjective AppState.update_convs(1))
  with inv show ?thesis by (simp add: alerts_inv_def Idle)
qed

lemma app_update_selectors:
  "app s' = (app s)\<lparr>queues := qs\<rparr> \<Longrightarrow> events_processed (app s') = events_processed (app s) \<and>
     events_dropped (app s') = events_dropped (app s) \<and> alerts_fired (app s') = alerts_fired (app s)"
  "app s' = (app s)\<lparr>queues := qs, events_dropped := d\<rparr> \<Longrightarrow> events_processed (app s') = events_processed (app s) \<and>
     events_dropped (app s') = d \<and> alerts_fired (app s') = alerts_fired (app s)"
  "app s' = (app s)\<lparr>queues := qs, events_processed := d\<rparr> \<Longrightarrow> events_processed (app s') = d \<and>
     events_dropped (app s') = events_dropped (app s) \<and> alerts_fired (app s') = alerts_fired (app s)"
  by simp_all

lemma counters_inv_step:
  assumes inv: "counters_inv n s trace" and eff: "effect L n capacity s l s'" and len: "length (workers s) = n"
  shows "counters_inv n s' (trace @ [l])"
proof (cases l)
  case (Accepted e)
  then have "workers s' = workers s" "app s' = (app s)\<lparr>queues := queues (app s')\<rparr>"
    using eff by (simp_all only: effect.simps Let_def)
  with app_update_selectors(1) [OF this(2)] inv show ?thesis by (simp add: Accepted counters_inv_def)
next
  case (Dropped e)
  then have "workers s' = workers s"
    "app s' = (app s)\<lparr>queues := queues (app s'), events_dropped := events_dropped (app s) + 1\<rparr>"
    using eff by (simp_all only: effect.simps Let_def)
  with app_update_selectors(2) [OF this(2)] inv show ?thesis by (simp add: Dropped counters_inv_def)
next
  case (Handled i t e als)
  then obtain w' where "i < n" "pending (workers s ! i) = []" "detect L t e (workers s ! i) = Some (w', als)"
    "workers s' = (workers s)[i := w'\<lparr>pending := als\<rparr>]"
    and a: "app s' = (app s)\<lparr>queues := queues (app s'), events_processed := events_processed (app s) + 1\<rparr>"
    using eff by (simp only: effect.simps) blast
  moreover from this have "\<not> counted (workers s ! i)" using inv by (auto simp: counters_inv_def)
  moreover from calculation have "\<not> counted w'" by (auto simp: detect_def split: bind_splits)
  ultimately show ?thesis using app_update_selectors(3) [OF a] inv len
    by (auto simp: Handled counters_inv_def nth_list_update)
next
  case (Idle i)
  then have "workers s' = workers s" "app s' = (app s)\<lparr>queues := queues (app s')\<rparr>"
    using eff by (simp_all only: effect.simps)
  with app_update_selectors(1) [OF this(2)] inv show ?thesis by (simp add: Idle counters_inv_def)
next
  case (Counted i)
  then have "i < n" "pending (workers s ! i) \<noteq> []" "\<not> counted (workers s ! i)"
    "app s' = count_alert (app s)" "workers s' = (workers s)[i := (workers s ! i)\<lparr>counted := True\<rparr>]"
    using eff by (simp_all only: effect.simps not_False_eq_True simp_thms)
  with inv len show ?thesis by (auto simp: Counted counters_inv_def count_alert_def nth_list_update)
next
  case (Stored i a)
  then have "i < n" "counted (workers s ! i)" "app s' = store_alert a (app s)"
    "workers s' = (workers s)[i := (workers s ! i)\<lparr>pending := tl (pending (workers s ! i)), counted := False\<rparr>]"
    using eff by (simp_all only: effect.simps)
  with inv len show ?thesis by (auto simp: Stored counters_inv_def store_alert_def Let_def nth_list_update)
qed

lemma run_inv_step:
  assumes "run_inv L capacity starts s trace" and "effect L (length starts) capacity s l s'" and "sys_ok L (length starts) capacity s'"
  shows "run_inv L capacity starts s' (trace @ [l])"
proof -
  have ok: "sys_ok L (length starts) capacity s" using assms(1) by (simp add: run_inv_def)
  then have len: "length (workers s) = length starts" by (simp add: sys_ok_def)
  from assms show ?thesis
    using queues_inv_step [OF _ assms(2) contents_length [OF ok]] workers_inv_step [OF _ assms(2) len]
      alerts_inv_step [OF _ assms(2) len] counters_inv_step [OF _ assms(2) len]
    by (simp add: run_inv_def)
qed

text \<open>The premises of the properties: capacities and parameters for which the program starts.\<close>

definition config_ok :: "'ac Libs \<Rightarrow> usize \<Rightarrow> instant list \<Rightarrow> bool" where
  "config_ok L capacity starts \<longleftrightarrow>
     libs_ok L \<and> is_power_of_two capacity \<and> 2 \<le> unat capacity \<and> starts \<noteq> []"

lemma queue_new_empty:
  assumes "is_power_of_two capacity" and "2 \<le> unat capacity"
  obtains q :: "'a MpmcQueue" where "queue_new capacity = Some q" and "mpmc_ok q" and "queue_list q = []"
    and "queue_capacity q = unat capacity"
proof -
  obtain q :: "'a MpmcQueue" where q: "queue_new capacity = Some q" using assms(1) by (auto simp: queue_new_def)
  from queue_new_mpmc_ok [OF q assms(2)] q show ?thesis by (auto intro: that)
qed

lemma start_inv:
  assumes "config_ok L capacity starts"
  obtains s where "system_new L capacity starts = Some s" and "run_inv L capacity starts s []"
proof -
  obtain q0 :: "NetworkEvent MpmcQueue" where q0: "queue_new capacity = Some q0" "mpmc_ok q0" "queue_list q0 = []"
      "queue_capacity q0 = unat capacity"
    by (rule queue_new_empty [of capacity]) (use assms in \<open>simp_all add: config_ok_def\<close>)
  have libs: "libs_ok L" using assms by (simp add: config_ok_def)
  obtain s where s: "system_new L capacity starts = Some s" "sys_ok L (length starts) capacity s"
    "contents s = replicate (length starts) []"
    and a: "app s = \<lparr>queues = queues (app s), alerts = [], events_processed = 0, events_dropped = 0, alerts_fired = 0\<rparr>"
    and w: "\<And>i. i < length starts \<Longrightarrow> worker_new L (starts ! i) = Some (workers s ! i)"
    and p: "\<And>i. i < length starts \<Longrightarrow> pending (workers s ! i) = [] \<and> \<not> counted (workers s ! i)"
    by (rule system_new_ok [OF libs q0]) blast
  have sel: "alerts (app s) = []" "events_processed (app s) = 0" "events_dropped (app s) = 0" "alerts_fired (app s) = 0"
    by (subst a, simp)+
  have "run_inv L capacity starts s []"
    using s w p by (simp add: run_inv_def queues_inv_def workers_inv_def alerts_inv_def counters_inv_def sel)
  with s(1) show ?thesis by (rule that)
qed

lemma reach_inv:
  assumes "reach L capacity starts s trace" and "config_ok L capacity starts"
  shows "run_inv L capacity starts s trace"
  using assms(1)
proof induction
  case (start s)
  then show ?case using start_inv [OF assms(2)] by (metis option.inject)
next
  case (action s trace a s' l)
  have "sys_ok L (length starts) capacity s" using action.IH by (simp add: run_inv_def)
  moreover have "0 < length starts" using assms(2) by (simp add: config_ok_def)
  ultimately obtain s'' l' where "perform L a s = Some (s'', l')" "sys_ok L (length starts) capacity s''"
    "effect L (length starts) capacity s l' s''"
    using perform_ok action.hyps(2) by blast
  with action.hyps(3) run_inv_step [OF action.IH] show ?case by simp
qed

text \<open>Any enabled action continues a run.\<close>

lemma reach_step:
  assumes cfg: "config_ok L capacity starts" and r: "reach L capacity starts s trace" and en: "enabled a s"
  obtains s' l where "perform L a s = Some (s', l)" and "reach L capacity starts s' (trace @ [l])"
    and "effect L (length starts) capacity s l s'"
proof -
  have "sys_ok L (length starts) capacity s" using reach_inv [OF r cfg] by (simp add: run_inv_def)
  moreover have "0 < length starts" using cfg by (simp add: config_ok_def)
  ultimately obtain s' l where p: "perform L a s = Some (s', l)" and e: "effect L (length starts) capacity s l s'"
    using perform_ok [OF _ _ en] by blast
  show ?thesis by (rule that [OF p reach.action [OF r en p] e])
qed

end
