(* ===== verification/PipelineProps.thy ===== *)
theory PipelineProps
  imports PipelineRuns AnomalyInterval
begin

unbundle bit_operations_syntax

section \<open>Properties of the pipeline\<close>

text \<open>
  What holds of every interleaving of the producer and the workers, whatever the clocks read: no panic,
  routing, order, backpressure, the three detectors of a worker as sequential programs, the alert store,
  the counters, and the attacks that are reported whatever the schedule.
\<close>

subsection \<open>Continuing a run\<close>

lemma perform_label:
  "perform L (Produce e) s = Some (s', l) \<Longrightarrow> l = Accepted e \<or> l = Dropped e"
  "perform L (Work i t) s = Some (s', l) \<Longrightarrow> l = Idle i \<or> (\<exists>e als. l = Handled i t e als)"
  "perform L (Count i) s = Some (s', l) \<Longrightarrow> l = Counted i"
  "perform L (Store i) s = Some (s', l) \<Longrightarrow> \<exists>a. l = Stored i a"
  by (auto simp: produce_def work_def Let_def split: bind_splits if_splits option.splits sum.splits)

text \<open>The two steps of a worker make up one undisturbed call of \<^verbatim>\<open>record_alert\<close>.\<close>

lemma count_then_store:
  assumes "i < length (workers s)" and "perform L (Count i) s = Some (s1, l1)" and "perform L (Store i) s1 = Some (s2, l2)"
  shows "app s2 = record_alert (hd (pending (workers s ! i))) (app s)"
  using assms by (auto simp: record_alert_def Let_def)

definition by_worker :: "nat \<Rightarrow> label \<Rightarrow> bool" where
  "by_worker i l \<longleftrightarrow> (case l of Handled j _ _ _ \<Rightarrow> j = i | Counted j \<Rightarrow> j = i | Stored j _ \<Rightarrow> j = i | _ \<Rightarrow> False)"

lemma reach_contents: "config_ok L capacity starts \<Longrightarrow> reach L capacity starts s trace \<Longrightarrow>
    length (contents s) = length starts \<and> length (workers s) = length starts"
  using reach_inv [of L capacity starts s trace] contents_length [of L "length starts" capacity s]
  by (simp add: run_inv_def sys_ok_def)

lemma reach_work:
  assumes cfg: "config_ok L capacity starts" and r: "reach L capacity starts s trace" and i: "i < length starts"
    and p: "pending (workers s ! i) = []" and c: "contents s ! i \<noteq> []"
  obtains s' als where "reach L capacity starts s' (trace @ [Handled i t (hd (contents s ! i)) als])"
    and "contents s' ! i = tl (contents s ! i)"
proof -
  have "enabled (Work i t) s" using i p reach_contents [OF cfg r] by simp
  then obtain s' l where pf: "perform L (Work i t) s = Some (s', l)" and r': "reach L capacity starts s' (trace @ [l])"
    and eff: "effect L (length starts) capacity s l s'"
    by (rule reach_step [OF cfg r])
  from perform_label(2) [OF pf] eff c obtain als where "l = Handled i t (hd (contents s ! i)) als"
    and "contents s' = (contents s)[i := tl (contents s ! i)]" by auto
  with r' i reach_contents [OF cfg r] show ?thesis by (intro that [of s' als]) auto
qed

text \<open>A worker records one pending alert: it counts it, unless that is done, and stores it.\<close>

lemma reach_store:
  assumes cfg: "config_ok L capacity starts" and r: "reach L capacity starts s trace" and i: "i < length starts"
    and p: "pending (workers s ! i) \<noteq> []" and c: "counted (workers s ! i)"
  obtains s' l where "reach L capacity starts s' (trace @ [l])" and "by_worker i l" and "contents s' = contents s"
    and "pending (workers s' ! i) = tl (pending (workers s ! i))" and "inputs_of i (trace @ [l]) = inputs_of i trace"
proof -
  have "enabled (Store i) s" using i p c reach_contents [OF cfg r] by simp
  then obtain s' l where pf: "perform L (Store i) s = Some (s', l)" and r': "reach L capacity starts s' (trace @ [l])"
    and eff: "effect L (length starts) capacity s l s'"
    by (rule reach_step [OF cfg r])
  from perform_label(4) [OF pf] eff obtain a where l: "l = Stored i a" and "app s' = store_alert a (app s)"
    "workers s' = (workers s)[i := (workers s ! i)\<lparr>pending := tl (pending (workers s ! i)), counted := False\<rparr>]" by auto
  with r' i reach_contents [OF cfg r] show ?thesis
    by (intro that [of s' l]) (simp_all add: by_worker_def contents_def)
qed

lemma reach_record:
  assumes cfg: "config_ok L capacity starts" and r: "reach L capacity starts s trace" and i: "i < length starts"
    and p: "pending (workers s ! i) \<noteq> []"
  obtains s' ext where "reach L capacity starts s' (trace @ ext)" and "list_all (by_worker i) ext" and "contents s' = contents s"
    and "pending (workers s' ! i) = tl (pending (workers s ! i))" and "inputs_of i (trace @ ext) = inputs_of i trace"
proof (cases "counted (workers s ! i)")
  case True
  obtain s' l where "reach L capacity starts s' (trace @ [l])" "by_worker i l" "contents s' = contents s"
    "pending (workers s' ! i) = tl (pending (workers s ! i))" "inputs_of i (trace @ [l]) = inputs_of i trace"
    by (rule reach_store [OF cfg r i p True])
  then show ?thesis by (intro that [of s' "[l]"]) simp_all
next
  case False
  then have "enabled (Count i) s" using i p reach_contents [OF cfg r] by simp
  then obtain s' l where pf: "perform L (Count i) s = Some (s', l)" and r': "reach L capacity starts s' (trace @ [l])"
    and eff: "effect L (length starts) capacity s l s'"
    by (rule reach_step [OF cfg r])
  have l: "l = Counted i" by (rule perform_label(3) [OF pf])
  have w: "workers s' ! i = (workers s ! i)\<lparr>counted := True\<rparr>" and c: "contents s' = contents s"
    using eff i reach_contents [OF cfg r] by (simp_all add: l contents_def)
  obtain s'' l' where "reach L capacity starts s'' ((trace @ [l]) @ [l'])" "by_worker i l'" "contents s'' = contents s'"
    "pending (workers s'' ! i) = tl (pending (workers s' ! i))" "inputs_of i ((trace @ [l]) @ [l']) = inputs_of i (trace @ [l])"
    by (rule reach_store [OF cfg r' i]) (use p in \<open>simp_all add: w\<close>)
  moreover have "inputs_of i (trace @ [l]) = inputs_of i trace" by (simp only: of_worker_snoc) (simp add: l)
  ultimately show ?thesis using w c by (intro that [of s'' "[l, l']"]) (simp_all add: l by_worker_def)
qed

lemma reach_recorded:
  assumes cfg: "config_ok L capacity starts" and r: "reach L capacity starts s trace" and i: "i < length starts"
  shows "\<exists>s' ext. reach L capacity starts s' (trace @ ext) \<and> list_all (by_worker i) ext \<and> contents s' = contents s \<and>
    pending (workers s' ! i) = [] \<and> inputs_of i (trace @ ext) = inputs_of i trace"
  using r
proof (induction "pending (workers s ! i)" arbitrary: s trace)
  case Nil
  then show ?case by (intro exI [of _ s] exI [of _ "[]"]) simp
next
  case (Cons a as)
  then have "pending (workers s ! i) \<noteq> []" by (metis list.distinct(1))
  then obtain s1 ext1 where r1: "reach L capacity starts s1 (trace @ ext1)" "list_all (by_worker i) ext1" "contents s1 = contents s"
    "inputs_of i (trace @ ext1) = inputs_of i trace" and p: "pending (workers s1 ! i) = tl (pending (workers s ! i))"
    by (rule reach_record [OF cfg Cons.prems i])
  have "as = pending (workers s1 ! i)" using p Cons.hyps(2) by (metis list.sel(3))
  from Cons.hyps(1) [OF this r1(1)] obtain s' ext2 where "reach L capacity starts s' ((trace @ ext1) @ ext2)"
    "list_all (by_worker i) ext2" "contents s' = contents s1" "pending (workers s' ! i) = []"
    "inputs_of i ((trace @ ext1) @ ext2) = inputs_of i (trace @ ext1)" by blast
  with r1 show ?case by (intro exI [of _ s'] exI [of _ "ext1 @ ext2"]) simp
qed

text \<open>A worker that runs on empties its queue, whatever the clocks \<open>ts\<close> read, and records every alert.\<close>

lemma reach_drained:
  assumes cfg: "config_ok L capacity starts" and r: "reach L capacity starts s trace" and i: "i < length starts"
    and ts: "length ts = length (contents s ! i)"
  shows "\<exists>s' ext. reach L capacity starts s' (trace @ ext) \<and> list_all (by_worker i) ext \<and> contents s' ! i = [] \<and>
    pending (workers s' ! i) = [] \<and> inputs_of i (trace @ ext) = inputs_of i trace @ zip ts (contents s ! i)"
  using r ts
proof (induction "contents s ! i" arbitrary: s trace ts)
  case Nil
  have e: "contents s ! i = []" using Nil.hyps by simp
  obtain s' ext where "reach L capacity starts s' (trace @ ext)" "list_all (by_worker i) ext" "contents s' = contents s"
    "pending (workers s' ! i) = []" "inputs_of i (trace @ ext) = inputs_of i trace"
    using reach_recorded [OF cfg Nil.prems(1) i] by blast
  with e show ?case by (intro exI [of _ s'] exI [of _ ext]) simp
next
  case (Cons e es)
  have es: "contents s ! i = e # es" using Cons.hyps(2) by simp
  then obtain t ts' where ts: "ts = t # ts'" using Cons.prems(2) by (cases ts) simp_all
  obtain s1 ext1 where r1: "reach L capacity starts s1 (trace @ ext1)" and w1: "list_all (by_worker i) ext1"
    and c1: "contents s1 = contents s" and p1: "pending (workers s1 ! i) = []" and i1: "inputs_of i (trace @ ext1) = inputs_of i trace"
    using reach_recorded [OF cfg Cons.prems(1) i] by blast
  have "contents s1 ! i \<noteq> []" using es c1 by simp
  then obtain s2 als where r2: "reach L capacity starts s2 ((trace @ ext1) @ [Handled i t e als])"
    and "contents s2 ! i = tl (contents s1 ! i)"
    by (rule reach_work [OF cfg r1 i p1, where t = t]) (simp add: es c1)
  then have es2: "contents s2 ! i = es" using es c1 by simp
  obtain s' ext2 where r3: "reach L capacity starts s' (((trace @ ext1) @ [Handled i t e als]) @ ext2)"
    "list_all (by_worker i) ext2" "contents s' ! i = []" "pending (workers s' ! i) = []"
    "inputs_of i (((trace @ ext1) @ [Handled i t e als]) @ ext2) = inputs_of i ((trace @ ext1) @ [Handled i t e als]) @ zip ts' es"
    using Cons.hyps(1) [OF es2 [symmetric] r2, of ts'] Cons.prems(2) es2 by (auto simp: ts es)
  have "inputs_of i ((trace @ ext1) @ [Handled i t e als]) = inputs_of i trace @ [(t, e)]"
    by (simp only: of_worker_snoc i1) simp
  with r3 w1 show ?case
    by (intro exI [of _ s'] exI [of _ "ext1 @ [Handled i t e als] @ ext2"]) (simp add: by_worker_def es ts)
qed

lemma reach_accept:
  assumes cfg: "config_ok L capacity starts" and r: "reach L capacity starts s trace"
    and room: "length (contents s ! shard_of (length starts) e) < unat capacity"
  obtains s' where "reach L capacity starts s' (trace @ [Accepted e])" and "perform L (Produce e) s = Some (s', Accepted e)"
    and "contents s' = (contents s)[shard_of (length starts) e := contents s ! shard_of (length starts) e @ [e]]"
proof -
  obtain s' l where p: "perform L (Produce e) s = Some (s', l)" and r': "reach L capacity starts s' (trace @ [l])"
    and eff: "effect L (length starts) capacity s l s'"
    by (rule reach_step [OF cfg r, of "Produce e"]) simp_all
  from perform_label(1) [OF p] eff room have "l = Accepted e" by (auto simp: Let_def)
  with p r' eff show ?thesis by (intro that [of s']) (simp_all add: Let_def)
qed

text \<open>A single worker can be fed any events at any clock readings.\<close>

lemma reach_feeds:
  assumes cfg: "config_ok L capacity [t0]"
  shows "\<exists>s trace. reach L capacity [t0] s trace \<and> inputs_of 0 trace = xs \<and> accepted trace = map snd xs \<and>
    contents s ! 0 = [] \<and> pending (workers s ! 0) = []"
proof (induction xs rule: rev_induct)
  case Nil
  obtain s where s: "system_new L capacity [t0] = Some s" and inv: "run_inv L capacity [t0] s []" by (rule start_inv [OF cfg])
  have "queues_inv (Suc 0) s []" "alerts_inv (Suc 0) s []" using inv by (simp_all add: run_inv_def)
  then have "contents s ! 0 = []" "pending (workers s ! 0) = []"
    by (simp_all add: queues_inv_def alerts_inv_def)
  with reach.start [OF s] show ?case by (intro exI [of _ s] exI [of _ "[]"]) simp
next
  case (snoc x xs)
  then obtain s trace where r: "reach L capacity [t0] s trace" and ins: "inputs_of 0 trace = xs" "accepted trace = map snd xs"
    and e: "contents s ! 0 = []" by blast
  obtain t ev where x: "x = (t, ev)" by (cases x)
  have "0 < unat capacity" using cfg by (simp add: config_ok_def)
  then have room: "length (contents s ! shard_of (length [t0]) ev) < unat capacity" using e by (simp add: shard_of_def)
  obtain s1 where r1: "reach L capacity [t0] s1 (trace @ [Accepted ev])"
    and "contents s1 = (contents s)[shard_of (length [t0]) ev := contents s ! shard_of (length [t0]) ev @ [ev]]"
    by (rule reach_accept [OF cfg r room])
  then have c1: "contents s1 ! 0 = [ev]" using reach_contents [OF cfg r] e by (simp add: shard_of_def)
  have acc: "accepted (trace @ ext) = accepted trace" if "list_all (by_worker 0) ext" for trace ext
    using that by (auto simp: accepted_def by_worker_def list_all_iff split: label.splits)
  obtain s2 ext where r2: "reach L capacity [t0] s2 ((trace @ [Accepted ev]) @ ext)" and bw: "list_all (by_worker 0) ext"
    and d: "contents s2 ! 0 = []" "pending (workers s2 ! 0) = []"
    and i2: "inputs_of 0 ((trace @ [Accepted ev]) @ ext) = inputs_of 0 (trace @ [Accepted ev]) @ [x]"
    using reach_drained [OF cfg r1, of 0 "[t]"] c1 by (auto simp: x)
  have "inputs_of 0 (trace @ [Accepted ev]) = xs" "accepted (trace @ [Accepted ev]) = map snd xs @ [ev]" by (simp_all add: ins)
  with r2 d i2 acc [OF bw, of "trace @ [Accepted ev]"] show ?case
    by (intro exI [of _ s2] exI [of _ "(trace @ [Accepted ev]) @ ext"]) (simp add: x)
qed

subsection \<open>The detectors of a worker\<close>

text \<open>The three detectors of a worker run side by side; the alerts of each kind come from one of them.\<close>

lemma filter_kind: "\<forall>a \<in> set als. describes k e a \<Longrightarrow> filter (\<lambda>a. detector a = k') als = (if k = k' then als else [])"
  by (induction als) (auto simp: describes_def)

lemma detect_parts:
  assumes "worker_ok L w" and "detect L t e w = Some (w', als)"
  shows "scan (lib_search L) e (sig w) = Some (sig w', filter (\<lambda>a. detector a = Signature) als)"
    and "observe (lib_fx L) (lib_ln L) (fst t) e (anomaly w) = Some (anomaly w', filter (\<lambda>a. detector a = Anomaly) als)"
    and "process (snd t) e (cep w) = Some (cep w', filter (\<lambda>a. detector a = Cep) als)"
proof -
  have s: "sig_ok (lib_build L) (lib_search L) (sig w)"
    and an: "ln_accurate (lib_ln L) \<and> (\<exists>hist als. window_inv (lib_fx L) hist als (anomaly w))"
    and c: "\<exists>rs hist n. cep w = cep_at rs hist n" using assms(1) by (simp_all add: worker_ok_def)
  obtain s' als1 an' als2 c' als3 where 1: "scan (lib_search L) e (sig w) = Some (s', als1)"
    and 2: "observe (lib_fx L) (lib_ln L) (fst t) e (anomaly w) = Some (an', als2)"
    and 3: "process (snd t) e (cep w) = Some (c', als3)"
    and w': "w' = w\<lparr>sig := s', anomaly := an', cep := c'\<rparr>" and als: "als = als1 @ als2 @ als3"
    using assms(2) by (auto simp: detect_def split: bind_splits)
  have k: "\<forall>a \<in> set als1. describes Signature e a" "\<forall>a \<in> set als2. describes Anomaly e a" "\<forall>a \<in> set als3. describes Cep e a"
    using signature.step_describes [OF s 1] anomaly.step_describes [OF an, of "(fst t, e)"] 2
      cep.step_describes [OF c, of "(snd t, e)"] 3 by auto
  show "scan (lib_search L) e (sig w) = Some (sig w', filter (\<lambda>a. detector a = Signature) als)"
    "observe (lib_fx L) (lib_ln L) (fst t) e (anomaly w) = Some (anomaly w', filter (\<lambda>a. detector a = Anomaly) als)"
    "process (snd t) e (cep w) = Some (cep w', filter (\<lambda>a. detector a = Cep) als)"
    by (simp_all add: 1 2 3 w' als filter_kind [OF k(1)] filter_kind [OF k(2)] filter_kind [OF k(3)])
qed

lemma detect_run_parts:
  assumes "worker_ok L w" and "detector_run (\<lambda>(t, e). detect L t e) xs w = Some (w', als)"
  shows "detector_run (scan (lib_search L)) (map snd xs) (sig w) = Some (sig w', filter (\<lambda>a. detector a = Signature) als) \<and>
    detector_run (\<lambda>(clock, e). observe (lib_fx L) (lib_ln L) clock e) (map (\<lambda>(t, e). (fst t, e)) xs) (anomaly w) =
      Some (anomaly w', filter (\<lambda>a. detector a = Anomaly) als) \<and>
    detector_run (\<lambda>(now, e). process now e) (map (\<lambda>(t, e). (snd t, e)) xs) (cep w) =
      Some (cep w', filter (\<lambda>a. detector a = Cep) als)"
  using assms
proof (induction xs arbitrary: w als)
  case (Cons x xs)
  obtain t e where x: "x = (t, e)" by (cases x)
  obtain w1 als1 als2 where d: "detect L t e w = Some (w1, als1)"
    and r: "detector_run (\<lambda>(t, e). detect L t e) xs w1 = Some (w', als2)" and als: "als = als1 @ als2"
    using Cons.prems(2) by (auto simp: x split: bind_splits)
  have "worker_ok L w1" using detect_ok [OF Cons.prems(1), of t e] d by (metis option.inject prod.inject)
  from Cons.IH [OF this r] detect_parts [OF Cons.prems(1) d] show ?case by (simp add: x als)
qed simp

lemma worker_runs:
  assumes cfg: "config_ok L capacity starts" and r: "reach L capacity starts s trace" and i: "i < length starts"
  obtains d0 als where "sig_with_default_rules (lib_build L) = Some d0" and "als = stored_by i trace @ pending (workers s ! i)"
    and "detector_run (scan (lib_search L)) (map snd (inputs_of i trace)) d0 = Some (sig (workers s ! i), filter (\<lambda>a. detector a = Signature) als)"
    and "detector_run (\<lambda>(clock, e). observe (lib_fx L) (lib_ln L) clock e) (map (\<lambda>(t, e). (fst t, e)) (inputs_of i trace))
      (anomaly_new (starts ! i) 5000000000) = Some (anomaly (workers s ! i), filter (\<lambda>a. detector a = Anomaly) als)"
    and "detector_run (\<lambda>(now, e). process now e) (map (\<lambda>(t, e). (snd t, e)) (inputs_of i trace)) cep_with_default_rules =
      Some (cep (workers s ! i), filter (\<lambda>a. detector a = Cep) als)"
proof -
  have inv: "run_inv L capacity starts s trace" by (rule reach_inv [OF r cfg])
  then obtain w0 w where w0: "worker_new L (starts ! i) = Some w0"
    and run: "detector_run (\<lambda>(t, e). detect L t e) (inputs_of i trace) w0 = Some (w, raised_by i trace)"
    and w: "workers s ! i = w\<lparr>pending := pending (workers s ! i), counted := counted (workers s ! i)\<rparr>"
    using i by (auto simp: run_inv_def workers_inv_def)
  have als: "raised_by i trace = stored_by i trace @ pending (workers s ! i)"
    using inv i by (simp add: run_inv_def alerts_inv_def)
  have "libs_ok L" using cfg by (simp add: config_ok_def)
  from worker_new_ok [OF this, of "starts ! i"] w0 have ok: "worker_ok L w0" by (metis option.inject)
  obtain d0 where d0: "sig_with_default_rules (lib_build L) = Some d0" "sig w0 = d0"
    and a0: "anomaly w0 = anomaly_new (starts ! i) 5000000000" "cep w0 = cep_with_default_rules"
    using w0 by (auto simp: worker_new_def split: bind_splits)
  have same: "sig w = sig (workers s ! i)" "anomaly w = anomaly (workers s ! i)" "cep w = cep (workers s ! i)"
    by (subst w, simp)+
  show ?thesis using detect_run_parts [OF ok run] same
    by (intro that [OF d0(1) als]) (simp_all add: d0(2) a0)
qed

subsection \<open>Properties\<close>

text \<open>
  The program never panics. With a power-of-two queue capacity of at least two and at
  least one worker, the system starts, and in every state reached by any interleaving of the
  producer, the workers' pops and detector calls and the two halves of record_alert, every
  enabled action completes and leads to a reachable state: no index is out of range, no
  detector call panics, at any clock readings.
\<close>

theorem pipeline_never_panics:
  assumes "config_ok L capacity starts"
  shows "(\<exists>s. reach L capacity starts s []) \<and>
    (\<forall>s trace a. reach L capacity starts s trace \<longrightarrow> enabled a s \<longrightarrow>
       (\<exists>s' l. perform L a s = Some (s', l) \<and> reach L capacity starts s' (trace @ [l])))"
proof
  show "\<exists>s. reach L capacity starts s []" using start_inv [OF assms] reach.start by metis
  show "\<forall>s trace a. reach L capacity starts s trace \<longrightarrow> enabled a s \<longrightarrow>
       (\<exists>s' l. perform L a s = Some (s', l) \<and> reach L capacity starts s' (trace @ [l]))"
    using reach_step [OF assms] by metis
qed

text \<open>
  C31: Progress and preservation. From any state in which every ring buffer and every detector is
  well formed, reachable or not, every enabled action completes, leaves all of them well formed,
  and changes the system as the list specification of its label says: an event appended to its
  shard's list or dropped, the head of a list taken and detected, an alert counted or stored, and
  nothing else.
\<close>

theorem actions_preserve_well_formedness:
  assumes "sys_ok L n capacity s" and "0 < n" and "enabled a s"
  shows "\<exists>s' l. perform L a s = Some (s', l) \<and> sys_ok L n capacity s' \<and> effect L n capacity s l s'"
  using assms by (rule perform_ok)

text \<open>
  C9: Queues between threads are exact. In every reachable state, the accepted events whose
  shard key selects worker i are, in the order of their pushes, the events worker i has
  handled followed by the events waiting in queue i, and the queue holds at most its capacity:
  nothing accepted is lost, duplicated, reordered or handed to another worker.
\<close>

theorem shards_in_order_without_loss:
  assumes "config_ok L capacity starts" and "reach L capacity starts s trace" and "i < length starts"
  shows "filter (\<lambda>e. unat (shard_key e) mod length starts = i) (accepted trace) =
      map snd (inputs_of i trace) @ queue_list (queues (app s) ! i) \<and>
    length (queue_list (queues (app s) ! i)) \<le> unat capacity"
proof -
  have inv: "run_inv L capacity starts s trace" by (rule reach_inv [OF assms(2,1)])
  then have ok: "sys_ok L (length starts) capacity s" and q: "queues_inv (length starts) s trace"
    by (simp_all add: run_inv_def)
  have "contents s ! i = queue_list (queues (app s) ! i)"
    using ok assms(3) by (simp add: contents_def sys_ok_def)
  moreover have "length (queue_list (queues (app s) ! i)) \<le> unat capacity"
    using mpmc.bound sys_ok_queue [OF ok assms(3)] by metis
  ultimately show ?thesis using q assms(3) by (simp add: queues_inv_def shard_of_def)
qed

text \<open>The events of one source go through one worker.\<close>

lemma shard_of_source: "src_ip e = src_ip e' \<Longrightarrow> shard_of n e = shard_of n e'"
  by (simp add: shard_of_def shard_key_def)

text \<open>
  C10: All traffic of a source goes to one worker, in order. In every interleaving and for
  every number of workers there is one worker whose handled events of a source address are a
  prefix of the accepted events of that address, and no other worker ever handles an event of
  that address.
\<close>

theorem one_worker_sees_a_source_in_order:
  assumes "config_ok L capacity starts" and "reach L capacity starts s trace"
  shows "\<exists>i < length starts. prefix (filter (\<lambda>e. src_ip e = ip) (map snd (inputs_of i trace))) (filter (\<lambda>e. src_ip e = ip) (accepted trace)) \<and>
    (\<forall>j < length starts. j \<noteq> i \<longrightarrow> (\<forall>x \<in> set (inputs_of j trace). src_ip (snd x) \<noteq> ip))"
proof -
  let ?n = "length starts"
  define e0 :: NetworkEvent where "e0 = \<lparr>timestamp_ms = 0, src_ip = ip, dst_ip = 0, src_port = 0, dst_port = 0,
    protocol = Tcp, flags = 0, payload_sample = []\<rparr>"
  let ?i = "shard_of ?n e0"
  have n: "0 < ?n" using assms(1) by (simp add: config_ok_def)
  then have i: "?i < ?n" by (simp add: shard_of_def)
  have sh: "shard_of ?n e = ?i" if "src_ip e = ip" for e using that shard_of_source [of e e0] by (simp add: e0_def)
  have q: "filter (\<lambda>e. shard_of ?n e = j) (accepted trace) = map snd (inputs_of j trace) @ contents s ! j" if "j < ?n" for j
    using reach_inv [OF assms(2,1)] that by (simp add: run_inv_def queues_inv_def)
  have "filter (\<lambda>e. src_ip e = ip) (accepted trace) =
      filter (\<lambda>e. src_ip e = ip) (filter (\<lambda>e. shard_of ?n e = ?i) (accepted trace))"
    using sh by (auto intro: filter_cong)
  also have "\<dots> = filter (\<lambda>e. src_ip e = ip) (map snd (inputs_of ?i trace)) @ filter (\<lambda>e. src_ip e = ip) (contents s ! ?i)"
    by (simp only: q [OF i] filter_append)
  finally have "prefix (filter (\<lambda>e. src_ip e = ip) (map snd (inputs_of ?i trace))) (filter (\<lambda>e. src_ip e = ip) (accepted trace))"
    by simp
  moreover have "src_ip (snd x) \<noteq> ip" if j: "j < ?n" "j \<noteq> ?i" and x: "x \<in> set (inputs_of j trace)" for j x
  proof
    assume "src_ip (snd x) = ip"
    moreover have "snd x \<in> set (filter (\<lambda>e. shard_of ?n e = j) (accepted trace))" using x by (simp only: q [OF j(1)]) auto
    ultimately show False using sh j(2) by auto
  qed
  ultimately show ?thesis using i by blast
qed


text \<open>A worker never starves.\<close>

text \<open>
  C24: No accepted event is stuck. From every reachable state, worker i alone (its pops,
  detector calls and recording steps), whatever its clocks read at each event, reaches a state
  in which it has handled every accepted event of its shard in order, its queue is empty, and
  all alerts it ever raised are stored.
\<close>

theorem worker_catches_up:
  assumes "config_ok L capacity starts" and "reach L capacity starts s trace" and "i < length starts"
    and "length ts = length (queue_list (queues (app s) ! i))"
  shows "\<exists>s' ext. reach L capacity starts s' (trace @ ext) \<and> list_all (by_worker i) ext \<and>
    map snd (inputs_of i (trace @ ext)) = filter (\<lambda>e. unat (shard_key e) mod length starts = i) (accepted trace) \<and>
    inputs_of i (trace @ ext) = inputs_of i trace @ zip ts (queue_list (queues (app s) ! i)) \<and>
    queue_list (queues (app s') ! i) = [] \<and> stored_by i (trace @ ext) = raised_by i (trace @ ext)"
proof -
  note cfg = assms(1) and i = assms(3)
  have c: "contents u ! i = queue_list (queues (app u) ! i)" if "reach L capacity starts u tr" for u tr
    using reach_inv [OF that cfg] i by (simp add: run_inv_def sys_ok_def contents_def)
  obtain s' ext where r: "reach L capacity starts s' (trace @ ext)" and w: "list_all (by_worker i) ext"
    and e: "contents s' ! i = []" "pending (workers s' ! i) = []"
    and ins: "inputs_of i (trace @ ext) = inputs_of i trace @ zip ts (contents s ! i)"
    using reach_drained [OF cfg assms(2) i, of ts] assms(4) c [OF assms(2)] by auto
  have q: "filter (\<lambda>e. shard_of (length starts) e = i) (accepted trace) = map snd (inputs_of i trace) @ contents s ! i"
    using reach_inv [OF assms(2) cfg] i by (simp add: run_inv_def queues_inv_def)
  have "map snd (zip ts (contents s ! i)) = contents s ! i" using assms(4) c [OF assms(2)] by simp
  then have m: "map snd (inputs_of i (trace @ ext)) = filter (\<lambda>e. unat (shard_key e) mod length starts = i) (accepted trace)"
    using q by (simp add: ins shard_of_def)
  have "raised_by i (trace @ ext) = stored_by i (trace @ ext)"
    using reach_inv [OF r cfg] i e(2) by (simp add: run_inv_def alerts_inv_def)
  with r w m e ins c [OF r] c [OF assms(2)] show ?thesis by (intro exI [of _ s'] exI [of _ ext]) simp
qed

text \<open>Backpressure.\<close>

text \<open>
  Backpressure is per shard. In every reachable state an event is dropped, and counted as
  dropped, exactly when the queue of its own shard holds its full capacity of events; the
  other queues do not matter, and otherwise it is accepted.
\<close>

theorem dropped_iff_own_shard_full:
  assumes "config_ok L capacity starts" and "reach L capacity starts s trace"
  shows "\<exists>s'. perform L (Produce e) s = Some (s', if length (queue_list (queues (app s) ! (unat (shard_key e) mod length starts))) = unat capacity
      then Dropped e else Accepted e) \<and>
    events_dropped (app s') = events_dropped (app s) +
      (if length (queue_list (queues (app s) ! (unat (shard_key e) mod length starts))) = unat capacity then 1 else 0)"
proof -
  let ?i = "shard_of (length starts) e"
  obtain s' l where p: "perform L (Produce e) s = Some (s', l)" and eff: "effect L (length starts) capacity s l s'"
    by (rule reach_step [OF assms, of "Produce e"]) simp_all
  have "?i < length starts" using assms(1) by (simp add: shard_of_def config_ok_def)
  then have c: "contents s ! ?i = queue_list (queues (app s) ! (unat (shard_key e) mod length starts))"
    using reach_inv [OF assms(2,1)] by (simp add: run_inv_def sys_ok_def contents_def shard_of_def)
  from perform_label(1) [OF p] show ?thesis
  proof
    assume l: "l = Accepted e"
    have "length (contents s ! ?i) \<noteq> unat capacity" and a: "app s' = (app s)\<lparr>queues := queues (app s')\<rparr>"
      using eff by (simp_all only: l effect.simps Let_def) simp
    with app_update_selectors(1) [OF a] p c l show ?thesis by simp
  next
    assume l: "l = Dropped e"
    have "length (contents s ! ?i) = unat capacity"
      and a: "app s' = (app s)\<lparr>queues := queues (app s'), events_dropped := events_dropped (app s) + 1\<rparr>"
      using eff by (simp_all only: l effect.simps Let_def)
    with app_update_selectors(2) [OF a] p c l show ?thesis by simp
  qed
qed

text \<open>
  With the four workers of main.rs the choice of worker depends on the two low bits of
  each octet of the source address only: the FNV fold is taken modulo 4, and neither the xor
  nor the multiplication moves higher bits down. Sources that agree in these eight bits always
  share a worker.
\<close>

theorem four_workers_see_two_bits_per_octet:
  assumes "src_ip e AND 0x03030303 = src_ip e' AND 0x03030303"
  shows "shard_of worker_count_default e = shard_of worker_count_default e'"
  using shard_key_low_bits [OF assms] by (simp add: shard_of_def worker_count_default_def)

text \<open>Detection per worker is sequential.\<close>

text \<open>
  C8: Detection is not disturbed by concurrency. In every interleaving, the alerts worker i
  has stored or is about to store, separated by detector kind, are exactly the alert sequences
  of three sequential runs, one of the default signature detector, one of a new anomaly
  detector with a window of five seconds and one of the default CEP engine, over the events
  the worker handled with their clock readings.
\<close>

theorem worker_is_three_sequential_detectors:
  assumes "config_ok L capacity starts" and "reach L capacity starts s trace" and "i < length starts"
  shows "\<exists>d0 d an c als. als = stored_by i trace @ pending (workers s ! i) \<and> sig_with_default_rules (lib_build L) = Some d0 \<and>
    detector_run (scan (lib_search L)) (map snd (inputs_of i trace)) d0 = Some (d, filter (\<lambda>a. detector a = Signature) als) \<and>
    detector_run (\<lambda>(clock, e). observe (lib_fx L) (lib_ln L) clock e) (map (\<lambda>(t, e). (fst t, e)) (inputs_of i trace))
      (anomaly_new (starts ! i) 5000000000) = Some (an, filter (\<lambda>a. detector a = Anomaly) als) \<and>
    detector_run (\<lambda>(now, e). process now e) (map (\<lambda>(t, e). (snd t, e)) (inputs_of i trace)) cep_with_default_rules =
      Some (c, filter (\<lambda>a. detector a = Cep) als)"
  using worker_runs [OF assms] by metis

text \<open>The alert store and the counters.\<close>

lemma length_by_index:
  fixes f :: "'a \<Rightarrow> nat"
  assumes "\<forall>x \<in> set xs. f x < n"
  shows "(\<Sum>i < n. length (filter (\<lambda>x. f x = i) xs)) = length xs"
  using assms
proof (induction xs)
  case (Cons x xs)
  have "(\<Sum>i < n. length (filter (\<lambda>y. f y = i) (x # xs))) =
      (\<Sum>i < n. (if i = f x then 1 else 0) + length (filter (\<lambda>y. f y = i) xs))"
    by (rule sum.cong) auto
  also have "\<dots> = (\<Sum>i < n. if i = f x then 1 else 0) + length xs" using Cons by (simp add: sum.distrib)
  also have "(\<Sum>i < n. if i = f x then 1 else 0) = (1 :: nat)"
    by (subst sum.delta) (use Cons.prems in simp_all)
  finally show ?case by simp
qed simp

definition indices_ok :: "nat \<Rightarrow> label list \<Rightarrow> bool" where
  "indices_ok n trace \<longleftrightarrow> (\<forall>x \<in> set (stored trace). fst x < n) \<and> (\<forall>i \<in> set (counts trace). i < n) \<and>
     (\<forall>x \<in> set (handled trace). fst x < n)"

lemma indices_ok_step: "indices_ok n trace \<Longrightarrow> effect L n capacity s l s' \<Longrightarrow> indices_ok n (trace @ [l])"
  by (cases l) (auto simp: indices_ok_def)

lemma reach_indices:
  assumes "reach L capacity starts s trace" and "config_ok L capacity starts"
  shows "indices_ok (length starts) trace"
  using assms(1)
proof induction
  case (action s trace a s' l)
  obtain s'' l' where "perform L a s = Some (s'', l')" "effect L (length starts) capacity s l' s''"
    by (rule reach_step [OF assms(2) action.hyps(1,2)])
  with action indices_ok_step show ?case by fastforce
qed (simp add: indices_ok_def)

text \<open>
  The alert store holds exactly the newest 5000 alerts in the order in which they were
  stored, so never more than 5000; and of each worker every alert raised is stored exactly
  once and in order, except for those still pending with the worker.
\<close>

theorem alert_store_keeps_the_newest:
  assumes "config_ok L capacity starts" and "reach L capacity starts s trace"
  shows "alerts (app s) = drop (length (stored trace) - 5000) (map snd (stored trace)) \<and>
    length (alerts (app s)) = min 5000 (length (stored trace)) \<and>
    (\<forall>i < length starts. raised_by i trace = stored_by i trace @ pending (workers s ! i))"
proof -
  have "alerts_inv (length starts) s trace" using reach_inv [OF assms(2,1)] by (simp add: run_inv_def)
  then show ?thesis by (auto simp: alerts_inv_def alert_history_cap_def)
qed

text \<open>
  The counters tell the truth modulo 2^64. In every reachable state events_processed
  counts the handled events, events_dropped the dropped ones and alerts_fired the stored
  alerts plus those of workers between counter and store; and the accepted events are the
  handled ones plus those waiting in the queues.
\<close>

theorem counters_tally:
  assumes "config_ok L capacity starts" and "reach L capacity starts s trace"
  shows "events_processed (app s) = of_nat (length (handled trace)) \<and>
    events_dropped (app s) = of_nat (length (dropped trace)) \<and>
    alerts_fired (app s) = of_nat (length (stored trace) + card {i. i < length starts \<and> counted (workers s ! i)}) \<and>
    length (accepted trace) = length (handled trace) + (\<Sum>i < length starts. length (queue_list (queues (app s) ! i)))"
proof -
  let ?n = "length starts"
  have inv: "run_inv L capacity starts s trace" by (rule reach_inv [OF assms(2,1)])
  then have c: "counters_inv ?n s trace" by (simp add: run_inv_def)
  have ix: "indices_ok ?n trace" by (rule reach_indices [OF assms(2,1)])
  have "length (counts trace) = (\<Sum>i < ?n. count_list (counts trace) i)"
    using length_by_index [of "counts trace" "\<lambda>x. x" ?n] ix
    by (simp add: indices_ok_def count_list_eq_length_filter eq_commute)
  also have "\<dots> = (\<Sum>i < ?n. length (stored_by i trace) + (if counted (workers s ! i) then 1 else 0))"
    by (rule sum.cong) (use c in \<open>simp_all add: counters_inv_def\<close>)
  also have "\<dots> = (\<Sum>i < ?n. length (stored_by i trace)) + card {i. i < ?n \<and> counted (workers s ! i)}"
  proof -
    have "{i. i < ?n \<and> counted (workers s ! i)} = {..<?n} \<inter> {i. counted (workers s ! i)}" by auto
    then show ?thesis by (simp add: sum.distrib sum.If_cases)
  qed
  also have "(\<Sum>i < ?n. length (stored_by i trace)) = length (stored trace)"
    using length_by_index [of "stored trace" fst ?n] ix by (simp add: indices_ok_def stored_by_def split_def)
  finally have fired: "length (counts trace) = length (stored trace) + card {i. i < ?n \<and> counted (workers s ! i)}" .
  have "0 < ?n" using assms(1) by (simp add: config_ok_def)
  then have "length (accepted trace) = (\<Sum>i < ?n. length (filter (\<lambda>e. shard_of ?n e = i) (accepted trace)))"
    using length_by_index [of "accepted trace" "shard_of ?n" ?n] by (simp add: shard_of_def)
  also have "\<dots> = (\<Sum>i < ?n. length (inputs_of i trace) + length (queue_list (queues (app s) ! i)))"
    by (rule sum.cong) (use inv in \<open>simp_all add: run_inv_def queues_inv_def contents_def sys_ok_def\<close>)
  also have "\<dots> = (\<Sum>i < ?n. length (inputs_of i trace)) + (\<Sum>i < ?n. length (queue_list (queues (app s) ! i)))"
    by (rule sum.distrib)
  also have "(\<Sum>i < ?n. length (inputs_of i trace)) = length (handled trace)"
    using length_by_index [of "handled trace" fst ?n] ix by (simp add: indices_ok_def inputs_of_def split_def)
  finally show ?thesis using c fired by (simp add: counters_inv_def)
qed

subsection \<open>Attacks are reported\<close>

text \<open>
  C17: End to end, a flood is reported. If a worker handles 99 SYN packets of one source within
  less than five seconds of its clock, in any interleaving and among any other traffic, a SYN
  flood alert naming that source is stored or about to be stored.
\<close>

theorem flood_of_a_source_is_reported:
  assumes "config_ok L capacity starts" and "reach L capacity starts s trace" and "i < length starts"
    and "inputs_of i trace = pre @ burst @ post"
    and "\<forall>x \<in> set burst. T \<le> fst (fst (fst x)) \<and> fst (fst (fst x)) \<le> snd (fst (fst x)) \<and> fst (fst (fst x)) < T + 5000000000"
    and "99 \<le> length (filter (\<lambda>x. is_syn (snd x) \<and> src_ip (snd x) = ip) burst)"
  shows "\<exists>a \<in> set (stored_by i trace @ pending (workers s ! i)). rule_name a = ''syn-flood-anomaly'' \<and> alert_src_ip a = ip_to_string ip"
proof -
  let ?in = "map (\<lambda>(t, e). (fst t, e :: NetworkEvent))"
  obtain d0 als where als: "als = stored_by i trace @ pending (workers s ! i)"
    and run: "observe_all (lib_fx L) (lib_ln L) (?in (inputs_of i trace)) (anomaly_new (starts ! i) 5000000000) =
      Some (anomaly (workers s ! i), filter (\<lambda>a. detector a = Anomaly) als)"
    by (rule worker_runs [OF assms(1-3)])
  have ln: "ln_accurate (lib_ln L)" using assms(1) by (simp add: config_ok_def libs_ok_def)
  have "?in (inputs_of i trace) = ?in pre @ ?in burst @ ?in post" by (simp add: assms(4))
  from run [unfolded this] obtain d1 als1 als23 where 1: "observe_all (lib_fx L) (lib_ln L) (?in pre) (anomaly_new (starts ! i) 5000000000) = Some (d1, als1)"
    and 23: "observe_all (lib_fx L) (lib_ln L) (?in burst @ ?in post) d1 = Some (anomaly (workers s ! i), als23)"
    and f: "filter (\<lambda>a. detector a = Anomaly) als = als1 @ als23"
    by (rule detector_run_splitE)
  from 23 obtain d2 als2 als3 where 2: "observe_all (lib_fx L) (lib_ln L) (?in burst) d1 = Some (d2, als2)" and f2: "als23 = als2 @ als3"
    by (rule detector_run_splitE)
  obtain hist alsw where i1: "window_inv (lib_fx L) hist alsw d1" and sub: "set alsw \<subseteq> set als1" and w: "window d1 = 5000000000"
    using run_window_inv [OF window_inv_new ln 1] by (auto simp: anomaly_new_def)
  have "ip_to_string ip \<in> set (named_by ''syn-flood-anomaly'' (als1 @ als2))"
  proof (cases "ip \<in> alerted_flood_this_window d1")
    case True
    then have "ip_to_string ip \<in> set (named_by ''syn-flood-anomaly'' alsw)" using i1 by (simp add: window_inv_def flood_inv_def)
    with sub have "ip_to_string ip \<in> set (named_by ''syn-flood-anomaly'' als1)" by (fastforce simp: named_by_def)
    then show ?thesis by simp
  next
    case False
    have "99 \<le> syn_count ip (map snd (?in burst))"
      using assms(6) by (simp add: syn_count_def filter_map comp_def split_def)
    moreover have "\<forall>ob \<in> set (?in burst). T \<le> fst (fst ob) \<and> fst (fst ob) \<le> snd (fst ob) \<and> fst (fst ob) < T + window d1"
      using assms(5) by (auto simp: w)
    ultimately obtain d' als' where "observe_all (lib_fx L) (lib_ln L) (?in burst) d1 = Some (d', als')"
      and "ip_to_string ip \<in> set (named_by ''syn-flood-anomaly'' als')"
      using flood_in_interval [OF i1 ln, of "?in burst" T ip] w False by auto
    with 2 show ?thesis by simp
  qed
  then obtain a where "a \<in> set (filter (\<lambda>a. detector a = Anomaly) als)" and "rule_name a = ''syn-flood-anomaly'' \<and> alert_src_ip a = ip_to_string ip"
    unfolding named_by_def f f2 by fastforce
  with als show ?thesis by auto
qed

lemma probe_exploit_reported:
  assumes "config_ok L capacity starts" and "reach L capacity starts s trace" and "i < length starts"
    and "inputs_of i trace = pre @ (t0, e0) # mid @ (t1, e1) # post"
    and "is_syn e0" and "sublist (bytes_of ''passwd'') (payload_sample e1)" and "src_ip e1 = src_ip e0"
    and "snd t1 - snd t0 \<le> 5000000000"
    and "\<forall>(t, e) \<in> set mid. src_ip e = src_ip e0 \<longrightarrow> \<not> sublist (bytes_of ''passwd'') (payload_sample e) \<and> snd t - snd t0 \<le> 5000000000"
  shows "\<exists>a \<in> set (stored_by i trace @ pending (workers s ! i)).
    rule_name a = ''probe-then-exploit-attempt'' \<and> describes Cep e1 a"
proof -
  let ?in = "map (\<lambda>(t, e). (snd t, e :: NetworkEvent))"
  obtain d0 als where als: "als = stored_by i trace @ pending (workers s ! i)"
    and run: "cep_run (?in (inputs_of i trace)) cep_with_default_rules = Some (cep (workers s ! i), filter (\<lambda>a. detector a = Cep) als)"
    by (rule worker_runs [OF assms(1-3)])
  have "\<exists>eng als eng' a. cep_run (?in pre @ (snd t0, e0) # ?in mid) cep_with_default_rules = Some (eng, als) \<and>
    process (fst (snd t1, e1)) (snd (snd t1, e1)) eng = Some (eng', [a]) \<and>
    rule_name a = ''probe-then-exploit-attempt'' \<and> describes Cep (snd (snd t1, e1)) a"
    by (rule probe_then_exploit) (use assms(5-9) in auto)
  then obtain eng als1 eng' a where 1: "cep_run (?in pre @ (snd t0, e0) # ?in mid) cep_with_default_rules = Some (eng, als1)"
    and 2: "process (snd t1) e1 eng = Some (eng', [a])" and a: "rule_name a = ''probe-then-exploit-attempt''" "describes Cep e1 a"
    by auto
  have split: "?in (inputs_of i trace) = (?in pre @ (snd t0, e0) # ?in mid) @ (snd t1, e1) # ?in post" by (simp add: assms(4))
  obtain eng0 als0 als23 where "cep_run (?in pre @ (snd t0, e0) # ?in mid) cep_with_default_rules = Some (eng0, als0)"
    and "cep_run ((snd t1, e1) # ?in post) eng0 = Some (cep (workers s ! i), als23)"
    and "filter (\<lambda>a. detector a = Cep) als = als0 @ als23"
    by (rule detector_run_splitE [OF run [unfolded split]])
  with 1 have f: "filter (\<lambda>a. detector a = Cep) als = als1 @ als23"
    and "cep_run ((snd t1, e1) # ?in post) eng = Some (cep (workers s ! i), als23)" by simp_all
  then have "a \<in> set als23" by (auto simp: 2 split: bind_splits)
  then have "a \<in> set (filter (\<lambda>a. detector a = Cep) als)" by (simp add: f)
  then have "a \<in> set als" by simp
  with a als show ?thesis by blast
qed

text \<open>
  C18: End to end, a probe followed by an exploit is reported. If a worker handles a SYN of a
  source and, within five seconds, the first later packet of that source whose payload
  contains "passwd", then in every interleaving an alert of the rule probe-then-exploit-
  attempt that describes this packet is stored or about to be stored.
\<close>

theorem probe_then_exploit_is_reported:
  assumes "config_ok L capacity starts" and "reach L capacity starts s trace" and "i < length starts"
    and "inputs_of i trace = pre @ (t0, e0) # mid @ (t1, e1) # post"
    and "is_syn e0" and "sublist (bytes_of ''passwd'') (payload_sample e1)" and "src_ip e1 = src_ip e0"
    and "snd t1 - snd t0 \<le> 5000000000"
    and "\<forall>(t, e) \<in> set mid. src_ip e = src_ip e0 \<longrightarrow> \<not> sublist (bytes_of ''passwd'') (payload_sample e) \<and> snd t - snd t0 \<le> 5000000000"
  shows "\<exists>a \<in> set (stored_by i trace @ pending (workers s ! i)).
    rule_name a = ''probe-then-exploit-attempt'' \<and> describes Cep e1 a"
  using assms by (rule probe_exploit_reported)

subsection \<open>Witnesses\<close>

text \<open>One worker, a queue of two slots, and the library implementations of the components' witnesses.\<close>

definition example_libs :: "bytes list Libs" where
  "example_libs = \<lparr>lib_build = naive_build, lib_search = naive_search, lib_fx = top_byte_hasher, lib_ln = ln_rounded\<rparr>"

lemma example_config: "config_ok example_libs 2 [0]"
  by (simp add: config_ok_def libs_ok_def example_libs_def naive_overlapping ln_rounded_accurate is_power_of_two_2)

lemma example_accept:
  assumes r: "reach example_libs 2 [0] s trace" and c: "length (contents s ! 0) < 2"
  obtains s' where "reach example_libs 2 [0] s' (trace @ [Accepted e])" and "contents s' ! 0 = contents s ! 0 @ [e]"
    and "queue_list (queues (app s') ! 0) = contents s ! 0 @ [e]"
proof -
  have i: "shard_of (length [0 :: instant]) e = 0" by (simp add: shard_of_def)
  then have room: "length (contents s ! shard_of (length [0 :: instant]) e) < unat (2 :: usize)" using c by simp
  obtain s' where r': "reach example_libs 2 [0] s' (trace @ [Accepted e])"
    and c': "contents s' = (contents s)[shard_of (length [0 :: instant]) e := contents s ! shard_of (length [0 :: instant]) e @ [e]]"
    by (rule reach_accept [OF example_config r room])
  have "contents s' ! 0 = contents s ! 0 @ [e]" using c' i reach_contents [OF example_config r] by simp
  moreover from this have "queue_list (queues (app s') ! 0) = contents s ! 0 @ [e]"
    using reach_contents [OF example_config r'] by (simp add: contents_def)
  ultimately show ?thesis using r' by (intro that)
qed

abbreviation example_inputs :: "(clocks \<times> NetworkEvent) list" where
  "example_inputs \<equiv> [(((1, 1), 1), probe 42), (((2, 2), 2), exploit 7), (((3, 3), 4), exploit 42)]"

theorem pipeline_never_panics_witness:
  "\<exists>s s' l. reach example_libs 2 [0] s [] \<and> perform example_libs (Produce (probe 42)) s = Some (s', l) \<and>
    reach example_libs 2 [0] s' [l]"
proof -
  note safe = pipeline_never_panics [OF example_config]
  obtain s where s: "reach example_libs 2 [0] s []" using safe by blast
  moreover have "enabled (Produce (probe 42)) s" by simp
  ultimately obtain s' l where "perform example_libs (Produce (probe 42)) s = Some (s', l)" "reach example_libs 2 [0] s' ([] @ [l])"
    using safe by blast
  with s show ?thesis by auto
qed

theorem actions_preserve_well_formedness_witness:
  "\<exists>s s' l. reach example_libs 2 [0] s [] \<and> perform example_libs (Work 0 ((1, 1), 1)) s = Some (s', l) \<and>
    sys_ok example_libs 1 2 s' \<and> effect example_libs 1 2 s l s'"
proof -
  obtain s where s: "system_new example_libs 2 [0] = Some s" "run_inv example_libs 2 [0] s []"
    by (rule start_inv [OF example_config])
  then have ok: "sys_ok example_libs 1 2 s" and "pending (workers s ! 0) = []"
    by (simp_all add: run_inv_def alerts_inv_def)
  then have "enabled (Work 0 ((1, 1), 1)) s" by (simp add: sys_ok_def)
  from actions_preserve_well_formedness [OF ok _ this] reach.start [OF s(1)] show ?thesis
    by (simp del: perform.simps) blast
qed

theorem shards_in_order_without_loss_witness:
  "\<exists>s trace. reach example_libs 2 [0] s trace \<and> accepted trace = map snd example_inputs \<and>
    filter (\<lambda>e. unat (shard_key e) mod length [0 :: instant] = 0) (accepted trace) =
      map snd (inputs_of 0 trace) @ queue_list (queues (app s) ! 0) \<and> length (queue_list (queues (app s) ! 0)) \<le> unat (2 :: usize)"
proof -
  obtain s trace where r: "reach example_libs 2 [0] s trace" "accepted trace = map snd example_inputs"
    using reach_feeds [OF example_config, of example_inputs] by blast
  show ?thesis by (intro exI conjI) (rule r shards_in_order_without_loss [OF example_config r(1), of 0, THEN conjunct1]
    shards_in_order_without_loss [OF example_config r(1), of 0, THEN conjunct2] | simp)+
qed

theorem one_worker_sees_a_source_in_order_witness:
  "\<exists>s trace. reach example_libs 2 [0] s trace \<and> inputs_of 0 trace = example_inputs \<and>
    (\<exists>i < 1. prefix (filter (\<lambda>e. src_ip e = 42) (map snd (inputs_of i trace))) (filter (\<lambda>e. src_ip e = 42) (accepted trace)))"
proof -
  obtain s trace where r: "reach example_libs 2 [0] s trace" "inputs_of 0 trace = example_inputs"
    using reach_feeds [OF example_config, of example_inputs] by blast
  have "\<exists>i < 1. prefix (filter (\<lambda>e. src_ip e = 42) (map snd (inputs_of i trace))) (filter (\<lambda>e. src_ip e = 42) (accepted trace))"
    using one_worker_sees_a_source_in_order [OF example_config r(1), of 42] by auto
  with r show ?thesis by blast
qed

theorem worker_catches_up_witness:
  "\<exists>s trace s' ext. reach example_libs 2 [0] s trace \<and> queue_list (queues (app s) ! 0) = [probe 42] \<and>
    reach example_libs 2 [0] s' (trace @ ext) \<and> inputs_of 0 (trace @ ext) = [(((5, 5), 5), probe 42)] \<and>
    queue_list (queues (app s') ! 0) = [] \<and> stored_by 0 (trace @ ext) = raised_by 0 (trace @ ext)"
proof -
  obtain s0 tr where r0: "reach example_libs 2 [0] s0 tr" and i0: "inputs_of 0 tr = []" and c0: "contents s0 ! 0 = []"
    using reach_feeds [OF example_config, of "[]"] by auto
  obtain s where r: "reach example_libs 2 [0] s (tr @ [Accepted (probe 42)])" and c: "contents s ! 0 = [probe 42]"
    and q: "queue_list (queues (app s) ! 0) = [probe 42]"
    by (rule example_accept [OF r0]) (use c0 in simp_all)
  have i: "inputs_of 0 (tr @ [Accepted (probe 42)]) = []" by (simp add: i0)
  have "length [((5, 5), 5) :: clocks] = length (queue_list (queues (app s) ! 0))" by (simp add: q)
  from worker_catches_up [OF example_config r _ this] obtain s' ext where
    "reach example_libs 2 [0] s' ((tr @ [Accepted (probe 42)]) @ ext)" "queue_list (queues (app s') ! 0) = []"
    "inputs_of 0 ((tr @ [Accepted (probe 42)]) @ ext) =
      inputs_of 0 (tr @ [Accepted (probe 42)]) @ zip [((5, 5), 5)] (queue_list (queues (app s) ! 0))"
    "stored_by 0 ((tr @ [Accepted (probe 42)]) @ ext) = raised_by 0 ((tr @ [Accepted (probe 42)]) @ ext)" by auto
  moreover from this have "inputs_of 0 ((tr @ [Accepted (probe 42)]) @ ext) = [(((5, 5), 5), probe 42)]"
    by (simp only: i q) simp
  ultimately show ?thesis using r q by blast
qed

theorem dropped_iff_own_shard_full_witness:
  "\<exists>s trace s'. reach example_libs 2 [0] s trace \<and> length (queue_list (queues (app s) ! 0)) = 2 \<and>
    perform example_libs (Produce (probe 9)) s = Some (s', Dropped (probe 9)) \<and>
    events_dropped (app s') = events_dropped (app s) + 1"
proof -
  obtain s0 tr where r0: "reach example_libs 2 [0] s0 tr" and c0: "contents s0 ! 0 = []"
    using reach_feeds [OF example_config, of "[]"] by auto
  obtain s1 where r1: "reach example_libs 2 [0] s1 (tr @ [Accepted (probe 1)])" and c1: "contents s1 ! 0 = [probe 1]"
    and q: "queue_list (queues (app s1) ! 0) = [probe 1]"
    by (rule example_accept [OF r0]) (use c0 in simp_all)
  obtain s2 where r2: "reach example_libs 2 [0] s2 ((tr @ [Accepted (probe 1)]) @ [Accepted (probe 2)])"
    and q2: "queue_list (queues (app s2) ! 0) = [probe 1, probe 2]"
    by (rule example_accept [OF r1]) (use c1 in simp_all)
  then have l: "length (queue_list (queues (app s2) ! 0)) = 2" by simp
  have "\<exists>s'. perform example_libs (Produce (probe 9)) s2 = Some (s', Dropped (probe 9)) \<and>
      events_dropped (app s') = events_dropped (app s2) + 1"
    using dropped_iff_own_shard_full [OF example_config r2, of "probe 9"] l by (simp del: perform.simps)
  with r2 l show ?thesis by blast
qed

theorem four_workers_see_two_bits_per_octet_witness:
  "shard_of worker_count_default (probe 0x0A000001) = shard_of worker_count_default (probe 0x0E040805)"
  by (rule four_workers_see_two_bits_per_octet) simp

theorem worker_is_three_sequential_detectors_witness:
  "\<exists>s trace an als. reach example_libs 2 [0] s trace \<and> inputs_of 0 trace = example_inputs \<and>
    als = stored_by 0 trace @ pending (workers s ! 0) \<and>
    detector_run (\<lambda>(clock, e). observe top_byte_hasher ln_rounded clock e) (map (\<lambda>(t, e). (fst t, e)) example_inputs)
      (anomaly_new 0 5000000000) = Some (an, filter (\<lambda>a. detector a = Anomaly) als)"
proof -
  obtain s trace where r: "reach example_libs 2 [0] s trace" "inputs_of 0 trace = example_inputs"
    using reach_feeds [OF example_config, of example_inputs] by blast
  have "0 < length [0 :: instant]" by simp
  from worker_is_three_sequential_detectors [OF example_config r(1) this] obtain an als where
    "als = stored_by 0 trace @ pending (workers s ! 0)"
    and "detector_run (\<lambda>(clock, e). observe (lib_fx example_libs) (lib_ln example_libs) clock e)
      (map (\<lambda>(t, e). (fst t, e)) (inputs_of 0 trace)) (anomaly_new ([0] ! 0) 5000000000) = Some (an, filter (\<lambda>a. detector a = Anomaly) als)"
    by blast
  moreover have "lib_fx example_libs = top_byte_hasher" "lib_ln example_libs = ln_rounded" by (simp_all add: example_libs_def)
  ultimately show ?thesis using r by (intro exI [of _ s] exI [of _ trace] exI [of _ an] exI [of _ als]) (simp only: nth_Cons_0)
qed

theorem alert_store_keeps_the_newest_witness:
  "\<exists>s trace. reach example_libs 2 [0] s trace \<and> inputs_of 0 trace = example_inputs \<and>
    alerts (app s) = drop (length (stored trace) - 5000) (map snd (stored trace))"
  using reach_feeds [OF example_config, of example_inputs] alert_store_keeps_the_newest [OF example_config] by blast

theorem counters_tally_witness:
  "\<exists>s trace. reach example_libs 2 [0] s trace \<and> inputs_of 0 trace = example_inputs \<and>
    events_processed (app s) = of_nat (length (handled trace)) \<and> events_dropped (app s) = of_nat (length (dropped trace))"
  using reach_feeds [OF example_config, of example_inputs] counters_tally [OF example_config] by blast

theorem flood_of_a_source_is_reported_witness:
  "\<exists>s trace a. reach example_libs 2 [0] s trace \<and> a \<in> set (stored_by 0 trace @ pending (workers s ! 0)) \<and>
    rule_name a = ''syn-flood-anomaly'' \<and> alert_src_ip a = ip_to_string 0x0A000001"
proof -
  let ?burst = "replicate 99 (((4000000000, 4000000000), 4000000000), syn_packet 80) :: (clocks \<times> NetworkEvent) list"
  obtain s trace where r: "reach example_libs 2 [0] s trace" and i: "inputs_of 0 trace = ?burst"
    using reach_feeds [OF example_config, of ?burst] by blast
  have "\<exists>a \<in> set (stored_by 0 trace @ pending (workers s ! 0)). rule_name a = ''syn-flood-anomaly'' \<and>
      alert_src_ip a = ip_to_string 0x0A000001"
    by (rule flood_of_a_source_is_reported [OF example_config r, of 0 "[]" ?burst "[]" 4000000000])
      (simp_all add: i filter_replicate)
  with r show ?thesis by blast
qed

theorem probe_then_exploit_is_reported_witness:
  "\<exists>s trace a. reach example_libs 2 [0] s trace \<and> a \<in> set (stored_by 0 trace @ pending (workers s ! 0)) \<and>
    rule_name a = ''probe-then-exploit-attempt'' \<and> describes Cep (exploit 42) a"
proof -
  obtain s trace where r: "reach example_libs 2 [0] s trace" and i: "inputs_of 0 trace = example_inputs"
    using reach_feeds [OF example_config, of example_inputs] by blast
  have "\<exists>a \<in> set (stored_by 0 trace @ pending (workers s ! 0)). rule_name a = ''probe-then-exploit-attempt'' \<and>
      describes Cep (exploit 42) a"
    by (rule probe_then_exploit_is_reported [OF example_config r, of 0 "[]" "((1, 1), 1)" "probe 42" "[(((2, 2), 2), exploit 7)]"
          "((3, 3), 4)" "exploit 42" "[]"]) (simp_all add: i sublist_code)
  with r show ?thesis by blast
qed

end
