(* ===== verification/Ingestion.thy ===== *)
theory Ingestion
  imports Models
begin

unbundle bit_operations_syntax

section \<open>Ingestion\<close>

text \<open>
  \<^verbatim>\<open>engine/src/ingestion.rs\<close>: the traffic simulator that stands in for packet capture. The random
  generator of crate \<^verbatim>\<open>rand\<close> and the system clock are parameters over an opaque state \<open>'w\<close>: \<open>gen_range lo hi\<close>
  is \<^verbatim>\<open>rng.gen_range(lo..hi)\<close> and \<open>system_time\<close> the nanoseconds since the Unix epoch, negative before it.
  \<open>None\<close> is a panic: an empty range, a clock before the epoch, an index out of range.
\<close>

record 'w Env =
  gen_range :: "nat \<Rightarrow> nat \<Rightarrow> 'w \<Rightarrow> nat \<times> 'w"
  system_time :: "'w \<Rightarrow> int \<times> 'w"

definition draw :: "'w Env \<Rightarrow> nat \<Rightarrow> nat \<Rightarrow> 'w \<Rightarrow> (nat \<times> 'w) option" where
  "draw E lo hi w = (if lo < hi then Some (gen_range E lo hi w) else None)"

definition now_ms :: "'w Env \<Rightarrow> 'w \<Rightarrow> (i64 \<times> 'w) option" where
  "now_ms E w = (let (t, w') = system_time E w in if t < 0 then None else Some (word_of_int (t div 1000000), w'))"

record 'w Simulator =
  rng :: 'w
  tick :: u64

definition simulator_new :: "'w \<Rightarrow> 'w Simulator" where
  "simulator_new w = \<lparr>rng = w, tick = 0\<rparr>"

definition simulator_default :: "'w \<Rightarrow> 'w Simulator" where
  "simulator_default w = simulator_new w"

definition benign_event :: "'w Env \<Rightarrow> 'w \<Rightarrow> (NetworkEvent \<times> 'w) option" where
  "benign_event E w = do {
     (t, w) \<leftarrow> now_ms E w;
     (src, w) \<leftarrow> draw E 0 4294967295 w;
     (port, w) \<leftarrow> draw E 1024 65535 w;
     (k, w) \<leftarrow> draw E 0 4 w;
     dst \<leftarrow> nth_opt [80, 443, 22, 53] k;
     Some (\<lparr>timestamp_ms = t, src_ip = of_nat src, dst_ip = 0xC0A80101, src_port = of_nat port, dst_port = dst,
            protocol = Tcp, flags = 3, payload_sample = bytes_of ''GET /index.html HTTP/1.1''\<rparr>, w)
   }"

text \<open>\<^verbatim>\<open>for x in xs { events.push(..) }\<close>\<close>

fun push_each :: "('x \<Rightarrow> 'w \<Rightarrow> (NetworkEvent \<times> 'w) option) \<Rightarrow> 'x list \<Rightarrow> 'w \<Rightarrow> (NetworkEvent list \<times> 'w) option" where
  "push_each f [] w = Some ([], w)"
| "push_each f (x # xs) w = do { (e, w) \<leftarrow> f x w; (es, w) \<leftarrow> push_each f xs w; Some (e # es, w) }"

text \<open>The struct literal that the flood, the probe and the port scan share.\<close>

definition syn_event :: "'w Env \<Rightarrow> u32 \<Rightarrow> u16 \<Rightarrow> 'w \<Rightarrow> (NetworkEvent \<times> 'w) option" where
  "syn_event E ip dst w = do {
     (t, w) \<leftarrow> now_ms E w;
     (port, w) \<leftarrow> draw E 1024 65535 w;
     Some (\<lparr>timestamp_ms = t, src_ip = ip, dst_ip = 0xC0A80101, src_port = of_nat port, dst_port = dst,
            protocol = Tcp, flags = 1, payload_sample = []\<rparr>, w)
   }"

definition attacker :: "'w Env \<Rightarrow> 'w \<Rightarrow> (u32 \<times> 'w) option" where
  "attacker E w = do { (k, w) \<leftarrow> draw E 0 255 w; Some (of_nat k OR 0x0A000000, w) }"

definition inject_flood :: "'w Env \<Rightarrow> 'w \<Rightarrow> (NetworkEvent list \<times> 'w) option" where
  "inject_flood E w = do { (ip, w) \<leftarrow> attacker E w; push_each (\<lambda>_. syn_event E ip 80) [0..<80] w }"

definition inject_payload :: "'w Env \<Rightarrow> 'w \<Rightarrow> (NetworkEvent list \<times> 'w) option" where
  "inject_payload E w = do {
     (e, w) \<leftarrow> benign_event E w;
     Some ([e\<lparr>payload_sample := bytes_of ''GET /../../etc/passwd HTTP/1.1''\<rparr>], w)
   }"

definition inject_probe_exploit :: "'w Env \<Rightarrow> 'w \<Rightarrow> (NetworkEvent list \<times> 'w) option" where
  "inject_probe_exploit E w = do {
     (ip, w) \<leftarrow> attacker E w;
     (e0, w) \<leftarrow> syn_event E ip 80 w;
     (t, w) \<leftarrow> now_ms E w;
     (port, w) \<leftarrow> draw E 1024 65535 w;
     Some ([e0, \<lparr>timestamp_ms = t, src_ip = ip, dst_ip = 0xC0A80101, src_port = of_nat port, dst_port = 80,
            protocol = Tcp, flags = 3, payload_sample = bytes_of ''GET /../../etc/passwd HTTP/1.1''\<rparr>], w)
   }"

definition inject_scan :: "'w Env \<Rightarrow> 'w \<Rightarrow> (NetworkEvent list \<times> 'w) option" where
  "inject_scan E w = do {
     (ip, w) \<leftarrow> attacker E w;
     push_each (syn_event E ip) (map (\<lambda>i. 1000 + of_nat i * 7) [1..<40]) w
   }"

definition every :: "u64 \<Rightarrow> u64 \<Rightarrow> ('w \<Rightarrow> (NetworkEvent list \<times> 'w) option) \<Rightarrow> 'w \<Rightarrow> (NetworkEvent list \<times> 'w) option" where
  "every n t act w = (if t mod n = 0 then act w else Some ([], w))"

definition next_batch :: "'w Env \<Rightarrow> 'w Simulator \<Rightarrow> (NetworkEvent list \<times> 'w Simulator) option" where
  "next_batch E sim = do {
     let t = tick sim + 1;
     (normal_count, w) \<leftarrow> draw E 20 60 (rng sim);
     (benign, w) \<leftarrow> push_each (\<lambda>_. benign_event E) [0..<normal_count] w;
     (flood, w) \<leftarrow> every 500 t (inject_flood E) w;
     (payload, w) \<leftarrow> every 733 t (inject_payload E) w;
     (sequence, w) \<leftarrow> every 900 t (inject_probe_exploit E) w;
     (scan, w) \<leftarrow> every 611 t (inject_scan E) w;
     Some (benign @ flood @ payload @ sequence @ scan, \<lparr>rng = w, tick = t\<rparr>)
   }"

subsection \<open>What a batch holds\<close>

text \<open>The documented behaviour of \<^verbatim>\<open>gen_range\<close>, and a clock after 1970.\<close>

definition env_ok :: "'w Env \<Rightarrow> bool" where
  "env_ok E \<longleftrightarrow> (\<forall>lo hi w. lo < hi \<longrightarrow> lo \<le> fst (gen_range E lo hi w) \<and> fst (gen_range E lo hi w) < hi) \<and>
     (\<forall>w. 0 \<le> fst (system_time E w))"

definition benign :: "NetworkEvent \<Rightarrow> bool" where
  "benign e \<longleftrightarrow> flags e = 3 \<and> dst_port e \<in> {80, 443, 22, 53} \<and> payload_sample e = bytes_of ''GET /index.html HTTP/1.1''"

definition syn_from :: "u32 \<Rightarrow> u16 \<Rightarrow> NetworkEvent \<Rightarrow> bool" where
  "syn_from ip port e \<longleftrightarrow> is_syn e \<and> src_ip e = ip \<and> dst_port e = port \<and> payload_sample e = []"

definition local_source :: "u32 \<Rightarrow> bool" where
  "local_source ip \<longleftrightarrow> 0x0A000000 \<le> ip \<and> ip < 0x0A0000FF"

lemma draw_ok:
  assumes "env_ok E" and "lo < hi"
  obtains k w' where "draw E lo hi w = Some (k, w')" and "lo \<le> k" and "k < hi"
  using assms by (cases "gen_range E lo hi w") (auto simp: draw_def env_ok_def, metis fst_conv)

lemma now_ms_ok:
  assumes "env_ok E"
  obtains t w' where "now_ms E w = Some (t, w')"
proof (cases "system_time E w")
  case (Pair t w')
  then have "\<not> t < 0" using assms unfolding env_ok_def by (metis fst_conv not_less)
  then show ?thesis using that by (simp add: now_ms_def Pair)
qed

lemma benign_event_ok:
  assumes "env_ok E"
  shows "\<exists>e w'. benign_event E w = Some (e, w') \<and> benign e"
proof -
  obtain t w1 where 1: "now_ms E w = Some (t, w1)" by (rule now_ms_ok [OF assms])
  obtain src w2 where 2: "draw E 0 4294967295 w1 = Some (src, w2)" by (rule draw_ok [OF assms, of 0 4294967295]) simp_all
  obtain port w3 where 3: "draw E 1024 65535 w2 = Some (port, w3)" by (rule draw_ok [OF assms, of 1024 65535]) simp_all
  obtain k w4 where 4: "draw E 0 4 w3 = Some (k, w4)" and k: "k < 4" by (rule draw_ok [OF assms, of 0 4]) simp_all
  have "nth_opt [80, 443, 22, 53 :: u16] k = Some ([80, 443, 22, 53] ! k)" using k by (simp add: nth_opt_def)
  moreover have "[80, 443, 22, 53 :: u16] ! k \<in> set [80, 443, 22, 53]" using k by (intro nth_mem) simp
  ultimately show ?thesis by (simp add: benign_event_def 1 2 3 4 benign_def)
qed

lemma push_each_ok:
  assumes "\<And>x w. x \<in> set xs \<Longrightarrow> \<exists>e w'. f x w = Some (e, w') \<and> P x e"
  shows "\<exists>es w'. push_each f xs w = Some (es, w') \<and> list_all2 P xs es"
  using assms
proof (induction xs arbitrary: w)
  case (Cons x xs)
  obtain e w1 where 1: "f x w = Some (e, w1)" "P x e" using Cons.prems by fastforce
  obtain es w2 where "push_each f xs w1 = Some (es, w2)" "list_all2 P xs es" using Cons.IH Cons.prems by fastforce
  with 1 show ?case by simp
qed simp

lemma syn_event_ok:
  assumes "env_ok E"
  shows "\<exists>e w'. syn_event E ip dst w = Some (e, w') \<and> syn_from ip dst e"
proof -
  obtain t w1 where 1: "now_ms E w = Some (t, w1)" by (rule now_ms_ok [OF assms])
  obtain port w2 where 2: "draw E 1024 65535 w1 = Some (port, w2)" by (rule draw_ok [OF assms, of 1024 65535]) simp_all
  show ?thesis by (simp add: syn_event_def 1 2 syn_from_def is_syn_def)
qed

lemma local_sources: "list_all (\<lambda>k. local_source (of_nat k OR 0x0A000000)) [0..<255]"
  unfolding local_source_def by code_simp

lemma attacker_ok:
  assumes "env_ok E"
  obtains ip w' where "attacker E w = Some (ip, w')" and "local_source ip"
proof -
  obtain k w1 where 1: "draw E 0 255 w = Some (k, w1)" and k: "k < 255" by (rule draw_ok [OF assms, of 0 255]) simp_all
  then have "local_source (of_nat k OR 0x0A000000)" using local_sources by (simp add: list_all_iff)
  then show ?thesis by (intro that) (simp_all add: attacker_def 1)
qed

lemma inject_flood_ok:
  assumes "env_ok E"
  shows "\<exists>es w'. inject_flood E w = Some (es, w') \<and> length es = 80 \<and>
    (\<exists>ip. local_source ip \<and> (\<forall>e \<in> set es. syn_from ip 80 e))"
proof -
  obtain ip w1 where 1: "attacker E w = Some (ip, w1)" "local_source ip" by (rule attacker_ok [OF assms])
  obtain es w2 where 2: "push_each (\<lambda>_. syn_event E ip 80) [0..<80] w1 = Some (es, w2)"
    and a: "list_all2 (\<lambda>_. syn_from ip 80) [0..<80] es"
    using push_each_ok [of "[0..<80]" "\<lambda>_. syn_event E ip 80" "\<lambda>_. syn_from ip 80" w1] syn_event_ok [OF assms] by blast
  have "length es = 80" using list_all2_lengthD [OF a] by simp
  moreover have "\<forall>e \<in> set es. syn_from ip 80 e" using a by (auto simp: list_all2_conv_all_nth in_set_conv_nth)
  ultimately show ?thesis using 1 2 by (auto simp: inject_flood_def)
qed

lemma inject_payload_ok:
  assumes "env_ok E"
  shows "\<exists>e w'. inject_payload E w = Some ([e], w') \<and> flags e = 3 \<and> payload_sample e = bytes_of ''GET /../../etc/passwd HTTP/1.1''"
  using benign_event_ok [OF assms, of w] by (auto simp: inject_payload_def benign_def)

lemma inject_probe_exploit_ok:
  assumes "env_ok E"
  shows "\<exists>e0 e1 w'. inject_probe_exploit E w = Some ([e0, e1], w') \<and> local_source (src_ip e0) \<and> src_ip e1 = src_ip e0 \<and>
    is_syn e0 \<and> flags e1 = 3 \<and> payload_sample e1 = bytes_of ''GET /../../etc/passwd HTTP/1.1''"
proof -
  obtain ip w1 where 1: "attacker E w = Some (ip, w1)" "local_source ip" by (rule attacker_ok [OF assms])
  obtain e0 w2 where 2: "syn_event E ip 80 w1 = Some (e0, w2)" "syn_from ip 80 e0" using syn_event_ok [OF assms] by blast
  obtain t w3 where 3: "now_ms E w2 = Some (t, w3)" by (rule now_ms_ok [OF assms])
  obtain port w4 where 4: "draw E 1024 65535 w3 = Some (port, w4)" by (rule draw_ok [OF assms, of 1024 65535]) simp_all
  show ?thesis using 1 2 by (simp add: inject_probe_exploit_def 3 4 syn_from_def)
qed

definition scanned_ports :: "u16 list" where
  "scanned_ports = map (\<lambda>i. 1000 + of_nat i * 7) [1..<40]"

lemma scanned_ports: "distinct scanned_ports" "length scanned_ports = 39"
  by (code_simp, simp add: scanned_ports_def)

lemma inject_scan_ok:
  assumes "env_ok E"
  shows "\<exists>es w'. inject_scan E w = Some (es, w') \<and> map dst_port es = scanned_ports \<and>
    (\<exists>ip. local_source ip \<and> (\<forall>e \<in> set es. is_syn e \<and> src_ip e = ip))"
proof -
  obtain ip w1 where 1: "attacker E w = Some (ip, w1)" "local_source ip" by (rule attacker_ok [OF assms])
  obtain es w2 where 2: "push_each (syn_event E ip) scanned_ports w1 = Some (es, w2)" and a: "list_all2 (syn_from ip) scanned_ports es"
    using push_each_ok [of scanned_ports "syn_event E ip" "syn_from ip" w1] syn_event_ok [OF assms] by blast
  have "map dst_port es = scanned_ports" using a by (intro nth_equalityI) (auto simp: list_all2_conv_all_nth syn_from_def)
  moreover have "\<forall>e \<in> set es. is_syn e \<and> src_ip e = ip" using a
    by (auto simp: list_all2_conv_all_nth in_set_conv_nth syn_from_def)
  ultimately show ?thesis using 1 2 by (auto simp: inject_scan_def scanned_ports_def)
qed

lemma every_ok:
  assumes "\<exists>es w'. act w = Some (es, w') \<and> P es"
  shows "\<exists>es w'. every n t act w = Some (es, w') \<and> (if t mod n = 0 then P es else es = [])"
  using assms by (simp add: every_def)

lemma next_batch_parts:
  assumes "env_ok E"
  shows "\<exists>normal flood payload sequence scan sim'.
    next_batch E sim = Some (normal @ flood @ payload @ sequence @ scan, sim') \<and> tick sim' = tick sim + 1 \<and>
    20 \<le> length normal \<and> length normal < 60 \<and> list_all benign normal \<and>
    (if (tick sim + 1) mod 500 = 0 then length flood = 80 \<and> (\<exists>ip. local_source ip \<and> list_all (syn_from ip 80) flood) else flood = []) \<and>
    (if (tick sim + 1) mod 733 = 0 then \<exists>e. payload = [e] \<and> payload_sample e = bytes_of ''GET /../../etc/passwd HTTP/1.1'' else payload = []) \<and>
    (if (tick sim + 1) mod 900 = 0 then \<exists>e0 e1. sequence = [e0, e1] \<and> src_ip e1 = src_ip e0 \<and> is_syn e0 \<and>
       payload_sample e1 = bytes_of ''GET /../../etc/passwd HTTP/1.1'' else sequence = []) \<and>
    (if (tick sim + 1) mod 611 = 0 then length scan = 39 \<and> distinct (map dst_port scan) \<and> (\<exists>ip. list_all (\<lambda>e. is_syn e \<and> src_ip e = ip) scan) else scan = [])"
proof -
  let ?t = "tick sim + 1"
  obtain n w0 where 0: "draw E 20 60 (rng sim) = Some (n, w0)" "20 \<le> n" "n < 60" by (rule draw_ok [OF assms, of 20 60]) simp_all
  obtain normal w1 where 1: "push_each (\<lambda>_. benign_event E) [0..<n] w0 = Some (normal, w1)"
    and "list_all2 (\<lambda>_. benign) [0..<n] normal"
    using push_each_ok [of "[0..<n]" "\<lambda>_. benign_event E" "\<lambda>_. benign" w0] benign_event_ok [OF assms] by blast
  then have n: "length normal = n" "list_all benign normal"
    by (auto simp: list_all2_conv_all_nth list_all_length)
  obtain flood w2 where 2: "every 500 ?t (inject_flood E) w1 = Some (flood, w2)"
    and f: "if ?t mod 500 = 0 then length flood = 80 \<and> (\<exists>ip. local_source ip \<and> (\<forall>e \<in> set flood. syn_from ip 80 e)) else flood = []"
    using every_ok [where act = "inject_flood E" and w = w1 and n = 500 and t = ?t, OF inject_flood_ok [OF assms]] by blast
  obtain payload w3 where 3: "every 733 ?t (inject_payload E) w2 = Some (payload, w3)"
    and p: "if ?t mod 733 = 0 then \<exists>e. payload = [e] \<and> payload_sample e = bytes_of ''GET /../../etc/passwd HTTP/1.1'' else payload = []"
    using every_ok [of "inject_payload E" w2 "\<lambda>es. \<exists>e. es = [e] \<and> payload_sample e = bytes_of ''GET /../../etc/passwd HTTP/1.1''" 733 ?t]
      inject_payload_ok [OF assms, of w2] by metis
  obtain sequence w4 where 4: "every 900 ?t (inject_probe_exploit E) w3 = Some (sequence, w4)"
    and q: "if ?t mod 900 = 0 then \<exists>e0 e1. sequence = [e0, e1] \<and> src_ip e1 = src_ip e0 \<and> is_syn e0 \<and>
       payload_sample e1 = bytes_of ''GET /../../etc/passwd HTTP/1.1'' else sequence = []"
    using every_ok [of "inject_probe_exploit E" w3 "\<lambda>es. \<exists>e0 e1. es = [e0, e1] \<and> src_ip e1 = src_ip e0 \<and> is_syn e0 \<and>
       payload_sample e1 = bytes_of ''GET /../../etc/passwd HTTP/1.1''" 900 ?t] inject_probe_exploit_ok [OF assms, of w3] by metis
  obtain scan w5 where 5: "every 611 ?t (inject_scan E) w4 = Some (scan, w5)"
    and s: "if ?t mod 611 = 0 then map dst_port scan = scanned_ports \<and>
       (\<exists>ip. local_source ip \<and> (\<forall>e \<in> set scan. is_syn e \<and> src_ip e = ip)) else scan = []"
    using every_ok [where act = "inject_scan E" and w = w4 and n = 611 and t = ?t, OF inject_scan_ok [OF assms]] by blast
  have "if ?t mod 611 = 0 then length scan = 39 \<and> distinct (map dst_port scan) \<and> (\<exists>ip. list_all (\<lambda>e. is_syn e \<and> src_ip e = ip) scan) else scan = []"
    using s scanned_ports by (auto simp: list_all_iff split: if_splits) (metis length_map)
  moreover have "if ?t mod 500 = 0 then length flood = 80 \<and> (\<exists>ip. local_source ip \<and> list_all (syn_from ip 80) flood) else flood = []"
    using f by (simp add: list_all_iff)
  moreover have "next_batch E sim = Some (normal @ flood @ payload @ sequence @ scan, \<lparr>rng = w5, tick = ?t\<rparr>)"
    by (simp add: next_batch_def 0(1) 1 2 3 4 5)
  moreover have "tick \<lparr>rng = w5, tick = ?t\<rparr> = ?t" by simp
  moreover have "20 \<le> length normal" "length normal < 60" using 0 n(1) by simp_all
  ultimately show ?thesis using n(2) p q by blast
qed

text \<open>
  Each tick's traffic. For every generator that stays in its range and every clock after
  1970, a call of next_batch does not panic and returns 20 to 59 benign packets, followed at
  every 500th tick by 80 SYNs of one source of 10.0.0.0/24 to port 80, at every 733rd by one
  packet with the known bad payload, at every 900th by a SYN and then a bad payload of the
  same source, and at every 611th by 39 SYNs of one source to distinct ports; at other ticks
  these parts are empty.
\<close>

theorem next_batch_contents:
  assumes "env_ok E"
  shows "\<exists>normal flood payload sequence scan sim'.
    next_batch E sim = Some (normal @ flood @ payload @ sequence @ scan, sim') \<and> tick sim' = tick sim + 1 \<and>
    20 \<le> length normal \<and> length normal < 60 \<and> list_all benign normal \<and>
    (if (tick sim + 1) mod 500 = 0 then length flood = 80 \<and> (\<exists>ip. local_source ip \<and> list_all (syn_from ip 80) flood) else flood = []) \<and>
    (if (tick sim + 1) mod 733 = 0 then \<exists>e. payload = [e] \<and> payload_sample e = bytes_of ''GET /../../etc/passwd HTTP/1.1'' else payload = []) \<and>
    (if (tick sim + 1) mod 900 = 0 then \<exists>e0 e1. sequence = [e0, e1] \<and> src_ip e1 = src_ip e0 \<and> is_syn e0 \<and>
       payload_sample e1 = bytes_of ''GET /../../etc/passwd HTTP/1.1'' else sequence = []) \<and>
    (if (tick sim + 1) mod 611 = 0 then length scan = 39 \<and> distinct (map dst_port scan) \<and> (\<exists>ip. list_all (\<lambda>e. is_syn e \<and> src_ip e = ip) scan) else scan = [])"
  using assms by (rule next_batch_parts)

text \<open>A generator that always draws the lowest value, and a clock that stands still.\<close>

definition example_env :: "unit Env" where
  "example_env = \<lparr>gen_range = (\<lambda>lo hi w. (lo, w)), system_time = (\<lambda>w. (1700000000000000000, w))\<rparr>"

theorem next_batch_contents_witness:
  "\<exists>normal flood payload sequence scan sim'.
    next_batch example_env \<lparr>rng = (), tick = 4499\<rparr> = Some (normal @ flood @ payload @ sequence @ scan, sim') \<and>
    list_all benign normal \<and> length flood = 80 \<and> payload = [] \<and> length sequence = 2 \<and> scan = []"
proof -
  have "env_ok example_env" by (simp add: env_ok_def example_env_def)
  from next_batch_contents [OF this, of "\<lparr>rng = (), tick = 4499\<rparr>"]
  obtain normal flood payload sequence scan sim' where
    "next_batch example_env \<lparr>rng = (), tick = 4499\<rparr> = Some (normal @ flood @ payload @ sequence @ scan, sim')"
    "list_all benign normal" "length flood = 80" "payload = []" "\<exists>e0 e1. sequence = [e0, e1]" "scan = []"
    by auto
  then show ?thesis by fastforce
qed

end
