(* ===== verification/Quiet.thy ===== *)
theory Quiet
  imports Ingestion PipelineProps
begin

section \<open>Benign traffic\<close>

text \<open>
  The simulator's ordinary packets, the packets of \<open>benign_event\<close>, never raise an alert, in any number
  and at any clock readings: each detector stays quiet, so does every worker, in every interleaving.
\<close>

lemma benign_facts:
  assumes "benign e"
  shows "\<not> is_syn e" and "\<not> sublist (bytes_of ''passwd'') (payload_sample e)"
    and "i < 5 \<Longrightarrow> occurrences (map bytes_of default_patterns ! i) (payload_sample e) = 0"
proof -
  have p: "payload_sample e = bytes_of ''GET /index.html HTTP/1.1''" and f: "flags e = 3" using assms by (simp_all add: benign_def)
  show "\<not> is_syn e" by (simp add: is_syn_def f)
  show "\<not> sublist (bytes_of ''passwd'') (payload_sample e)" unfolding p by code_simp
  have "list_all (\<lambda>q. \<not> sublist (bytes_of q) (bytes_of ''GET /index.html HTTP/1.1'')) default_patterns" by code_simp
  moreover assume "i < 5"
  ultimately have "\<not> sublist (map bytes_of default_patterns ! i) (payload_sample e)"
    by (simp add: p list_all_length)
  moreover have "map bytes_of default_patterns ! i \<noteq> []" using default_patterns_nonempty \<open>i < 5\<close> nth_mem [of i "map bytes_of default_patterns"] by simp
  ultimately show "occurrences (map bytes_of default_patterns ! i) (payload_sample e) = 0"
    using occurrences_pos by blast
qed

lemma scan_quiet:
  assumes "sig_ok build search d" and "benign e"
  shows "\<exists>d'. scan search e d = Some (d', []) \<and> sig_ok build search d'"
proof -
  obtain ids als where r: "scan search e d = Some (d\<lparr>sig_next_id := sig_next_id d + of_nat (length als)\<rparr>, als)"
    and n: "map rule_name als = map (\<lambda>i. default_names ! i) ids"
    and c: "\<forall>i < 5. count_list ids i = occurrences (map bytes_of default_patterns ! i) (payload_sample e)"
    and i: "\<forall>i \<in> set ids. i < 5"
    by (rule scan_result [OF assms(1)])
  have "i \<notin> set ids" for i using c i benign_facts(3) [OF assms(2)] by (metis count_list_0_iff)
  then have "ids = []" by (cases ids) auto
  then have "als = []" using n by simp
  with r signature.step_inv [OF assms(1) r] show ?thesis by simp
qed

lemma observe_rule_names:
  assumes "observe fx ln64 clock e d = Some (d', new)" and "a \<in> set new"
  shows "rule_name a = ''syn-flood-anomaly'' \<or> rule_name a = ''port-scan-anomaly''"
  using assms
  by (auto simp: observe_def observe_syn_def observe_port_def anomaly_alert_def Let_def split: bind_splits if_splits)

lemma window_quiet:
  assumes "window_inv fx hist als d" and "list_all benign hist"
  shows "named_by ''syn-flood-anomaly'' als = [] \<and> named_by ''port-scan-anomaly'' als = []"
proof -
  have "filter is_syn hist = []" using assms(2) benign_facts(1) by (auto simp: filter_empty_conv list_all_iff)
  then have "syn_keys hist = []" by (simp add: syn_keys_def)
  then have "alerted_flood_this_window d = {}" using assms(1) by (auto simp: window_inv_def flood_inv_def)
  moreover have "touched fx 10 (port_keys s hist) \<le> 4" for s
  proof -
    have "port_keys s hist \<subseteq> u16_to_be_bytes ` {80, 443, 22, 53}"
      using assms(2) by (auto simp: port_keys_def list_all_iff benign_def)
    then have "card (port_keys s hist) \<le> card (u16_to_be_bytes ` {80, 443, 22, 53 :: u16})" by (intro card_mono) simp_all
    also have "\<dots> \<le> card {80, 443, 22, 53 :: u16}" by (rule card_image_le) simp
    also have "\<dots> \<le> 4" by simp
    finally show ?thesis using touched_le_card [OF finite_port_keys, of fx 10 s hist] by linarith
  qed
  then have "\<not> 25 \<le> touched fx 10 (port_keys s hist)" for s using le_trans by fastforce
  then have "alerted_scan_this_window d = {}" using assms(1) by (auto simp: window_inv_def scan_inv_def)
  ultimately show ?thesis using assms(1) by (simp add: window_inv_def flood_inv_def scan_inv_def)
qed

definition anomaly_quiet :: "hasher \<Rightarrow> WindowedAnomalyDetector \<Rightarrow> bool" where
  "anomaly_quiet fx d \<longleftrightarrow> (\<exists>hist als. window_inv fx hist als d \<and> list_all benign hist)"

lemma observe_quiet:
  assumes "anomaly_quiet fx d" and "ln_accurate ln64" and "benign e"
  shows "\<exists>d'. observe fx ln64 clock e d = Some (d', []) \<and> anomaly_quiet fx d'"
proof -
  obtain hist als where i: "window_inv fx hist als d" and b: "list_all benign hist" using assms(1) by (auto simp: anomaly_quiet_def)
  obtain now later where clock: "clock = (now, later)" by (cases clock)
  obtain d' new hist' als' where o: "observe fx ln64 clock e d = Some (d', new)" and i': "window_inv fx hist' (als' @ new) d'"
    and b': "list_all benign hist'"
    using observe_cases [OF i assms(2), of now later e] b assms(3) unfolding clock by (auto split: if_splits) (metis append_Nil list.pred_inject list_all_append)+
  have "named_by ''syn-flood-anomaly'' new = []" "named_by ''port-scan-anomaly'' new = []"
    using window_quiet [OF i' b'] by simp_all
  then have "a \<notin> set new" for a using observe_rule_names [OF o, of a] by (auto simp: named_by_def filter_empty_conv)
  then have "new = []" by (cases new) auto
  with o i' b' show ?thesis by (auto simp: anomaly_quiet_def)
qed

lemma process_quiet:
  assumes "benign e"
  shows "\<exists>hist' n'. process now e (cep_at [default_cep_rule] hist n) = Some (cep_at [default_cep_rule] hist' n', [])"
proof -
  have "\<not> fires hist (now, e) default_cep_rule"
  proof
    assume "fires hist (now, e) default_cep_rule"
    from fires_sound [OF this] obtain w where
      "list_all2 (\<lambda>c y. matches c (snd y) \<and> src_ip (snd y) = src_ip (snd (now, e))) [IsSynOnly, HasSignaturePayload] (w @ [(now, e)])"
      by (simp only: default_cep_rule_def CepRule.simps) blast
    then have "list_all2 (\<lambda>c y. matches c (snd y)) [IsSynOnly, HasSignaturePayload] (w @ [(now, e)])"
      by (rule list.rel_mono_strong) simp
    then have "list_all2 (\<lambda>c y. matches c (snd y)) (rev [IsSynOnly, HasSignaturePayload]) (rev (w @ [(now, e)]))"
      by (simp only: list_all2_rev)
    then have "matches HasSignaturePayload e" by simp
    then show False using benign_facts(2) [OF assms] by (simp only: matches_payload)
  qed
  then show ?thesis by (simp add: process_at Let_def) blast
qed

definition worker_quiet :: "'ac Libs \<Rightarrow> 'ac Worker \<Rightarrow> bool" where
  "worker_quiet L w \<longleftrightarrow> sig_ok (lib_build L) (lib_search L) (sig w) \<and> anomaly_quiet (lib_fx L) (anomaly w) \<and>
     (\<exists>hist n. cep w = cep_at [default_cep_rule] hist n)"

lemma worker_new_quiet:
  assumes "libs_ok L" and "worker_new L t = Some w"
  shows "worker_quiet L w"
proof -
  obtain v where "worker_new L t = Some v" "worker_ok L v" by (rule worker_new_ok [OF assms(1), of t]) simp
  then have "sig_ok (lib_build L) (lib_search L) (sig w)" using assms(2) by (simp add: worker_ok_def)
  moreover have "anomaly_quiet (lib_fx L) (anomaly_new t 5000000000)"
    unfolding anomaly_quiet_def by (intro exI [of _ "[]"] conjI window_inv_new) simp
  ultimately show ?thesis using assms(2)
    unfolding worker_quiet_def by (auto simp: worker_new_def cep_with_default_rules_def cep_of_rules_at split: bind_splits) blast
qed

lemma detect_quiet:
  assumes "worker_quiet L w" and "ln_accurate (lib_ln L)" and "benign e"
  shows "\<exists>w'. detect L t e w = Some (w', []) \<and> worker_quiet L w'"
proof -
  have w: "sig_ok (lib_build L) (lib_search L) (sig w)" "anomaly_quiet (lib_fx L) (anomaly w)"
    using assms(1) by (simp_all add: worker_quiet_def)
  obtain hist n where c: "cep w = cep_at [default_cep_rule] hist n" using assms(1) by (auto simp: worker_quiet_def)
  obtain s' where 1: "scan (lib_search L) e (sig w) = Some (s', [])" "sig_ok (lib_build L) (lib_search L) s'"
    using scan_quiet [OF w(1) assms(3)] by blast
  obtain an' where 2: "observe (lib_fx L) (lib_ln L) (fst t) e (anomaly w) = Some (an', [])" "anomaly_quiet (lib_fx L) an'"
    using observe_quiet [OF w(2) assms(2,3)] by blast
  obtain hist' n' where 3: "process (snd t) e (cep w) = Some (cep_at [default_cep_rule] hist' n', [])"
    using process_quiet [OF assms(3)] unfolding c by blast
  show ?thesis using 1(2) 2(2) by (auto simp: detect_def 1(1) 2(1) 3 worker_quiet_def)
qed

lemma detect_run_quiet:
  assumes "worker_quiet L w" and "ln_accurate (lib_ln L)" and "\<forall>x \<in> set xs. benign (snd x)"
    and "detector_run (\<lambda>(t, e). detect L t e) xs w = Some (w', als)"
  shows "als = []"
  using assms(1,3,4)
proof (induction xs arbitrary: w als)
  case (Cons x xs)
  obtain t e where x: "x = (t, e)" by (cases x)
  obtain w1 where "detect L t e w = Some (w1, [])" "worker_quiet L w1"
    using detect_quiet [OF Cons.prems(1) assms(2), of e t] Cons.prems(2) by (auto simp: x)
  with Cons.IH [of w1] Cons.prems show ?case by (auto simp: x split: bind_splits)
qed simp

lemma raised_quiet:
  assumes cfg: "config_ok L capacity starts" and r: "reach L capacity starts s trace" and i: "i < length starts"
    and b: "\<forall>x \<in> set (inputs_of i trace). benign (snd x)"
  shows "raised_by i trace = []"
proof -
  obtain w0 w where w0: "worker_new L (starts ! i) = Some w0"
    and run: "detector_run (\<lambda>(t, e). detect L t e) (inputs_of i trace) w0 = Some (w, raised_by i trace)"
    using reach_inv [OF r cfg] i by (auto simp: run_inv_def workers_inv_def)
  have "libs_ok L" using cfg by (simp add: config_ok_def)
  then show ?thesis
    using detect_run_quiet [OF worker_new_quiet [OF _ w0] _ b run] by (simp add: libs_ok_def)
qed

lemma benign_quiet:
  assumes "config_ok L capacity starts" and "reach L capacity starts s trace" and "list_all benign (accepted trace)"
  shows "alerts (app s) = [] \<and> alerts_fired (app s) = 0 \<and> list_all (\<lambda>w. pending w = []) (workers s)"
proof -
  let ?n = "length starts"
  note cfg = assms(1) and r = assms(2)
  have inv: "run_inv L capacity starts s trace" by (rule reach_inv [OF r cfg])
  have none: "stored_by i trace = [] \<and> pending (workers s ! i) = []" if i: "i < ?n" for i
  proof -
    have "filter (\<lambda>e. shard_of ?n e = i) (accepted trace) = map snd (inputs_of i trace) @ contents s ! i"
      using inv i by (simp add: run_inv_def queues_inv_def)
    then have "set (map snd (inputs_of i trace)) \<subseteq> set (accepted trace)"
      by (metis Un_upper1 filter_is_subset order_trans set_append)
    then have "raised_by i trace = []" using assms(3) by (intro raised_quiet [OF cfg r i]) (auto simp: list_all_iff)
    then show ?thesis using inv i by (simp add: run_inv_def alerts_inv_def)
  qed
  have ix: "indices_ok ?n trace" by (rule reach_indices [OF r cfg])
  have "x \<notin> set (stored trace)" for x
  proof
    assume "x \<in> set (stored trace)"
    moreover from this have "fst x < ?n" using ix by (simp add: indices_ok_def)
    ultimately show False using none [of "fst x"] by (auto simp: stored_by_def filter_empty_conv split_def)
  qed
  then have st: "stored trace = []" by (cases "stored trace") auto
  have c: "counters_inv ?n s trace" using inv by (simp add: run_inv_def)
  have "i \<notin> set (counts trace)" for i
  proof
    assume i: "i \<in> set (counts trace)"
    then have "i < ?n" using ix by (simp add: indices_ok_def)
    then have "count_list (counts trace) i = 0" using c none [of i] by (auto simp: counters_inv_def)
    with i show False by (simp add: count_list_0_iff)
  qed
  then have ct: "counts trace = []" by (cases "counts trace") auto
  have "alerts (app s) = []" using inv by (simp add: run_inv_def alerts_inv_def st)
  moreover have "alerts_fired (app s) = 0" using c by (simp add: counters_inv_def ct)
  moreover have "list_all (\<lambda>w. pending w = []) (workers s)"
    using none inv by (simp add: run_inv_def sys_ok_def list_all_length)
  ultimately show ?thesis by blast
qed

text \<open>
  C19: No false positives on ordinary traffic. If all accepted events are benign in the sense
  of the simulator (flags SYN and ACK, ports 80, 443, 22 or 53, an ordinary GET request),
  however many there are, from whatever sources and at whatever clock readings, then no
  reachable state has a stored alert, a pending alert or a counted one, for every hasher and
  every number of workers.
\<close>

theorem benign_traffic_raises_no_alert:
  assumes "config_ok L capacity starts" and "reach L capacity starts s trace" and "list_all benign (accepted trace)"
  shows "alerts (app s) = [] \<and> alerts_fired (app s) = 0 \<and> list_all (\<lambda>w. pending w = []) (workers s)"
  using assms by (rule benign_quiet)

theorem benign_traffic_raises_no_alert_witness:
  "\<exists>e s trace. benign_event example_env () = Some (e, ()) \<and> reach example_libs 2 [0] s trace \<and>
    accepted trace = [e, e, e] \<and> alerts (app s) = []"
proof -
  have "env_ok example_env" by (simp add: env_ok_def example_env_def)
  then obtain e where e: "benign_event example_env () = Some (e, ())" "benign e" using benign_event_ok [of example_env "()"] by auto
  obtain s trace where r: "reach example_libs 2 [0] s trace"
    and a: "accepted trace = [e, e, e]"
    using reach_feeds [OF example_config, of "replicate 3 (((1, 1), 1), e)"] by (auto simp: numeral_3_eq_3)
  have "list_all benign (accepted trace)" using e(2) a by simp
  from benign_traffic_raises_no_alert [OF example_config r this] e(1) r a show ?thesis by blast
qed

end
