(* ===== verification/Engine.thy ===== *)
theory Engine
  imports Quiet
begin

section \<open>The engine: the simulator feeding the pipeline\<close>

text \<open>
  The threads of \<^verbatim>\<open>engine/src/pipeline.rs\<close> with their own loops: \<open>producer_step\<close> is the loop of
  \<^verbatim>\<open>spawn_producer\<close>, which draws a batch from the simulator and routes its events one by one, and
  \<open>worker_step\<close> a step of one of the threads of \<^verbatim>\<open>spawn_workers\<close>. The two sleeps do nothing. A run
  records the batches drawn and the labels of the pipeline.
\<close>

subsection \<open>Threads\<close>

record ('ac, 'w) Engine =
  system :: "'ac System"
  simulator :: "'w Simulator"
  batch :: "NetworkEvent list"

datatype event = Drawn "NetworkEvent list" | Did label

definition engine_new :: "'ac Libs \<Rightarrow> usize \<Rightarrow> instant list \<Rightarrow> 'w \<Rightarrow> ('ac, 'w) Engine option" where
  "engine_new L capacity starts w = do {
     s \<leftarrow> system_new L capacity starts;
     Some \<lparr>system = s, simulator = simulator_new w, batch = []\<rparr>
   }"

definition producer_step :: "'ac Libs \<Rightarrow> 'w Env \<Rightarrow> ('ac, 'w) Engine \<Rightarrow> (('ac, 'w) Engine \<times> event) option" where
  "producer_step L E g = (case batch g of
     [] \<Rightarrow> do {
       (events, sim') \<leftarrow> next_batch E (simulator g);
       Some (g\<lparr>simulator := sim', batch := events\<rparr>, Drawn events)
     }
   | e # events \<Rightarrow> do {
       (s', l) \<leftarrow> perform L (Produce e) (system g);
       Some (g\<lparr>system := s', batch := events\<rparr>, Did l)
     })"

fun worker_action :: "action \<Rightarrow> bool" where
  "worker_action (Produce e) \<longleftrightarrow> False"
| "worker_action (Work i t) \<longleftrightarrow> True"
| "worker_action (Count i) \<longleftrightarrow> True"
| "worker_action (Store i) \<longleftrightarrow> True"

definition worker_step :: "'ac Libs \<Rightarrow> action \<Rightarrow> ('ac, 'w) Engine \<Rightarrow> (('ac, 'w) Engine \<times> event) option" where
  "worker_step L a g = do { (s', l) \<leftarrow> perform L a (system g); Some (g\<lparr>system := s'\<rparr>, Did l) }"

inductive engine_reach :: "'ac Libs \<Rightarrow> 'w Env \<Rightarrow> usize \<Rightarrow> instant list \<Rightarrow> 'w \<Rightarrow> ('ac, 'w) Engine \<Rightarrow> event list \<Rightarrow> bool"
  for L E capacity starts w where
  engine_start: "engine_new L capacity starts w = Some g \<Longrightarrow> engine_reach L E capacity starts w g []"
| engine_producer: "engine_reach L E capacity starts w g hist \<Longrightarrow> producer_step L E g = Some (g', ev) \<Longrightarrow>
    engine_reach L E capacity starts w g' (hist @ [ev])"
| engine_worker: "engine_reach L E capacity starts w g hist \<Longrightarrow> worker_action a \<Longrightarrow> enabled a (system g) \<Longrightarrow>
    worker_step L a g = Some (g', ev) \<Longrightarrow> engine_reach L E capacity starts w g' (hist @ [ev])"

subsection \<open>What a run records\<close>

definition labels :: "event list \<Rightarrow> label list" where
  "labels hist = concat (map (\<lambda>ev. case ev of Did l \<Rightarrow> [l] | Drawn es \<Rightarrow> []) hist)"

definition batches :: "event list \<Rightarrow> NetworkEvent list list" where
  "batches hist = concat (map (\<lambda>ev. case ev of Did l \<Rightarrow> [] | Drawn es \<Rightarrow> [es]) hist)"

definition routed :: "label list \<Rightarrow> NetworkEvent list" where
  "routed trace = concat (map (\<lambda>l. case l of Accepted e \<Rightarrow> [e] | Dropped e \<Rightarrow> [e] | _ \<Rightarrow> []) trace)"

lemma hist_simps [simp]:
  "labels [] = []" "batches [] = []" "routed [] = []"
  "labels (hist @ [Did l]) = labels hist @ [l]" "labels (hist @ [Drawn es]) = labels hist"
  "batches (hist @ [Did l]) = batches hist" "batches (hist @ [Drawn es]) = batches hist @ [es]"
  "routed (trace @ [l]) = routed trace @ (case l of Accepted e \<Rightarrow> [e] | Dropped e \<Rightarrow> [e] | _ \<Rightarrow> [])"
  by (simp_all add: labels_def batches_def routed_def)

lemma routed_accepted: "set (accepted trace) \<subseteq> set (routed trace)"
  by (induction trace rule: rev_induct) (auto split: label.split)

lemma routed_without_drop: "dropped trace = [] \<Longrightarrow> routed trace = accepted trace"
  by (induction trace rule: rev_induct) (auto split: label.splits)

lemma worker_label: "perform L a s = Some (s', l) \<Longrightarrow> worker_action a \<Longrightarrow> routed [l] = []"
  by (cases a) (auto simp: routed_def work_def Let_def split: bind_splits option.splits)

text \<open>The contents of the batch of tick \<open>t\<close>, as proved of \<open>next_batch\<close>.\<close>

definition batch_parts :: "u64 \<Rightarrow> NetworkEvent list \<Rightarrow> bool" where
  "batch_parts t es \<longleftrightarrow> (\<exists>normal flood payload sequence scan.
    es = normal @ flood @ payload @ sequence @ scan \<and> list_all benign normal \<and>
    (t mod 500 \<noteq> 0 \<longrightarrow> flood = []) \<and> (t mod 733 \<noteq> 0 \<longrightarrow> payload = []) \<and> (t mod 611 \<noteq> 0 \<longrightarrow> scan = []) \<and>
    (if t mod 900 = 0 then \<exists>e0 e1. sequence = [e0, e1] \<and> src_ip e1 = src_ip e0 \<and> is_syn e0 \<and>
       payload_sample e1 = bytes_of ''GET /../../etc/passwd HTTP/1.1'' else sequence = []))"

lemma next_batch_batch_parts:
  assumes "env_ok E"
  obtains es sim' where "next_batch E sim = Some (es, sim')" and "tick sim' = tick sim + 1" and "batch_parts (tick sim + 1) es"
proof -
  let ?t = "tick sim + 1"
  from next_batch_parts [OF assms, of sim] obtain normal flood payload sequence scan sim'
    where n: "next_batch E sim = Some (normal @ flood @ payload @ sequence @ scan, sim')" "tick sim' = ?t"
    and b: "list_all benign normal"
    and f: "if ?t mod 500 = 0 then length flood = 80 \<and> (\<exists>ip. local_source ip \<and> list_all (syn_from ip 80) flood) else flood = []"
    and p: "if ?t mod 733 = 0 then \<exists>e. payload = [e] \<and> payload_sample e = bytes_of ''GET /../../etc/passwd HTTP/1.1'' else payload = []"
    and q: "if ?t mod 900 = 0 then \<exists>e0 e1. sequence = [e0, e1] \<and> src_ip e1 = src_ip e0 \<and> is_syn e0 \<and>
       payload_sample e1 = bytes_of ''GET /../../etc/passwd HTTP/1.1'' else sequence = []"
    and s: "if ?t mod 611 = 0 then length scan = 39 \<and> distinct (map dst_port scan) \<and> (\<exists>ip. list_all (\<lambda>e. is_syn e \<and> src_ip e = ip) scan) else scan = []"
    by (elim exE conjE) (rule that)
  have "batch_parts ?t (normal @ flood @ payload @ sequence @ scan)"
    unfolding batch_parts_def
    by (intro exI [of _ normal] exI [of _ flood] exI [of _ payload] exI [of _ sequence] exI [of _ scan] conjI refl b q impI)
      (use f p s in \<open>simp_all only: if_False\<close>)
  with n show ?thesis by (rule that)
qed

lemma batch_parts_attack:
  assumes "batch_parts t es" and "t mod 900 = 0"
  obtains pre e0 e1 post where "es = pre @ [e0, e1] @ post" and "src_ip e1 = src_ip e0" and "is_syn e0"
    and "payload_sample e1 = bytes_of ''GET /../../etc/passwd HTTP/1.1''"
proof -
  from assms(1) obtain normal flood payload sequence scan where es: "es = normal @ flood @ payload @ sequence @ scan"
    and q: "if t mod 900 = 0 then \<exists>e0 e1. sequence = [e0, e1] \<and> src_ip e1 = src_ip e0 \<and> is_syn e0 \<and>
       payload_sample e1 = bytes_of ''GET /../../etc/passwd HTTP/1.1'' else sequence = []"
    unfolding batch_parts_def by (elim exE conjE) (rule that)
  from q obtain e0 e1 where "sequence = [e0, e1]"
    and e: "src_ip e1 = src_ip e0" "is_syn e0" "payload_sample e1 = bytes_of ''GET /../../etc/passwd HTTP/1.1''"
    unfolding if_P [OF assms(2)] by (elim exE conjE) (rule that)
  with es have "es = (normal @ flood @ payload) @ [e0, e1] @ scan" by simp
  from this e show ?thesis by (rule that)
qed

text \<open>The invariant: the pipeline's run, the progress through the batches, and the tick.\<close>

definition engine_inv :: "'ac Libs \<Rightarrow> usize \<Rightarrow> instant list \<Rightarrow> ('ac, 'w) Engine \<Rightarrow> event list \<Rightarrow> bool" where
  "engine_inv L capacity starts g hist \<longleftrightarrow> reach L capacity starts (system g) (labels hist) \<and>
     concat (batches hist) = routed (labels hist) @ batch g \<and> tick (simulator g) = of_nat (length (batches hist)) \<and>
     (\<forall>k < length (batches hist). batch_parts (of_nat (Suc k)) (batches hist ! k))"

lemma producer_step_inv:
  assumes cfg: "config_ok L capacity starts" and env: "env_ok E" and inv: "engine_inv L capacity starts g hist"
  shows "\<exists>g' ev. producer_step L E g = Some (g', ev) \<and> engine_inv L capacity starts g' (hist @ [ev])"
proof (cases "batch g")
  case Nil
  obtain es sim' where n: "next_batch E (simulator g) = Some (es, sim')" "tick sim' = tick (simulator g) + 1"
    "batch_parts (tick (simulator g) + 1) es"
    by (rule next_batch_batch_parts [OF env])
  have t: "tick (simulator g) = of_nat (length (batches hist))" using inv by (simp add: engine_inv_def)
  have "producer_step L E g = Some (g\<lparr>simulator := sim', batch := es\<rparr>, Drawn es)"
    by (simp add: producer_step_def Nil n(1))
  moreover have "engine_inv L capacity starts (g\<lparr>simulator := sim', batch := es\<rparr>) (hist @ [Drawn es])"
    using inv n(2,3) Nil by (simp add: engine_inv_def t nth_append less_Suc_eq all_conj_distrib ac_simps)
  ultimately show ?thesis by blast
next
  case (Cons e es)
  have r: "reach L capacity starts (system g) (labels hist)" using inv by (simp add: engine_inv_def)
  obtain s' l where p: "perform L (Produce e) (system g) = Some (s', l)" "reach L capacity starts s' (labels hist @ [l])"
    by (rule reach_step [OF cfg r, of "Produce e"]) simp
  have "l = Accepted e \<or> l = Dropped e" by (rule perform_label(1) [OF p(1)])
  then have "routed (labels hist @ [l]) = routed (labels hist) @ [e]" by auto
  then have "engine_inv L capacity starts (g\<lparr>system := s', batch := es\<rparr>) (hist @ [Did l])"
    using inv p(2) Cons by (simp add: engine_inv_def)
  then show ?thesis using p(1) Cons by (simp add: producer_step_def)
qed

lemma worker_step_inv:
  assumes cfg: "config_ok L capacity starts" and inv: "engine_inv L capacity starts g hist"
    and a: "worker_action a" "enabled a (system g)"
  shows "\<exists>g' ev. worker_step L a g = Some (g', ev) \<and> engine_inv L capacity starts g' (hist @ [ev])"
proof -
  have r: "reach L capacity starts (system g) (labels hist)" using inv by (simp add: engine_inv_def)
  obtain s' l where p: "perform L a (system g) = Some (s', l)" "reach L capacity starts s' (labels hist @ [l])"
    by (rule reach_step [OF cfg r a(2)])
  have "routed (labels hist @ [l]) = routed (labels hist)"
    using worker_label [OF p(1) a(1)] hist_simps(8) [of "[]" l] by simp
  then have "engine_inv L capacity starts (g\<lparr>system := s'\<rparr>) (hist @ [Did l])"
    using inv p(2) by (simp add: engine_inv_def)
  then show ?thesis using p(1) by (simp add: worker_step_def)
qed

lemma engine_start_inv:
  assumes "config_ok L capacity starts"
  obtains g where "engine_new L capacity starts w = Some g" and "engine_inv L capacity starts g []" and "batch g = []"
proof -
  obtain s where s: "system_new L capacity starts = Some s" by (rule start_inv [OF assms])
  from reach.start [OF s] s show ?thesis
    by (intro that [of "\<lparr>system = s, simulator = simulator_new w, batch = []\<rparr>"])
      (simp_all add: engine_new_def engine_inv_def simulator_new_def)
qed

lemma engine_reach_inv:
  assumes "engine_reach L E capacity starts w g hist" and "config_ok L capacity starts" and "env_ok E"
  shows "engine_inv L capacity starts g hist"
  using assms(1)
proof induction
  case (engine_start g)
  then show ?case using engine_start_inv [OF assms(2), of w] by (metis option.inject)
next
  case (engine_producer g hist g' ev)
  then show ?case using producer_step_inv [OF assms(2,3)] by fastforce
next
  case (engine_worker g hist a g' ev)
  then show ?case using worker_step_inv [OF assms(2)] by fastforce
qed

subsection \<open>Steps of the workers within an engine run\<close>

text \<open>A label tells which action it reports, so a trace determines the state it leads to.\<close>

lemma perform_unique:
  assumes "perform L a s = Some (s1, l)" and "perform L b s = Some (s2, l)"
  shows "s1 = s2"
proof (cases a)
  case (Produce e)
  then have l: "l = Accepted e \<or> l = Dropped e" using assms(1) perform_label(1) by blast
  with assms(2) have "b = Produce e" by (cases b) (auto simp del: perform.simps dest!: perform_label)
  with assms Produce show ?thesis by simp
next
  case (Work i t)
  then have l: "l = Idle i \<or> (\<exists>e als. l = Handled i t e als)" using assms(1) perform_label(2) by blast
  with assms(2) obtain t' where b: "b = Work i t'" by (cases b) (auto simp del: perform.simps dest!: perform_label)
  from assms[unfolded Work b] show ?thesis
    by (auto simp: work_def Let_def split: bind_splits option.splits)
next
  case (Count i)
  then have "l = Counted i" using assms(1) perform_label(3) by blast
  with assms(2) have "b = Count i" by (cases b) (auto simp del: perform.simps dest!: perform_label)
  with assms Count show ?thesis by simp
next
  case (Store i)
  then obtain x where "l = Stored i x" using assms(1) perform_label(4) by blast
  with assms(2) have "b = Store i" by (cases b) (auto simp del: perform.simps dest!: perform_label)
  with assms Store show ?thesis by simp
qed

lemma reach_snocE:
  assumes "reach L capacity starts s (trace @ [l])"
  obtains s0 a where "reach L capacity starts s0 trace" and "enabled a s0" and "perform L a s0 = Some (s, l)"
  using assms by (cases rule: reach.cases) auto

lemma reach_unique: "reach L capacity starts s trace \<Longrightarrow> reach L capacity starts s' trace \<Longrightarrow> s = s'"
proof (induction trace arbitrary: s s' rule: rev_induct)
  case Nil
  then show ?case by (auto elim!: reach.cases)
next
  case (snoc l trace)
  from snoc.prems(1) obtain s0 a where 0: "reach L capacity starts s0 trace" "perform L a s0 = Some (s, l)" by (rule reach_snocE)
  from snoc.prems(2) obtain s1 b where 1: "reach L capacity starts s1 trace" "perform L b s1 = Some (s', l)" by (rule reach_snocE)
  from snoc.IH [OF 0(1) 1(1)] 0 1 show ?case by (auto intro: perform_unique)
qed

lemma engine_worker_steps:
  assumes g: "engine_reach L E capacity starts w g hist" and inv: "reach L capacity starts (system g) (labels hist)"
    and "reach L capacity starts s' (labels hist @ ext)" and "list_all (by_worker i) ext"
  shows "engine_reach L E capacity starts w (g\<lparr>system := s'\<rparr>) (hist @ map Did ext)"
  using assms(3,4)
proof (induction ext arbitrary: s' rule: rev_induct)
  case Nil
  then have "s' = system g" using reach_unique inv by fastforce
  with g show ?case by simp
next
  case (snoc l ext)
  then obtain s0 a where 0: "reach L capacity starts s0 (labels hist @ ext)" "enabled a s0" "perform L a s0 = Some (s', l)"
    using reach_snocE [of L capacity starts s' "labels hist @ ext" l] by auto
  have "worker_action a"
    using snoc.prems(2) 0(3) by (cases a) (auto simp: by_worker_def simp del: perform.simps dest!: perform_label(1))
  moreover have "engine_reach L E capacity starts w (g\<lparr>system := s0\<rparr>) (hist @ map Did ext)"
    using snoc.IH [OF 0(1)] snoc.prems(2) by simp
  moreover have "worker_step L a (g\<lparr>system := s0\<rparr>) = Some (g\<lparr>system := s'\<rparr>, Did l)"
    by (simp add: worker_step_def 0(3))
  ultimately have "engine_reach L E capacity starts w (g\<lparr>system := s'\<rparr>) ((hist @ map Did ext) @ [Did l])"
    using 0(2) by (intro engine_worker) simp_all
  then show ?case by simp
qed

lemma labels_append: "labels (hist @ map Did ext) = labels hist @ ext"
  by (induction ext rule: rev_induct) (simp_all flip: append_assoc)

lemma batches_append: "batches (hist @ map Did ext) = batches hist"
  by (induction ext rule: rev_induct) (simp_all flip: append_assoc)

lemma dropped_by_worker: "list_all (by_worker i) ext \<Longrightarrow> dropped (trace @ ext) = dropped trace"
  by (induction ext rule: rev_induct) (auto simp: by_worker_def dropped_def split: label.splits)

text \<open>A single worker that keeps up: any number of batches can be drawn, routed and handled.\<close>

definition kept_up :: "'ac Libs \<Rightarrow> 'w Env \<Rightarrow> usize \<Rightarrow> instant \<Rightarrow> 'w \<Rightarrow> clocks \<Rightarrow> ('ac, 'w) Engine \<Rightarrow> event list \<Rightarrow> bool" where
  "kept_up L E capacity t0 w z g hist \<longleftrightarrow> engine_reach L E capacity [t0] w g hist \<and> dropped (labels hist) = [] \<and>
     contents (system g) ! 0 = [] \<and> pending (workers (system g) ! 0) = [] \<and> (\<forall>x \<in> set (inputs_of 0 (labels hist)). fst x = z)"

lemma kept_up_route:
  assumes cfg: "config_ok L capacity [t0]" and env: "env_ok E"
  shows "kept_up L E capacity t0 w z g hist \<Longrightarrow>
    \<exists>g' hist'. kept_up L E capacity t0 w z g' hist' \<and> batches hist' = batches hist \<and> batch g' = []"
proof (induction "batch g" arbitrary: g hist)
  case Nil
  then show ?case by metis
next
  case (Cons e es)
  then have b: "batch g = e # es" and K: "engine_reach L E capacity [t0] w g hist" "dropped (labels hist) = []"
    "contents (system g) ! 0 = []" "pending (workers (system g) ! 0) = []" "\<forall>x \<in> set (inputs_of 0 (labels hist)). fst x = z"
    by (simp_all add: kept_up_def)
  have r: "reach L capacity [t0] (system g) (labels hist)"
    using engine_reach_inv [OF K(1) cfg env] by (simp add: engine_inv_def)
  have sh: "shard_of (length [t0]) e = 0" by (simp add: shard_of_def)
  have "0 < unat capacity" using cfg by (simp add: config_ok_def)
  then have room: "length (contents (system g) ! shard_of (length [t0]) e) < unat capacity" using K(3) sh by simp
  obtain s1 where r1: "reach L capacity [t0] s1 (labels hist @ [Accepted e])"
    and p1: "perform L (Produce e) (system g) = Some (s1, Accepted e)"
    and c1: "contents s1 = (contents (system g))[shard_of (length [t0]) e := contents (system g) ! shard_of (length [t0]) e @ [e]]"
    by (rule reach_accept [OF cfg r room])
  have c1: "contents s1 ! 0 = [e]" using c1 K(3) sh reach_contents [OF cfg r] by simp
  let ?g1 = "g\<lparr>system := s1, batch := es\<rparr>"
  have "producer_step L E g = Some (?g1, Did (Accepted e))" by (simp add: producer_step_def b p1 del: perform.simps)
  with K(1) have g1: "engine_reach L E capacity [t0] w ?g1 (hist @ [Did (Accepted e)])" by (rule engine_producer)
  obtain s2 ext where r2: "reach L capacity [t0] s2 ((labels hist @ [Accepted e]) @ ext)" and bw: "list_all (by_worker 0) ext"
    and d: "contents s2 ! 0 = []" "pending (workers s2 ! 0) = []"
    and i2: "inputs_of 0 ((labels hist @ [Accepted e]) @ ext) = inputs_of 0 (labels hist @ [Accepted e]) @ [(z, e)]"
    using reach_drained [OF cfg r1, of 0 "[z]"] c1 by auto
  let ?g2 = "?g1\<lparr>system := s2\<rparr>" and ?h2 = "(hist @ [Did (Accepted e)]) @ map Did ext"
  have "engine_reach L E capacity [t0] w ?g2 ?h2"
    by (rule engine_worker_steps [OF g1 _ _ bw]) (use r1 r2 in simp_all)
  moreover have lab: "labels ?h2 = (labels hist @ [Accepted e]) @ ext" by (simp only: labels_append hist_simps)
  ultimately have "kept_up L E capacity t0 w z ?g2 ?h2"
    using d i2 K(2,5) dropped_by_worker [OF bw, of "labels hist @ [Accepted e]"] unfolding kept_up_def lab by auto
  moreover have "es = batch ?g2" by simp
  ultimately obtain g' hist' where "kept_up L E capacity t0 w z g' hist'" "batches hist' = batches ?h2" "batch g' = []"
    using Cons.hyps(1) by blast
  then show ?case by (metis batches_append hist_simps(6))
qed

lemma kept_up_batches:
  assumes cfg: "config_ok L capacity [t0]" and env: "env_ok E"
  shows "\<exists>g hist. kept_up L E capacity t0 w z g hist \<and> length (batches hist) = n \<and> batch g = []"
proof (induction n)
  case 0
  obtain g where g: "engine_new L capacity [t0] w = Some g" "engine_inv L capacity [t0] g []" "batch g = []"
    by (rule engine_start_inv [OF cfg])
  have "run_inv L capacity [t0] (system g) []" using reach_inv [OF _ cfg] g(2) by (simp add: engine_inv_def)
  then have "contents (system g) ! 0 = []" "pending (workers (system g) ! 0) = []"
    by (simp_all add: run_inv_def queues_inv_def alerts_inv_def)
  with engine_start [OF g(1)] g(3) show ?case
    by (intro exI [of _ g] exI [of _ "[]"]) (simp add: kept_up_def)
next
  case (Suc n)
  then obtain g hist where k: "kept_up L E capacity t0 w z g hist" "length (batches hist) = n" "batch g = []" by blast
  then have r: "engine_reach L E capacity [t0] w g hist" by (simp add: kept_up_def)
  obtain es sim' where nb: "next_batch E (simulator g) = Some (es, sim')" by (rule next_batch_batch_parts [OF env])
  let ?g = "g\<lparr>simulator := sim', batch := es\<rparr>"
  have "producer_step L E g = Some (?g, Drawn es)" by (simp add: producer_step_def k(3) nb)
  with r have "engine_reach L E capacity [t0] w ?g (hist @ [Drawn es])" by (rule engine_producer)
  then have "kept_up L E capacity t0 w z ?g (hist @ [Drawn es])" using k(1) by (simp add: kept_up_def)
  from kept_up_route [OF cfg env this] k(2) show ?case by fastforce
qed

subsection \<open>Properties of every run of the engine\<close>

text \<open>
  C7: The engine runs the pipeline. In every interleaving of the producer's loop and the
  workers, the shared state is a reachable state of the pipeline; the events routed so far,
  accepted or dropped, are the simulator's batches in order up to the rest of the batch in
  hand; and the simulator's tick is the number of batches drawn.
\<close>

theorem engine_runs_the_pipeline:
  assumes "config_ok L capacity starts" and "env_ok E" and "engine_reach L E capacity starts w g hist"
  shows "reach L capacity starts (system g) (labels hist) \<and>
    concat (batches hist) = routed (labels hist) @ batch g \<and> tick (simulator g) = of_nat (length (batches hist))"
  using engine_reach_inv [OF assms(3,1,2)] by (simp add: engine_inv_def)

text \<open>
  No thread of the engine panics. From every state of every run the producer's next step
  completes, whether it draws a batch or routes an event, and so does every step a worker can
  take, for every accurate set of libraries, any generator that stays in its range and a clock
  after 1970.
\<close>

theorem engine_never_panics:
  assumes "config_ok L capacity starts" and "env_ok E" and "engine_reach L E capacity starts w g hist"
  shows "producer_step L E g \<noteq> None \<and>
    (\<forall>a. worker_action a \<and> enabled a (system g) \<longrightarrow> worker_step L a g \<noteq> None)"
proof -
  note inv = engine_reach_inv [OF assms(3,1,2)]
  show ?thesis using producer_step_inv [OF assms(1,2) inv] worker_step_inv [OF assms(1) inv] by fastforce
qed

text \<open>
  No alert before the first injected attack. As long as the simulator has drawn fewer than
  500 batches, no run of the engine has an alert stored, counted or pending, whatever the
  generator draws and however the threads interleave.
\<close>

theorem quiet_before_the_first_attack:
  assumes "config_ok L capacity starts" and "env_ok E" and "engine_reach L E capacity starts w g hist"
    and "length (batches hist) < 500"
  shows "alerts (app (system g)) = [] \<and> alerts_fired (app (system g)) = 0 \<and> list_all (\<lambda>v. pending v = []) (workers (system g))"
proof -
  note inv = engine_reach_inv [OF assms(3,1,2)]
  have r: "reach L capacity starts (system g) (labels hist)" and c: "concat (batches hist) = routed (labels hist) @ batch g"
    and p: "\<And>k. k < length (batches hist) \<Longrightarrow> batch_parts (of_nat (Suc k)) (batches hist ! k)"
    using inv by (simp_all add: engine_inv_def)
  have small: "of_nat (Suc k) mod m = (of_nat (Suc k) :: u64)" "(of_nat (Suc k) :: u64) \<noteq> 0"
    if "Suc k < 500" "m \<in> {500, 611, 733, 900}" for k m
    using that by (auto simp: word_arith_nat_mod unat_of_nat word_unat_eq_iff simp del: of_nat_Suc)
  have "list_all benign (batches hist ! k)" if k: "k < length (batches hist)" for k
  proof -
    have "Suc k < 500" using k assms(4) by simp
    then show ?thesis
      using p [OF k] small(1) [of k 500] small(1) [of k 611] small(1) [of k 733] small(1) [of k 900] small(2) [of k 500]
      by (auto simp: batch_parts_def simp del: of_nat_Suc)
  qed
  then have "list_all benign b" if "b \<in> set (batches hist)" for b using that by (metis in_set_conv_nth)
  then have "list_all benign (concat (batches hist))" by (simp add: list_all_iff)
  then have "list_all benign (accepted (labels hist))"
    using routed_accepted [of "labels hist"] by (auto simp: c list_all_iff)
  from benign_quiet [OF assms(1) r this] show ?thesis .
qed

text \<open>Two neighbours among the accepted events of a shard are handled one after the other.\<close>

lemma handled_neighbours:
  assumes "config_ok L capacity starts" and r: "reach L capacity starts s trace" and e: "accepted trace = pre @ [e0, e1] @ post"
    and same: "shard_of (length starts) e1 = shard_of (length starts) e0" and c: "contents s ! shard_of (length starts) e0 = []"
  obtains pre' t0 t1 post' where "inputs_of (shard_of (length starts) e0) trace = pre' @ (t0, e0) # [] @ (t1, e1) # post'"
proof -
  let ?n = "length starts"
  let ?i = "shard_of ?n e0"
  have "0 < ?n" using assms(1) by (simp add: config_ok_def)
  then have "?i < ?n" by (simp add: shard_of_def)
  then have "filter (\<lambda>e. shard_of ?n e = ?i) (accepted trace) = map snd (inputs_of ?i trace)"
    using reach_inv [OF r assms(1)] c by (simp add: run_inv_def queues_inv_def)
  then have "map snd (inputs_of ?i trace) =
      filter (\<lambda>e. shard_of ?n e = ?i) pre @ e0 # e1 # filter (\<lambda>e. shard_of ?n e = ?i) post"
    by (simp add: e same)
  then obtain pre' x0 x1 post' where "inputs_of ?i trace = pre' @ x0 # x1 # post'" "snd x0 = e0" "snd x1 = e1"
    by (auto simp: map_eq_append_conv map_eq_Cons_conv)
  then show ?thesis by (intro that [of pre' "fst x0" "fst x1" post']) auto
qed

text \<open>
  C13: The simulated attack is detected, end to end. Each batch number 900, 1800, ... contains
  a probe and an exploit of one source. In every run in which nothing was dropped, everything
  routed has been handled, and each worker took at most five seconds between one event and the
  next, an alert of the rule probe-then-exploit-attempt that describes that exploit is stored
  or about to be stored.
\<close>

theorem simulated_exploit_is_reported:
  assumes "config_ok L capacity starts" and "env_ok E" and "engine_reach L E capacity starts w g hist"
    and "k < length (batches hist)" and "900 dvd Suc k" and "Suc k < 2 ^ 64"
    and "dropped (labels hist) = []" and "batch g = []" and "\<And>i. i < length starts \<Longrightarrow> contents (system g) ! i = []"
    and "\<And>i pre x y post. inputs_of i (labels hist) = pre @ x # y # post \<Longrightarrow> snd (fst y) - snd (fst x) \<le> 5000000000"
  shows "\<exists>i a e0 e1. i < length starts \<and> a \<in> set (stored_by i (labels hist) @ pending (workers (system g) ! i)) \<and>
    sublist [e0, e1] (batches hist ! k) \<and> is_syn e0 \<and> src_ip e1 = src_ip e0 \<and>
    rule_name a = ''probe-then-exploit-attempt'' \<and> describes Cep e1 a"
proof -
  note inv = engine_reach_inv [OF assms(3,1,2)]
  let ?n = "length starts"
  have r: "reach L capacity starts (system g) (labels hist)" and c: "concat (batches hist) = routed (labels hist) @ batch g"
    and p: "batch_parts (of_nat (Suc k)) (batches hist ! k)"
    using inv assms(4) by (simp_all add: engine_inv_def)
  have m: "(of_nat (Suc k) :: u64) mod 900 = 0"
    using assms(5,6) by (simp add: word_arith_nat_mod unat_of_nat del: of_nat_Suc)
  obtain pre0 e0 e1 post0 where b: "batches hist ! k = pre0 @ [e0, e1] @ post0" and e: "src_ip e1 = src_ip e0" "is_syn e0"
    and pl: "payload_sample e1 = bytes_of ''GET /../../etc/passwd HTTP/1.1''"
    by (rule batch_parts_attack [OF p m])
  have acc: "accepted (labels hist) = concat (batches hist)"
    using c assms(8) routed_without_drop [OF assms(7)] by simp
  have "concat (batches hist) = concat (take k (batches hist)) @ batches hist ! k @ concat (drop (Suc k) (batches hist))"
    by (metis assms(4) concat.simps(2) concat_append id_take_nth_drop)
  then have acc': "accepted (labels hist) = (concat (take k (batches hist)) @ pre0) @ [e0, e1] @ (post0 @ concat (drop (Suc k) (batches hist)))"
    by (simp add: acc b)
  let ?i = "shard_of ?n e0"
  have i: "?i < ?n" using assms(1) by (simp add: shard_of_def config_ok_def)
  obtain pre' t0 t1 post' where ins: "inputs_of ?i (labels hist) = pre' @ (t0, e0) # [] @ (t1, e1) # post'"
    by (rule handled_neighbours [OF assms(1) r acc' shard_of_source [OF e(1)] assms(9) [OF i]])
  have gap: "snd t1 - snd t0 \<le> 5000000000" using assms(10) [of ?i pre' "(t0, e0)" "(t1, e1)" post'] ins by simp
  have "sublist (bytes_of ''passwd'') (payload_sample e1)" unfolding pl by code_simp
  then have "\<exists>a \<in> set (stored_by ?i (labels hist) @ pending (workers (system g) ! ?i)).
      rule_name a = ''probe-then-exploit-attempt'' \<and> describes Cep e1 a"
    by (rule probe_exploit_reported [OF assms(1) r i ins e(2) _ e(1) gap]) simp
  moreover have "sublist [e0, e1] (batches hist ! k)" unfolding b by (rule sublist_appendI)
  ultimately show ?thesis using i e by blast
qed

subsection \<open>Witnesses\<close>

lemma example_env_ok: "env_ok example_env"
  by (simp add: env_ok_def example_env_def)

lemma example_engine:
  "\<exists>g hist. kept_up example_libs example_env 2 0 () ((1, 1), 1) g hist \<and> length (batches hist) = n \<and> batch g = []"
  by (rule kept_up_batches [OF example_config example_env_ok])

theorem engine_runs_the_pipeline_witness:
  "\<exists>(g :: (bytes list, unit) Engine) hist. reach example_libs 2 [0] (system g) (labels hist) \<and> concat (batches hist) = accepted (labels hist) \<and>
     tick (simulator g) = 3"
proof -
  obtain g hist where k: "kept_up example_libs example_env 2 0 () ((1, 1), 1) g hist" "length (batches hist) = 3" "batch g = []"
    using example_engine by blast
  then have r: "engine_reach example_libs example_env 2 [0] () g hist" by (simp add: kept_up_def)
  have "routed (labels hist) = accepted (labels hist)" using k(1) by (intro routed_without_drop) (simp add: kept_up_def)
  with engine_runs_the_pipeline [OF example_config example_env_ok r] k(2,3) show ?thesis by auto
qed

theorem engine_never_panics_witness:
  "\<exists>g hist. engine_reach example_libs example_env 2 [0] () g hist \<and> length (batches hist) = 3 \<and>
     producer_step example_libs example_env g \<noteq> None"
proof -
  obtain g hist where k: "kept_up example_libs example_env 2 0 () ((1, 1), 1) g hist" "length (batches hist) = 3"
    using example_engine by blast
  then have r: "engine_reach example_libs example_env 2 [0] () g hist" by (simp add: kept_up_def)
  with engine_never_panics [OF example_config example_env_ok r] k(2) show ?thesis by blast
qed

theorem quiet_before_the_first_attack_witness:
  "\<exists>g hist. engine_reach example_libs example_env 2 [0] () g hist \<and> length (batches hist) = 499 \<and>
     alerts (app (system g)) = []"
proof -
  obtain g hist where k: "kept_up example_libs example_env 2 0 () ((1, 1), 1) g hist" "length (batches hist) = 499"
    using example_engine by blast
  then have r: "engine_reach example_libs example_env 2 [0] () g hist" by (simp add: kept_up_def)
  with quiet_before_the_first_attack [OF example_config example_env_ok r] k(2) show ?thesis by auto
qed

theorem simulated_exploit_is_reported_witness:
  "\<exists>g hist a e1. engine_reach example_libs example_env 2 [0] () g hist \<and> length (batches hist) = 900 \<and>
     a \<in> set (stored_by 0 (labels hist)) \<and> e1 \<in> set (batches hist ! 899) \<and> describes Cep e1 a"
proof -
  obtain g hist where k: "kept_up example_libs example_env 2 0 () ((1, 1), 1) g hist" "length (batches hist) = 900" "batch g = []"
    using example_engine by blast
  then have r: "engine_reach example_libs example_env 2 [0] () g hist" and d: "dropped (labels hist) = []"
    and c: "contents (system g) ! 0 = []" "pending (workers (system g) ! 0) = []"
    and z: "\<forall>x \<in> set (inputs_of 0 (labels hist)). fst x = ((1, 1), 1)" by (simp_all add: kept_up_def)
  have inv: "run_inv example_libs 2 [0] (system g) (labels hist)"
    using reach_inv [OF _ example_config] engine_reach_inv [OF r example_config example_env_ok] by (simp add: engine_inv_def)
  have "indices_ok 1 (labels hist)"
    using reach_indices [OF _ example_config] engine_reach_inv [OF r example_config example_env_ok] by (fastforce simp: engine_inv_def)
  then have other: "inputs_of i (labels hist) = []" if "i \<noteq> 0" for i
    using that by (auto simp: indices_ok_def inputs_of_def filter_empty_conv)
  have gap: "snd (fst y) - snd (fst x) \<le> 5000000000" if "inputs_of i (labels hist) = pre @ x # y # post" for i pre x y post
  proof (cases "i = 0")
    case True
    then show ?thesis using that z by auto
  next
    case False
    then show ?thesis using that other by simp
  qed
  have "\<exists>i a e0 e1. i < length [0 :: instant] \<and> a \<in> set (stored_by i (labels hist) @ pending (workers (system g) ! i)) \<and>
    sublist [e0, e1] (batches hist ! 899) \<and> is_syn e0 \<and> src_ip e1 = src_ip e0 \<and>
    rule_name a = ''probe-then-exploit-attempt'' \<and> describes Cep e1 a"
    by (rule simulated_exploit_is_reported [OF example_config example_env_ok r _ _ _ d k(3) _ gap]) (use k(2) c in simp_all)
  then obtain a e0 e1 where "a \<in> set (stored_by 0 (labels hist))" "sublist [e0, e1] (batches hist ! 899)" "describes Cep e1 a"
    using c(2) by auto
  moreover from this have "e1 \<in> set (batches hist ! 899)" by (auto dest!: set_mono_sublist)
  ultimately show ?thesis using r k(2) by blast
qed

end
