(* ===== verification/Threads.thy ===== *)
theory Threads
  imports Engine QueueSpsc
begin

section \<open>The engine at the granularity of its atomic accesses\<close>

text \<open>
  The threads of \<^verbatim>\<open>engine/src/pipeline.rs\<close> once more, now with nothing merged: the calls of \<^verbatim>\<open>push\<close> and \<^verbatim>\<open>pop\<close> take
  the atomic steps of theory \<open>MpmcQueue\<close>, each counter is a step of its own, and a worker records the alerts
  of one detector before it calls the next. \<open>producer_next\<close> and \<open>worker_next\<close> are the next step of a thread;
  the flag is the spurious failure of a weak compare-exchange. The clock readings of the detectors
  are inputs; they are drawn when the worker starts to pop the event, which costs no generality.
  Every run of these threads is explained by a run of theory \<open>Engine\<close>, where a call is one action. The critical
  section of \<^verbatim>\<open>record_alert\<close> is one step here; theory \<open>AlertLock\<close> takes it apart.
\<close>

subsection \<open>Threads\<close>

datatype producer_pc = NextEvent | PushTo nat NetworkEvent "NetworkEvent push_pc" | CountDropped

datatype stage =
    Polling
  | PopFor clocks "NetworkEvent pop_pc"
  | CountEvent clocks NetworkEvent
  | ScanEvent clocks NetworkEvent
  | ObserveEvent clocks NetworkEvent
  | MatchEvent clocks NetworkEvent

text \<open>\<open>locals\<close> are the detectors of each worker with the alerts of the last call still to be recorded.\<close>

record ('ac, 'w) Threads =
  app_state :: AppState
  generator :: "'w Simulator"
  rest_of_batch :: "NetworkEvent list"
  producer :: producer_pc
  locals :: "'ac Worker list"
  stages :: "stage list"

definition threads_new :: "'ac Libs \<Rightarrow> usize \<Rightarrow> instant list \<Rightarrow> 'w \<Rightarrow> ('ac, 'w) Threads option" where
  "threads_new L capacity starts w = do {
     s \<leftarrow> system_new L capacity starts;
     Some \<lparr>app_state = app s, generator = simulator_new w, rest_of_batch = [], producer = NextEvent,
           locals = workers s, stages = replicate (length starts) Polling\<rparr>
   }"

definition producer_next :: "'w Env \<Rightarrow> bool \<Rightarrow> ('ac, 'w) Threads \<Rightarrow> ('ac, 'w) Threads option" where
  "producer_next E spurious f = (case producer f of
     NextEvent \<Rightarrow> (case rest_of_batch f of
         [] \<Rightarrow> do {
           (events, sim') \<leftarrow> next_batch E (generator f);
           Some (f\<lparr>generator := sim', rest_of_batch := events\<rparr>)
         }
       | e # es \<Rightarrow> (let n = length (queues (app_state f))
           in if n = 0 then None
              else do {
                q \<leftarrow> nth_opt (queues (app_state f)) (shard_of n e);
                Some (f\<lparr>producer := PushTo (shard_of n e) e (PushLoad e), rest_of_batch := es\<rparr>)
              }))
   | PushTo i e pc \<Rightarrow>
       if push_active pc
       then do {
         q \<leftarrow> nth_opt (queues (app_state f)) i;
         (let (q', pc') = push_step spurious q pc
          in Some (f\<lparr>app_state := (app_state f)\<lparr>queues := (queues (app_state f))[i := q']\<rparr>, producer := PushTo i e pc'\<rparr>))
       }
       else (case pc of
           PushDone (Inr u) \<Rightarrow> Some (f\<lparr>producer := NextEvent\<rparr>)
         | PushDone (Inl y) \<Rightarrow> Some (f\<lparr>producer := CountDropped\<rparr>)
         | _ \<Rightarrow> None)
   | CountDropped \<Rightarrow>
       Some (f\<lparr>app_state := (app_state f)\<lparr>events_dropped := events_dropped (app_state f) + 1\<rparr>, producer := NextEvent\<rparr>))"

definition goto :: "nat \<Rightarrow> 'ac Worker \<Rightarrow> stage \<Rightarrow> ('ac, 'w) Threads \<Rightarrow> ('ac, 'w) Threads" where
  "goto i w st f = f\<lparr>locals := (locals f)[i := w], stages := (stages f)[i := st]\<rparr>"

text \<open>A worker first finishes the loop over the alerts of its last detector call.\<close>

definition record_next :: "nat \<Rightarrow> 'ac Worker \<Rightarrow> stage \<Rightarrow> ('ac, 'w) Threads \<Rightarrow> ('ac, 'w) Threads" where
  "record_next i w st f =
     (if counted w
      then goto i (w\<lparr>pending := tl (pending w), counted := False\<rparr>) st
             (f\<lparr>app_state := store_alert (hd (pending w)) (app_state f)\<rparr>)
      else goto i (w\<lparr>counted := True\<rparr>) st (f\<lparr>app_state := count_alert (app_state f)\<rparr>))"

definition worker_next :: "'ac Libs \<Rightarrow> clocks \<Rightarrow> bool \<Rightarrow> nat \<Rightarrow> ('ac, 'w) Threads \<Rightarrow> ('ac, 'w) Threads option" where
  "worker_next L now spurious i f = do {
     w \<leftarrow> nth_opt (locals f) i;
     st \<leftarrow> nth_opt (stages f) i;
     if pending w \<noteq> [] then Some (record_next i w st f)
     else case st of
       Polling \<Rightarrow> Some (goto i w (PopFor now PopLoad) f)
     | PopFor t pc \<Rightarrow>
         if pop_active pc
         then do {
           q \<leftarrow> nth_opt (queues (app_state f)) i;
           (let (q', pc') = pop_step spurious q pc
            in Some (goto i w (PopFor t pc') (f\<lparr>app_state := (app_state f)\<lparr>queues := (queues (app_state f))[i := q']\<rparr>\<rparr>)))
         }
         else (case pc of
             PopDone (Some e) \<Rightarrow> Some (goto i w (CountEvent t e) f)
           | PopDone None \<Rightarrow> Some (goto i w Polling f)
           | _ \<Rightarrow> None)
     | CountEvent t e \<Rightarrow>
         Some (goto i w (ScanEvent t e)
           (f\<lparr>app_state := (app_state f)\<lparr>events_processed := events_processed (app_state f) + 1\<rparr>\<rparr>))
     | ScanEvent t e \<Rightarrow> do {
         (s, als) \<leftarrow> scan (lib_search L) e (sig w);
         Some (goto i (w\<lparr>sig := s, pending := als\<rparr>) (ObserveEvent t e) f)
       }
     | ObserveEvent t e \<Rightarrow> do {
         (an, als) \<leftarrow> observe (lib_fx L) (lib_ln L) (fst t) e (anomaly w);
         Some (goto i (w\<lparr>anomaly := an, pending := als\<rparr>) (MatchEvent t e) f)
       }
     | MatchEvent t e \<Rightarrow> do {
         (c, als) \<leftarrow> process (snd t) e (cep w);
         Some (goto i (w\<lparr>cep := c, pending := als\<rparr>) Polling f)
       }
   }"

text \<open>Every interleaving, with the number of steps taken.\<close>

inductive threads_reach :: "'ac Libs \<Rightarrow> 'w Env \<Rightarrow> usize \<Rightarrow> instant list \<Rightarrow> 'w \<Rightarrow> nat \<Rightarrow> ('ac, 'w) Threads \<Rightarrow> bool"
  for L E capacity starts w where
  threads_start: "threads_new L capacity starts w = Some f \<Longrightarrow> threads_reach L E capacity starts w 0 f"
| threads_producer: "threads_reach L E capacity starts w k f \<Longrightarrow> producer_next E spurious f = Some f' \<Longrightarrow>
    threads_reach L E capacity starts w (Suc k) f'"
| threads_worker: "threads_reach L E capacity starts w k f \<Longrightarrow> i < length (locals f) \<Longrightarrow>
    worker_next L now spurious i f = Some f' \<Longrightarrow> threads_reach L E capacity starts w (Suc k) f'"

text \<open>Steps of the producer while the workers stand still, without spurious failures.\<close>

fun producer_alone :: "'w Env \<Rightarrow> nat \<Rightarrow> ('ac, 'w) Threads \<Rightarrow> ('ac, 'w) Threads option" where
  "producer_alone E 0 f = Some f"
| "producer_alone E (Suc n) f = (case producer_next E False f of None \<Rightarrow> None | Some f' \<Rightarrow> producer_alone E n f')"

subsection \<open>Each queue on its own\<close>

fun producing :: "nat \<Rightarrow> producer_pc \<Rightarrow> NetworkEvent thread" where
  "producing i (PushTo j e pc) = (if j = i then Pushing e pc else QueueConcurrent.Idle)"
| "producing i p = QueueConcurrent.Idle"

fun consuming :: "stage \<Rightarrow> NetworkEvent thread" where
  "consuming (PopFor t pc) = Popping pc"
| "consuming st = QueueConcurrent.Idle"

definition shard_conf :: "('ac, 'w) Threads \<Rightarrow> nat \<Rightarrow> NetworkEvent conf" where
  "shard_conf f i = \<lparr>shared = queues (app_state f) ! i,
     threads = (\<lambda>t. if t = 0 then producing i (producer f) else if t = 1 then consuming (stages f ! i) else QueueConcurrent.Idle)\<rparr>"

subsection \<open>What a worker still has to do for its event\<close>

definition finish_match :: "'ac Libs \<Rightarrow> clocks \<Rightarrow> NetworkEvent \<Rightarrow> 'ac Worker \<Rightarrow> 'ac Worker option" where
  "finish_match L t e w = do {
     (c, als) \<leftarrow> process (snd t) e (cep w);
     Some (w\<lparr>cep := c, pending := pending w @ als\<rparr>)
   }"

definition finish_observe :: "'ac Libs \<Rightarrow> clocks \<Rightarrow> NetworkEvent \<Rightarrow> 'ac Worker \<Rightarrow> 'ac Worker option" where
  "finish_observe L t e w = do {
     (an, als) \<leftarrow> observe (lib_fx L) (lib_ln L) (fst t) e (anomaly w);
     finish_match L t e (w\<lparr>anomaly := an, pending := pending w @ als\<rparr>)
   }"

definition finish_scan :: "'ac Libs \<Rightarrow> clocks \<Rightarrow> NetworkEvent \<Rightarrow> 'ac Worker \<Rightarrow> 'ac Worker option" where
  "finish_scan L t e w = do {
     (s, als) \<leftarrow> scan (lib_search L) e (sig w);
     finish_observe L t e (w\<lparr>sig := s, pending := pending w @ als\<rparr>)
   }"

fun finish :: "'ac Libs \<Rightarrow> stage \<Rightarrow> 'ac Worker \<Rightarrow> 'ac Worker option" where
  "finish L Polling w = Some w"
| "finish L (PopFor t (PopDone (Some e))) w = finish_scan L t e w"
| "finish L (PopFor t pc) w = Some w"
| "finish L (CountEvent t e) w = finish_scan L t e w"
| "finish L (ScanEvent t e) w = finish_scan L t e w"
| "finish L (ObserveEvent t e) w = finish_observe L t e w"
| "finish L (MatchEvent t e) w = finish_match L t e w"

text \<open>Recording an alert commutes with what is left to do.\<close>

lemma finish_recording:
  assumes "finish L st w = Some v"
  shows "\<exists>as. pending v = pending w @ as \<and> counted v = counted w \<and>
    (\<forall>p b. finish L st (w\<lparr>pending := p, counted := b\<rparr>) = Some (v\<lparr>pending := p @ as, counted := b\<rparr>))"
proof -
  have m: "\<exists>as. pending v = pending w @ as \<and> counted v = counted w \<and>
      (\<forall>p b. finish_match L t e (w\<lparr>pending := p, counted := b\<rparr>) = Some (v\<lparr>pending := p @ as, counted := b\<rparr>))"
    if "finish_match L t e w = Some v" for t e v and w :: "'a Worker"
    using that by (auto simp: finish_match_def split: bind_splits)
  have o: "\<exists>as. pending v = pending w @ as \<and> counted v = counted w \<and>
      (\<forall>p b. finish_observe L t e (w\<lparr>pending := p, counted := b\<rparr>) = Some (v\<lparr>pending := p @ as, counted := b\<rparr>))"
    if o: "finish_observe L t e w = Some v" for t e v and w :: "'a Worker"
  proof -
    obtain an als where an: "observe (lib_fx L) (lib_ln L) (fst t) e (anomaly w) = Some (an, als)"
      and f: "finish_match L t e (w\<lparr>anomaly := an, pending := pending w @ als\<rparr>) = Some v"
      using o by (auto simp: finish_observe_def split: bind_splits)
    from m [OF f] obtain as where as: "pending v = (pending w @ als) @ as" "counted v = counted w"
      "\<And>p b. finish_match L t e (w\<lparr>anomaly := an, pending := p, counted := b\<rparr>) = Some (v\<lparr>pending := p @ as, counted := b\<rparr>)"
      by auto
    have "finish_match L t e (w\<lparr>counted := b, anomaly := an, pending := p\<rparr>) = Some (v\<lparr>pending := p @ as, counted := b\<rparr>)" for p b
    proof -
      have "w\<lparr>counted := b, anomaly := an, pending := p\<rparr> = w\<lparr>anomaly := an, pending := p, counted := b\<rparr>" by simp
      then show ?thesis by (simp only: as(3))
    qed
    with as show ?thesis by (intro exI [of _ "als @ as"]) (simp add: finish_observe_def an)
  qed
  have s: "\<exists>as. pending v = pending w @ as \<and> counted v = counted w \<and>
      (\<forall>p b. finish_scan L t e (w\<lparr>pending := p, counted := b\<rparr>) = Some (v\<lparr>pending := p @ as, counted := b\<rparr>))"
    if s: "finish_scan L t e w = Some v" for t e
  proof -
    obtain d als where d: "scan (lib_search L) e (sig w) = Some (d, als)"
      and f: "finish_observe L t e (w\<lparr>sig := d, pending := pending w @ als\<rparr>) = Some v"
      using s by (auto simp: finish_scan_def split: bind_splits)
    from o [OF f] obtain as where as: "pending v = (pending w @ als) @ as" "counted v = counted w"
      "\<And>p b. finish_observe L t e (w\<lparr>sig := d, pending := p, counted := b\<rparr>) = Some (v\<lparr>pending := p @ as, counted := b\<rparr>)"
      by auto
    have "finish_observe L t e (w\<lparr>counted := b, sig := d, pending := p\<rparr>) = Some (v\<lparr>pending := p @ as, counted := b\<rparr>)" for p b
    proof -
      have "w\<lparr>counted := b, sig := d, pending := p\<rparr> = w\<lparr>sig := d, pending := p, counted := b\<rparr>" by simp
      then show ?thesis by (simp only: as(3))
    qed
    with as show ?thesis by (intro exI [of _ "als @ as"]) (simp add: finish_scan_def d)
  qed
  have "w\<lparr>pending := pending w, counted := counted w\<rparr> = w" by simp
  from assms show ?thesis
    by (cases "(L, st, w)" rule: finish.cases) (auto dest: m o s)
qed

text \<open>All that is left after a pop is what one action of theory \<open>Pipeline\<close> does.\<close>

lemma finish_detect:
  assumes "detect L t e w = Some (v, als)" and "pending w = []"
  shows "finish_scan L t e w = Some (v\<lparr>pending := als\<rparr>)"
  using assms by (auto simp: detect_def finish_scan_def finish_observe_def finish_match_def split: bind_splits)

subsection \<open>The simulation relation\<close>

text \<open>
  What separates a state of the threads from the state of theory \<open>Engine\<close> that explains it: the event
  whose push has not taken effect, the drop and the events not yet counted.
\<close>

fun unrouted :: "producer_pc \<Rightarrow> NetworkEvent list" where
  "unrouted (PushTo i e (PushDone r)) = []"
| "unrouted (PushTo i e pc) = [e]"
| "unrouted p = []"

fun undropped :: "producer_pc \<Rightarrow> u64" where
  "undropped (PushTo i e (PushDone (Inl y))) = 1"
| "undropped CountDropped = 1"
| "undropped p = 0"

fun uncounted :: "stage \<Rightarrow> bool" where
  "uncounted (PopFor t (PopDone (Some e))) \<longleftrightarrow> True"
| "uncounted (CountEvent t e) \<longleftrightarrow> True"
| "uncounted st \<longleftrightarrow> False"

fun before_detection :: "stage \<Rightarrow> bool" where
  "before_detection (PopFor t pc) \<longleftrightarrow> True"
| "before_detection (CountEvent t e) \<longleftrightarrow> True"
| "before_detection (ScanEvent t e) \<longleftrightarrow> True"
| "before_detection st \<longleftrightarrow> False"

definition queues_match :: "usize \<Rightarrow> nat \<Rightarrow> (nat \<Rightarrow> NetworkEvent QueueConcurrent.label list)
    \<Rightarrow> ('ac, 'w) Threads \<Rightarrow> 'ac System \<Rightarrow> bool" where
  "queues_match c n lss f s \<longleftrightarrow> length (queues (app_state f)) = n \<and> length (contents s) = n \<and>
     (\<forall>i < n. spsc_run c 0 1 (lss i) (shard_conf f i) \<and> contents s ! i = items 0 1 (lss i) (shard_conf f i))"

definition workers_match :: "'ac Libs \<Rightarrow> nat \<Rightarrow> ('ac, 'w) Threads \<Rightarrow> 'ac System \<Rightarrow> bool" where
  "workers_match L n f s \<longleftrightarrow> length (locals f) = n \<and> length (stages f) = n \<and> length (workers s) = n \<and>
     (\<forall>i < n. finish L (stages f ! i) (locals f ! i) = Some (workers s ! i) \<and>
       (before_detection (stages f ! i) \<longrightarrow> pending (locals f ! i) = []))"

definition producer_match :: "nat \<Rightarrow> ('ac, 'w) Threads \<Rightarrow> ('ac, 'w) Engine \<Rightarrow> bool" where
  "producer_match n f g \<longleftrightarrow> (\<forall>i e pc. producer f = PushTo i e pc \<longrightarrow> i < n \<and> i = shard_of n e) \<and>
     generator f = simulator g \<and> batch g = unrouted (producer f) @ rest_of_batch f"

definition counters_match :: "('ac, 'w) Threads \<Rightarrow> AppState \<Rightarrow> bool" where
  "counters_match f a \<longleftrightarrow> alerts a = alerts (app_state f) \<and> alerts_fired a = alerts_fired (app_state f) \<and>
     events_dropped a = events_dropped (app_state f) + undropped (producer f) \<and>
     events_processed a = events_processed (app_state f) + of_nat (length (filter uncounted (stages f)))"

definition explains :: "'ac Libs \<Rightarrow> usize \<Rightarrow> nat \<Rightarrow> nat \<Rightarrow> (nat \<Rightarrow> NetworkEvent QueueConcurrent.label list)
    \<Rightarrow> ('ac, 'w) Threads \<Rightarrow> ('ac, 'w) Engine \<Rightarrow> bool" where
  "explains L c n k lss f g \<longleftrightarrow> (\<forall>i < n. length (lss i) \<le> k) \<and> queues_match c n lss f (system g) \<and>
     workers_match L n f (system g) \<and> producer_match n f g \<and> counters_match f (app (system g))"

lemma explainsD:
  assumes "explains L c n k lss f g"
  shows "i < n \<Longrightarrow> length (lss i) \<le> k" "length (queues (app_state f)) = n" "length (contents (system g)) = n"
    "i < n \<Longrightarrow> spsc_run c 0 1 (lss i) (shard_conf f i)" "i < n \<Longrightarrow> contents (system g) ! i = items 0 1 (lss i) (shard_conf f i)"
    "length (locals f) = n" "length (stages f) = n" "length (workers (system g)) = n"
    "i < n \<Longrightarrow> finish L (stages f ! i) (locals f ! i) = Some (workers (system g) ! i)"
    "i < n \<Longrightarrow> before_detection (stages f ! i) \<Longrightarrow> pending (locals f ! i) = []"
    "queues_match c n lss f (system g)" "workers_match L n f (system g)" "producer_match n f g"
    "counters_match f (app (system g))"
  using assms by (simp_all add: explains_def queues_match_def workers_match_def)

text \<open>A step of one thread concerns one queue.\<close>

lemma queues_match_upd:
  assumes "queues_match c n lss f s" and "i < n" and "spsc_run c 0 1 (lss i @ [l]) (shard_conf f' i)"
    and "\<And>j. j < n \<Longrightarrow> j \<noteq> i \<Longrightarrow> shard_conf f' j = shard_conf f j"
    and "contents s' = (contents s)[i := items 0 1 (lss i @ [l]) (shard_conf f' i)]" and "length (queues (app_state f')) = n"
  shows "queues_match c n (lss(i := lss i @ [l])) f' s'"
  using assms by (auto simp: queues_match_def nth_list_update)

lemma queues_match_silent:
  assumes m: "queues_match c n lss f s" and i: "i < n" and "spsc_run c 0 1 (lss i @ [l]) (shard_conf f' i)"
    and "\<And>j. j < n \<Longrightarrow> j \<noteq> i \<Longrightarrow> shard_conf f' j = shard_conf f j"
    and it: "items 0 1 (lss i @ [l]) (shard_conf f' i) = items 0 1 (lss i) (shard_conf f i)"
    and "contents s' = contents s" and "length (queues (app_state f')) = n"
  shows "queues_match c n (lss(i := lss i @ [l])) f' s'"
proof -
  have "contents s ! i = items 0 1 (lss i) (shard_conf f i)" using m i by (simp add: queues_match_def)
  then have "contents s' = (contents s)[i := items 0 1 (lss i @ [l]) (shard_conf f' i)]"
    unfolding it assms(6) by (metis list_update_id)
  with assms show ?thesis by (intro queues_match_upd)
qed

lemma queues_match_same:
  assumes "queues_match c n lss f s" and "\<And>j. j < n \<Longrightarrow> shard_conf f' j = shard_conf f j" and "contents s' = contents s"
    and "length (queues (app_state f')) = n"
  shows "queues_match c n lss f' s'"
  using assms by (simp add: queues_match_def)

lemma workers_match_upd:
  assumes "workers_match L n f s" and "i < n" and "locals f' = (locals f)[i := w]" and "stages f' = (stages f)[i := st]"
    and "workers s' = (workers s)[i := v]" and "finish L st w = Some v" and "before_detection st \<Longrightarrow> pending w = []"
  shows "workers_match L n f' s'"
  using assms by (auto simp: workers_match_def nth_list_update)

lemma filter_upd:
  "i < length xs \<Longrightarrow> length (filter P (xs[i := y])) + (if P (xs ! i) then 1 else 0) =
    length (filter P xs) + (if P y then 1 else 0)"
proof (induction xs arbitrary: i)
  case (Cons x xs)
  then show ?case by (cases i) auto
qed simp

lemma length_spsc: "explains L c n k lss f g \<Longrightarrow> i < n \<Longrightarrow> k < 2 ^ 62 \<Longrightarrow> length (lss i) < 2 ^ 62"
  using explainsD(1) by (metis le_less_trans)

lemma length_upd: "\<forall>i < n. length (lss i) \<le> k \<Longrightarrow> \<forall>j < n. length ((lss(i := lss i @ [l])) j) \<le> Suc k"
  by (auto simp: le_SucI)

lemma shard_conf_eqI:
  assumes "queues (app_state f') ! i = queues (app_state f) ! i" and "producing i (producer f') = producing i (producer f)"
    and "consuming (stages f' ! i) = consuming (stages f ! i)"
  shows "shard_conf f' i = shard_conf f i"
  using assms by (simp add: shard_conf_def cong: if_cong)

lemma shard_conf_threads [simp]:
  "shared (shard_conf f i) = queues (app_state f) ! i"
  "threads (shard_conf f i) 0 = producing i (producer f)" "threads (shard_conf f i) (Suc 0) = consuming (stages f ! i)"
  by (simp_all add: shard_conf_def)

lemma shard_conf_producer:
  assumes "shared c' = queues (app_state f') ! i" and "producing i (producer f') = threads c' 0"
    and "threads c' = (threads (shard_conf f i))(0 := threads c' 0)" and "stages f' ! i = stages f ! i"
  shows "shard_conf f' i = c'"
proof -
  have "threads (shard_conf f' i) = threads c'"
    by (subst assms(3)) (use assms(2,4) in \<open>auto simp: shard_conf_def\<close>)
  then show ?thesis using assms(1) by simp
qed

lemma shard_conf_worker:
  assumes "shared c' = queues (app_state f') ! i" and "consuming (stages f' ! i) = threads c' 1"
    and "threads c' = (threads (shard_conf f i))(1 := threads c' 1)" and "producer f' = producer f"
  shows "shard_conf f' i = c'"
proof -
  have "threads (shard_conf f' i) = threads c'"
    by (subst assms(3)) (use assms(2,4) in \<open>auto simp: shard_conf_def\<close>)
  then show ?thesis using assms(1) by simp
qed

subsection \<open>The producer\<close>

text \<open>\<open>k\<close> bounds the steps at each queue, \<open>m\<close> the actions of the explaining engine; \<open>cs\<close> is what its queues hold.\<close>

definition tracked :: "'ac Libs \<Rightarrow> 'w Env \<Rightarrow> usize \<Rightarrow> instant list \<Rightarrow> 'w \<Rightarrow> nat \<Rightarrow> nat \<Rightarrow> NetworkEvent list list
    \<Rightarrow> ('ac, 'w) Threads \<Rightarrow> bool" where
  "tracked L E c starts w k m cs f \<longleftrightarrow> (\<exists>lss g hist. engine_reach L E c starts w g hist \<and>
     explains L c (length starts) k lss f g \<and> length hist \<le> m \<and> contents (system g) = cs)"

definition explained :: "'ac Libs \<Rightarrow> 'w Env \<Rightarrow> usize \<Rightarrow> instant list \<Rightarrow> 'w \<Rightarrow> nat \<Rightarrow> ('ac, 'w) Threads \<Rightarrow> bool" where
  "explained L E c starts w k f \<longleftrightarrow> (\<exists>cs. tracked L E c starts w k k cs f)"

lemma trackedI:
  "engine_reach L E c starts w g hist \<Longrightarrow> explains L c (length starts) k lss f g \<Longrightarrow> length hist \<le> m \<Longrightarrow>
    contents (system g) = cs \<Longrightarrow> tracked L E c starts w k m cs f"
  by (auto simp: tracked_def)

lemma trackedE:
  assumes "tracked L E c starts w k m cs f"
  obtains lss g hist where "engine_reach L E c starts w g hist" and "explains L c (length starts) k lss f g" and "length hist \<le> m"
    and "contents (system g) = cs"
  using assms by (auto simp: tracked_def)

lemma explainedI:
  "engine_reach L E c starts w g hist \<Longrightarrow> explains L c (length starts) k lss f g \<Longrightarrow> length hist \<le> k \<Longrightarrow> explained L E c starts w k f"
  by (auto simp: explained_def tracked_def)

lemma explains_mono: "explains L c n k lss f g \<Longrightarrow> k \<le> k' \<Longrightarrow> explains L c n k' lss f g"
  by (auto simp: explains_def intro: le_trans)

lemma tracked_mono: "tracked L E c starts w k m cs f \<Longrightarrow> k \<le> k' \<Longrightarrow> m \<le> m' \<Longrightarrow> tracked L E c starts w k' m' cs f"
  unfolding tracked_def by (blast intro: explains_mono le_trans)

lemma tracked_explained: "tracked L E c starts w k m cs f \<Longrightarrow> k \<le> k' \<Longrightarrow> m \<le> k' \<Longrightarrow> explained L E c starts w k' f"
  unfolding explained_def by (blast intro: tracked_mono)

text \<open>Steps that leave the queues, the workers and the explaining engine as they are.\<close>

lemma explains_producer:
  assumes sim: "explains L c n k lss f g" and f': "locals f' = locals f" "stages f' = stages f"
    and q: "queues_match c n lss' f' (system g)" and k: "\<forall>i < n. length (lss' i) \<le> Suc k"
    and p: "producer_match n f' g" and a: "alerts (app_state f') = alerts (app_state f)" "alerts_fired (app_state f') = alerts_fired (app_state f)"
      "events_processed (app_state f') = events_processed (app_state f)"
      "events_dropped (app_state f') + undropped (producer f') = events_dropped (app_state f) + undropped (producer f)"
  shows "explains L c n (Suc k) lss' f' g"
  using explainsD(12,14) [OF sim] q k p
  by (simp add: explains_def workers_match_def counters_match_def f' a)

lemma producer_draws:
  assumes cfg: "config_ok L c starts" and env: "env_ok E" and r: "engine_reach L E c starts w g hist" and h: "length hist \<le> k"
    and sim: "explains L c (length starts) k lss f g" and p: "producer f = NextEvent" "rest_of_batch f = []"
  shows "\<exists>f'. producer_next E spurious f = Some f' \<and> explained L E c starts w (Suc k) f'"
proof -
  have g: "generator f = simulator g" "batch g = []" using explainsD(13) [OF sim] p by (simp_all add: producer_match_def)
  obtain es sim' where n: "next_batch E (simulator g) = Some (es, sim')" by (rule next_batch_batch_parts [OF env])
  let ?f = "f\<lparr>generator := sim', rest_of_batch := es\<rparr>" and ?g = "g\<lparr>simulator := sim', batch := es\<rparr>"
  have "producer_next E spurious f = Some ?f" using p n g(1) by (simp add: producer_next_def)
  moreover have "producer_step L E g = Some (?g, Drawn es)" using n g(2) by (simp add: producer_step_def)
  with r have r': "engine_reach L E c starts w ?g (hist @ [Drawn es])" by (rule engine_producer)
  moreover have "queues_match c (length starts) lss ?f (system g)"
    by (rule queues_match_same [OF explainsD(11) [OF sim] shard_conf_eqI]) (use explainsD(2) [OF sim] p in simp_all)
  then have "explains L c (length starts) (Suc k) lss ?f ?g"
    using sim p by (auto simp: explains_def workers_match_def producer_match_def counters_match_def intro: le_SucI)
  ultimately show ?thesis using h explainedI [of L E c starts w ?g "hist @ [Drawn es]"] by auto
qed

lemma producer_calls_push:
  assumes cfg: "config_ok L c starts" and r: "engine_reach L E c starts w g hist" and h: "length hist \<le> k" "k < 2 ^ 62"
    and sim: "explains L c (length starts) k lss f g" and p: "producer f = NextEvent" "rest_of_batch f = e # es"
  shows "\<exists>f'. producer_next E spurious f = Some f' \<and> explained L E c starts w (Suc k) f'"
proof -
  let ?n = "length starts" let ?i = "shard_of ?n e"
  note S = explainsD [OF sim]
  have n: "0 < ?n" using cfg by (simp add: config_ok_def)
  then have i: "?i < ?n" by (simp add: shard_of_def)
  let ?f = "f\<lparr>producer := PushTo ?i e (PushLoad e), rest_of_batch := es\<rparr>"
  have f': "producer_next E spurious f = Some ?f" using p n i by (simp add: producer_next_def S(2) nth_opt_def Let_def)
  have b: "length (lss ?i) < 2 ^ 62" by (rule length_spsc [OF sim i h(2)])
  have conf: "shard_conf ?f ?i = (shard_conf f ?i)\<lparr>threads := (threads (shard_conf f ?i))(0 := Pushing e (PushLoad e))\<rparr>"
    by (rule shard_conf_producer) simp_all
  have other: "shard_conf ?f j = shard_conf f j" if "j \<noteq> ?i" for j
    using that p by (intro shard_conf_eqI) auto
  obtain l where l: "spsc_run c 0 1 (lss ?i @ [l]) (shard_conf ?f ?i)"
    "items 0 1 (lss ?i @ [l]) (shard_conf ?f ?i) = items 0 1 (lss ?i) (shard_conf f ?i)"
    using spsc_call(1) [OF S(4) [OF i] b _ conf] p by auto
  have q: "queues_match c ?n (lss(?i := lss ?i @ [l])) ?f (system g)"
    by (rule queues_match_silent [OF S(11) i l(1) other l(2)]) (use S(2) in simp_all)
  have "explains L c ?n (Suc k) (lss(?i := lss ?i @ [l])) ?f g"
    by (rule explains_producer [OF sim _ _ q]) (use S(13) p i S(1) in \<open>auto simp: producer_match_def le_SucI\<close>)
  with r h f' show ?thesis by (auto intro: explainedI)
qed

lemma producer_returns:
  assumes r: "engine_reach L E c starts w g hist" and h: "length hist \<le> k" "k < 2 ^ 62"
    and sim: "explains L c (length starts) k lss f g" and p: "producer f = PushTo i e (PushDone x)"
  shows "\<exists>f'. producer_next E spurious f = Some f' \<and> explained L E c starts w (Suc k) f'"
proof -
  let ?n = "length starts"
  note S = explainsD [OF sim]
  have i: "i < ?n" using S(13) p by (simp add: producer_match_def)
  let ?f = "f\<lparr>producer := (case x of Inl y \<Rightarrow> CountDropped | Inr u \<Rightarrow> NextEvent)\<rparr>"
  have f': "producer_next E spurious f = Some ?f" using p by (cases x) (simp_all add: producer_next_def)
  have b: "length (lss i) < 2 ^ 62" by (rule length_spsc [OF sim i h(2)])
  have conf: "shard_conf ?f i = (shard_conf f i)\<lparr>threads := (threads (shard_conf f i))(0 := QueueConcurrent.Idle)\<rparr>"
    by (rule shard_conf_producer) (simp_all split: sum.split)
  obtain l where l: "spsc_run c 0 1 (lss i @ [l]) (shard_conf ?f i)"
    "items 0 1 (lss i @ [l]) (shard_conf ?f i) = items 0 1 (lss i) (shard_conf f i)"
    using spsc_return(1) [OF S(4) [OF i] b _ conf] p by auto
  have other: "shard_conf ?f j = shard_conf f j" if "j \<noteq> i" for j
    using that p by (intro shard_conf_eqI) (auto split: sum.split)
  have q: "queues_match c ?n (lss(i := lss i @ [l])) ?f (system g)"
    by (rule queues_match_silent [OF S(11) i l(1) other l(2)]) (use S(2) in simp_all)
  have "explains L c ?n (Suc k) (lss(i := lss i @ [l])) ?f g"
    by (rule explains_producer [OF sim _ _ q])
      (use S(13) p i S(1) in \<open>auto simp: producer_match_def le_SucI split: sum.split\<close>)
  with r h f' show ?thesis by (auto intro: explainedI)
qed

lemma producer_counts_drop:
  assumes r: "engine_reach L E c starts w g hist" and h: "length hist \<le> k"
    and sim: "explains L c (length starts) k lss f g" and p: "producer f = CountDropped"
  shows "\<exists>f'. producer_next E spurious f = Some f' \<and> explained L E c starts w (Suc k) f'"
proof -
  note S = explainsD [OF sim]
  let ?f = "f\<lparr>app_state := (app_state f)\<lparr>events_dropped := events_dropped (app_state f) + 1\<rparr>, producer := NextEvent\<rparr>"
  have "producer_next E spurious f = Some ?f" using p by (simp add: producer_next_def)
  moreover have q: "queues_match c (length starts) lss ?f (system g)"
    by (rule queues_match_same [OF S(11) shard_conf_eqI]) (use S(2) p in simp_all)
  have "explains L c (length starts) (Suc k) lss ?f g"
    by (rule explains_producer [OF sim _ _ q]) (use S(13) p S(1) in \<open>auto simp: producer_match_def le_SucI\<close>)
  ultimately show ?thesis using r h by (auto intro: explainedI)
qed

text \<open>The step at which a push takes effect is the action of the explaining engine.\<close>

lemma producer_routes:
  assumes cfg: "config_ok L c starts" and r: "engine_reach L E c starts w g hist" and env: "env_ok E" and b: "batch g = e # es"
  obtains s' l where "engine_reach L E c starts w (g\<lparr>system := s', batch := es\<rparr>) (hist @ [Did l])"
    and "effect L (length starts) c (system g) l s'" and "l = Accepted e \<or> l = Dropped e"
proof -
  have reach: "reach L c starts (system g) (labels hist)"
    using engine_reach_inv [OF r cfg env] by (simp add: engine_inv_def)
  obtain s' l where p: "perform L (Produce e) (system g) = Some (s', l)" and eff: "effect L (length starts) c (system g) l s'"
    by (rule reach_step [OF cfg reach, of "Produce e"]) simp
  have "producer_step L E g = Some (g\<lparr>system := s', batch := es\<rparr>, Did l)"
    using b p by (simp add: producer_step_def del: perform.simps)
  with r have "engine_reach L E c starts w (g\<lparr>system := s', batch := es\<rparr>) (hist @ [Did l])" by (rule engine_producer)
  then show ?thesis using eff perform_label(1) [OF p] by (rule that)
qed

lemma effect_fields:
  "effect L n c s (Accepted e) s' \<Longrightarrow> workers s' = workers s \<and> alerts (app s') = alerts (app s) \<and>
     alerts_fired (app s') = alerts_fired (app s) \<and> events_dropped (app s') = events_dropped (app s) \<and>
     events_processed (app s') = events_processed (app s)"
  "effect L n c s (Dropped e) s' \<Longrightarrow> workers s' = workers s \<and> alerts (app s') = alerts (app s) \<and>
     alerts_fired (app s') = alerts_fired (app s) \<and> events_dropped (app s') = events_dropped (app s) + 1 \<and>
     events_processed (app s') = events_processed (app s)"
  "effect L n c s (Pipeline.Idle i) s' \<Longrightarrow> workers s' = workers s \<and> alerts (app s') = alerts (app s) \<and>
     alerts_fired (app s') = alerts_fired (app s) \<and> events_dropped (app s') = events_dropped (app s) \<and>
     events_processed (app s') = events_processed (app s)"
  "effect L n c s (Handled i t e als) s' \<Longrightarrow> alerts (app s') = alerts (app s) \<and>
     alerts_fired (app s') = alerts_fired (app s) \<and> events_dropped (app s') = events_dropped (app s) \<and>
     events_processed (app s') = events_processed (app s) + 1"
proof -
  have q: "alerts a = alerts b \<and> alerts_fired a = alerts_fired b \<and> events_dropped a = events_dropped b \<and>
      events_processed a = events_processed b" if "a = b\<lparr>queues := qs\<rparr>" for a b :: AppState and qs using that by simp
  have d: "alerts a = alerts b \<and> alerts_fired a = alerts_fired b \<and> events_dropped a = events_dropped b + 1 \<and>
      events_processed a = events_processed b" if "a = b\<lparr>queues := qs, events_dropped := events_dropped b + 1\<rparr>"
    for a b :: AppState and qs using that by simp
  have h: "alerts a = alerts b \<and> alerts_fired a = alerts_fired b \<and> events_dropped a = events_dropped b \<and>
      events_processed a = events_processed b + 1" if "a = b\<lparr>queues := qs, events_processed := events_processed b + 1\<rparr>"
    for a b :: AppState and qs using that by simp
  show "effect L n c s (Accepted e) s' \<Longrightarrow> workers s' = workers s \<and> alerts (app s') = alerts (app s) \<and>
     alerts_fired (app s') = alerts_fired (app s) \<and> events_dropped (app s') = events_dropped (app s) \<and>
     events_processed (app s') = events_processed (app s)"
    unfolding effect.simps Let_def using q by blast
  show "effect L n c s (Dropped e) s' \<Longrightarrow> workers s' = workers s \<and> alerts (app s') = alerts (app s) \<and>
     alerts_fired (app s') = alerts_fired (app s) \<and> events_dropped (app s') = events_dropped (app s) + 1 \<and>
     events_processed (app s') = events_processed (app s)"
    unfolding effect.simps Let_def using d by blast
  show "effect L n c s (Pipeline.Idle i) s' \<Longrightarrow> workers s' = workers s \<and> alerts (app s') = alerts (app s) \<and>
     alerts_fired (app s') = alerts_fired (app s) \<and> events_dropped (app s') = events_dropped (app s) \<and>
     events_processed (app s') = events_processed (app s)"
    unfolding effect.simps using q by blast
  show "effect L n c s (Handled i t e als) s' \<Longrightarrow> alerts (app s') = alerts (app s) \<and>
     alerts_fired (app s') = alerts_fired (app s) \<and> events_dropped (app s') = events_dropped (app s) \<and>
     events_processed (app s') = events_processed (app s) + 1"
    unfolding effect.simps using h by blast
qed

lemma producer_push_step:
  assumes cfg: "config_ok L c starts" and env: "env_ok E" and r: "engine_reach L E c starts w g hist" and h: "length hist \<le> k" "k < 2 ^ 62"
    and sim: "explains L c (length starts) k lss f g" and p: "producer f = PushTo i e pc" and act: "push_active pc"
  shows "\<exists>f'. producer_next E spurious f = Some f' \<and> explained L E c starts w (Suc k) f'"
proof -
  let ?n = "length starts"
  note S = explainsD [OF sim]
  have i: "i < ?n" and sh: "i = shard_of ?n e" using S(13) p by (simp_all add: producer_match_def)
  obtain q' pc' where st: "push_step spurious (queues (app_state f) ! i) pc = (q', pc')" by fastforce
  let ?f = "f\<lparr>app_state := (app_state f)\<lparr>queues := (queues (app_state f))[i := q']\<rparr>, producer := PushTo i e pc'\<rparr>"
  have f': "producer_next E spurious f = Some ?f" using p act st i by (simp add: producer_next_def nth_opt_def S(2))
  have b: "length (lss i) < 2 ^ 62" by (rule length_spsc [OF sim i h(2)])
  have t: "threads (shard_conf f i) 0 = Pushing e pc" using p by simp
  have conf: "shard_conf ?f i = \<lparr>shared = q', threads = (threads (shard_conf f i))(0 := Pushing e pc')\<rparr>"
    by (rule shard_conf_producer) (use i S(2) in simp_all)
  have other: "shard_conf ?f j = shard_conf f j" if "j \<noteq> i" for j using that p by (intro shard_conf_eqI) auto
  have len: "length (queues (app_state ?f)) = ?n" using S(2) by simp
  have ks: "\<forall>j < ?n. length ((lss(i := lss i @ [l])) j) \<le> Suc k" for l by (rule length_upd) (use S(1) in blast)
  have active: "unrouted (producer f) = [e]" "undropped (producer f) = 0" using p act by (cases pc; simp)+
  have bg: "batch g = e # rest_of_batch f" and gen: "generator f = simulator g"
    using S(13) active by (simp_all add: producer_match_def)
  obtain s' l where r': "engine_reach L E c starts w (g\<lparr>system := s', batch := rest_of_batch f\<rparr>) (hist @ [Did l])"
    and eff: "effect L ?n c (system g) l s'" and l: "l = Accepted e \<or> l = Dropped e"
    by (rule producer_routes [OF cfg r env bg])
  let ?g = "g\<lparr>system := s', batch := rest_of_batch f\<rparr>"
  from S(4) [OF i] b t act st [folded shard_conf_threads(1) [of f i]] conf show ?thesis
  proof (cases rule: spsc_push_act)
    case (silent x)
    have q: "queues_match c ?n (lss(i := lss i @ [x])) ?f (system g)"
      by (rule queues_match_silent [OF S(11) i silent(1) other silent(3) refl len])
    have "unrouted (PushTo i e pc') = [e]" "undropped (PushTo i e pc') = 0" using silent(2) by (cases pc'; simp)+
    then have "explains L c ?n (Suc k) (lss(i := lss i @ [x])) ?f g"
      by (intro explains_producer [OF sim _ _ q ks]) (use active i sh bg gen in \<open>simp_all add: producer_match_def\<close>)
    with r h(1) f' show ?thesis by (auto intro: explainedI)
  next
    case (room x)
    then have "length (contents (system g) ! i) < unat c" using S(5) [OF i] by simp
    then have lA: "l = Accepted e" using l eff sh by (auto simp: Let_def)
    have "queues_match c ?n (lss(i := lss i @ [x])) ?f s'"
      by (rule queues_match_upd [OF S(11) i room(1) other _ len])
        (use eff S(5) [OF i] sh room(4) in \<open>simp_all add: lA Let_def\<close>)
    then have "explains L c ?n (Suc k) (lss(i := lss i @ [x])) ?f ?g"
      using effect_fields(1) [OF eff [unfolded lA]] S(12,14) active room(2) i sh gen ks [of x]
      by (simp add: explains_def workers_match_def producer_match_def counters_match_def)
    with r' h(1) f' show ?thesis by (auto intro!: explainedI)
  next
    case (full x)
    then have "\<not> length (contents (system g) ! i) < unat c" using S(5) [OF i] by simp
    then have lD: "l = Dropped e" using l eff sh by (auto simp: Let_def)
    have "queues_match c ?n (lss(i := lss i @ [x])) ?f s'"
      by (rule queues_match_silent [OF S(11) i full(1) other full(4) _ len]) (use eff in \<open>simp_all add: lD Let_def\<close>)
    then have "explains L c ?n (Suc k) (lss(i := lss i @ [x])) ?f ?g"
      using effect_fields(2) [OF eff [unfolded lD]] S(12,14) active full(2) i sh gen ks [of x]
      by (simp add: explains_def workers_match_def producer_match_def counters_match_def)
    with r' h(1) f' show ?thesis by (auto intro!: explainedI)
  qed
qed

lemma producer_next_explained:
  assumes cfg: "config_ok L c starts" and env: "env_ok E" and ex: "explained L E c starts w k f" and k: "k < 2 ^ 62"
  shows "\<exists>f'. producer_next E spurious f = Some f' \<and> explained L E c starts w (Suc k) f'"
proof -
  obtain lss g hist where r: "engine_reach L E c starts w g hist" and sim: "explains L c (length starts) k lss f g"
    and h: "length hist \<le> k" using ex by (auto simp: explained_def tracked_def)
  show ?thesis
  proof (cases "producer f")
    case NextEvent
    with producer_draws [OF cfg env r h sim] producer_calls_push [OF cfg r h k sim] show ?thesis
      by (cases "rest_of_batch f") blast+
  next
    case (PushTo i e pc)
    have i: "i < length starts" using explainsD(13) [OF sim] PushTo by (simp add: producer_match_def)
    have "pc \<noteq> PushPanic"
      using spsc_thread_ok(1) [OF explainsD(4) [OF sim i], of 0 e pc] length_spsc [OF sim i k] PushTo by simp
    then consider "push_active pc" | x where "pc = PushDone x" by (cases pc) auto
    then show ?thesis
      using producer_push_step [OF cfg env r h k sim PushTo] producer_returns [OF r h k sim] PushTo by cases blast+
  next
    case CountDropped
    then show ?thesis using producer_counts_drop [OF r h sim] by blast
  qed
qed

subsection \<open>The workers\<close>

lemma explains_worker:
  assumes sim: "explains L c n k lss f g" and i: "i < n"
    and f': "locals f' = (locals f)[i := w]" "stages f' = (stages f)[i := st]" "producer f' = producer f"
      "generator f' = generator f" "rest_of_batch f' = rest_of_batch f"
    and q: "queues_match c n lss' f' s'" and ks: "\<forall>j < n. length (lss' j) \<le> k'"
    and v: "workers s' = (workers (system g))[i := v]" "finish L st w = Some v" "before_detection st \<Longrightarrow> pending w = []"
    and a: "alerts (app s') = alerts (app_state f')" "alerts_fired (app s') = alerts_fired (app_state f')"
      "events_dropped (app_state f') = events_dropped (app_state f)" "events_dropped (app s') = events_dropped (app (system g))"
      "events_processed (app s') + events_processed (app_state f) + (if uncounted (stages f ! i) then 1 else 0) =
       events_processed (app (system g)) + events_processed (app_state f') + (if uncounted st then 1 else 0)"
  shows "explains L c n k' lss' f' (g\<lparr>system := s'\<rparr>)"
proof -
  note S = explainsD [OF sim]
  have w: "workers_match L n f' s'" by (rule workers_match_upd [OF S(12) i f'(1,2) v])
  define u0 u1 m0 m1 :: u64 where "u0 = (if uncounted (stages f ! i) then 1 else 0)" and "u1 = (if uncounted st then 1 else 0)"
    and "m0 = of_nat (length (filter uncounted (stages f)))" and "m1 = of_nat (length (filter uncounted (stages f')))"
  note u = this
  have "m1 + u0 = m0 + u1"
    using arg_cong [OF filter_upd [of i "stages f" uncounted st], of "of_nat :: nat \<Rightarrow> u64"] S(7) i f'(2)
    by (simp add: u split: if_splits)
  moreover have "events_processed (app (system g)) = events_processed (app_state f) + m0"
    using S(14) by (simp add: counters_match_def u)
  moreover note a(5) [folded u(1,2)]
  ultimately have "u0 + events_processed (app s') = (m0 + u1) + events_processed (app_state f')" and "m0 + u1 = u0 + m1"
    by (simp_all add: algebra_simps)
  then have "events_processed (app s') = events_processed (app_state f') + m1" by (simp add: algebra_simps)
  then have "counters_match f' (app s')" using S(14) a(1-4) f'(3) by (simp add: counters_match_def u)
  moreover have "producer_match n f' (g\<lparr>system := s'\<rparr>)" using S(13) f'(3-5) by (simp add: producer_match_def)
  ultimately show ?thesis using w q ks by (simp add: explains_def)
qed

text \<open>The same when the explaining engine does nothing.\<close>

lemma explains_worker_alone:
  assumes sim: "explains L c n k lss f g" and i: "i < n"
    and f': "locals f' = (locals f)[i := w]" "stages f' = (stages f)[i := st]" "producer f' = producer f"
      "generator f' = generator f" "rest_of_batch f' = rest_of_batch f"
    and q: "queues_match c n lss' f' (system g)" and ks: "\<forall>j < n. length (lss' j) \<le> k'"
    and v: "finish L st w = finish L (stages f ! i) (locals f ! i)" "before_detection st \<Longrightarrow> pending w = []"
    and a: "alerts (app_state f') = alerts (app_state f)" "alerts_fired (app_state f') = alerts_fired (app_state f)"
      "events_dropped (app_state f') = events_dropped (app_state f)"
      "events_processed (app_state f') + (if uncounted st then 1 else 0) =
       events_processed (app_state f) + (if uncounted (stages f ! i) then 1 else 0)"
  shows "explains L c n k' lss' f' g"
proof -
  note S = explainsD [OF sim]
  have "explains L c n k' lss' f' (g\<lparr>system := system g\<rparr>)"
    by (rule explains_worker [OF sim i f' q ks, of "workers (system g) ! i"])
      (use v S(9) [OF i] S(14) a in \<open>simp_all add: counters_match_def algebra_simps split: if_splits\<close>)
  then show ?thesis by simp
qed

lemma worker_acts:
  assumes cfg: "config_ok L c starts" and env: "env_ok E" and r: "engine_reach L E c starts w g hist"
    and a: "worker_action a" "enabled a (system g)"
  obtains s' l where "engine_reach L E c starts w (g\<lparr>system := s'\<rparr>) (hist @ [Did l])"
    and "perform L a (system g) = Some (s', l)" and "effect L (length starts) c (system g) l s'"
proof -
  have reach: "reach L c starts (system g) (labels hist)"
    using engine_reach_inv [OF r cfg env] by (simp add: engine_inv_def)
  obtain s' l where p: "perform L a (system g) = Some (s', l)" and eff: "effect L (length starts) c (system g) l s'"
    by (rule reach_step [OF cfg reach a(2)])
  have "worker_step L a g = Some (g\<lparr>system := s'\<rparr>, Did l)" using p by (simp add: worker_step_def)
  from engine_worker [OF r a this] p eff show ?thesis by (rule that)
qed

text \<open>Recording an alert.\<close>

lemma worker_records:
  assumes cfg: "config_ok L c starts" and env: "env_ok E" and r: "engine_reach L E c starts w g hist" and h: "length hist \<le> m"
    and sim: "explains L c (length starts) k lss f g" and i: "i < length starts" and p: "pending (locals f ! i) \<noteq> []"
  shows "tracked L E c starts w k (Suc m) (contents (system g)) (record_next i (locals f ! i) (stages f ! i) f)"
proof -
  let ?n = "length starts" let ?w = "locals f ! i" let ?v = "workers (system g) ! i"
  note S = explainsD [OF sim]
  obtain as where as: "pending ?v = pending ?w @ as" "counted ?v = counted ?w"
    "\<And>p b. finish L (stages f ! i) (?w\<lparr>pending := p, counted := b\<rparr>) = Some (?v\<lparr>pending := p @ as, counted := b\<rparr>)"
    using finish_recording [OF S(9) [OF i]] by blast
  have ks: "\<forall>j < ?n. length (lss j) \<le> k" using S(1) by simp
  have late: "\<not> before_detection (stages f ! i)" using S(10) [OF i] p by blast
  define a where "a = (if counted ?w then Store i else Count i)"
  have en: "worker_action a" "enabled a (system g)" using p as(1,2) i S(8) by (simp_all add: a_def)
  obtain s' l where r': "engine_reach L E c starts w (g\<lparr>system := s'\<rparr>) (hist @ [Did l])"
    and pf: "perform L a (system g) = Some (s', l)"
    by (rule worker_acts [OF cfg env r en])
  let ?f = "record_next i ?w (stages f ! i) f"
  define w' where "w' = (if counted ?w then ?w\<lparr>pending := tl (pending ?w), counted := False\<rparr> else ?w\<lparr>counted := True\<rparr>)"
  define v' where "v' = (if counted ?w then ?v\<lparr>pending := tl (pending ?v), counted := False\<rparr> else ?v\<lparr>counted := True\<rparr>)"
  have fin: "finish L (stages f ! i) w' = Some v'"
    using as(3) [of False "tl (pending ?w)"] as(3) [of True "pending ?w"] as(1) p by (simp add: w'_def v'_def)
  have f': "locals ?f = (locals f)[i := w']" "stages ?f = (stages f)[i := stages f ! i]" "producer ?f = producer f"
    "generator ?f = generator f" "rest_of_batch ?f = rest_of_batch f"
    by (simp_all add: record_next_def goto_def w'_def)
  have s': "app s' = (if counted ?w then store_alert (hd (pending ?w)) (app (system g)) else count_alert (app (system g)))"
    "workers s' = (workers (system g))[i := v']"
    using pf as(1) p by (auto simp: a_def v'_def Let_def)
  have a': "app_state ?f = (if counted ?w then store_alert (hd (pending ?w)) (app_state f) else count_alert (app_state f))"
    by (simp add: record_next_def goto_def)
  have "queues_match c ?n lss ?f s'"
    by (rule queues_match_same [OF S(11) shard_conf_eqI]) (use S(2) f' s'(1) a' in \<open>simp_all add: contents_def\<close>)
  then have "explains L c ?n k lss ?f (g\<lparr>system := s'\<rparr>)"
    by (rule explains_worker [OF sim i f' _ ks s'(2) fin])
      (use S(14) late s'(1) a' in \<open>auto simp: counters_match_def store_alert_def count_alert_def Let_def\<close>)
  with r' show ?thesis by (rule trackedI) (use h s'(1) in \<open>simp_all add: contents_def\<close>)
qed

text \<open>Steps that touch neither a queue nor the explaining engine.\<close>

lemma worker_moves:
  assumes r: "engine_reach L E c starts w g hist" and h: "length hist \<le> m"
    and sim: "explains L c (length starts) k lss f g" and i: "i < length starts"
    and q: "queues b = queues (app_state f)" and st: "consuming st = consuming (stages f ! i)"
    and v: "finish L st x = finish L (stages f ! i) (locals f ! i)" "before_detection st \<Longrightarrow> pending x = []"
    and a: "alerts b = alerts (app_state f)" "alerts_fired b = alerts_fired (app_state f)" "events_dropped b = events_dropped (app_state f)"
      "events_processed b + (if uncounted st then 1 else 0) =
       events_processed (app_state f) + (if uncounted (stages f ! i) then 1 else 0)"
  shows "tracked L E c starts w k m (contents (system g)) (goto i x st (f\<lparr>app_state := b\<rparr>))"
proof -
  let ?f = "goto i x st (f\<lparr>app_state := b\<rparr>)"
  note S = explainsD [OF sim]
  have "consuming (stages ?f ! j) = consuming (stages f ! j)" for j
    using st i S(7) by (cases "j = i") (simp_all add: goto_def)
  then have "queues_match c (length starts) lss ?f (system g)"
    by (intro queues_match_same [OF S(11) shard_conf_eqI]) (use S(2) q in \<open>simp_all add: goto_def\<close>)
  moreover have "\<forall>j < length starts. length (lss j) \<le> k" using S(1) by simp
  ultimately have "explains L c (length starts) k lss ?f g"
    by (intro explains_worker_alone [OF sim i _ _ _ _ _ _ _ v]) (use a in \<open>simp_all add: goto_def\<close>)
  with r show ?thesis by (rule trackedI) (use h in simp_all)
qed

text \<open>Steps of the worker at its queue that the explaining engine does not see.\<close>

lemma worker_pops_silently:
  assumes r: "engine_reach L E c starts w g hist" and h: "length hist \<le> m"
    and sim: "explains L c (length starts) k lss f g" and i: "i < length starts"
    and l: "spsc_run c 0 1 (lss i @ [l]) (shard_conf (goto i x st (f\<lparr>app_state := (app_state f)\<lparr>queues := qs\<rparr>\<rparr>)) i)"
      "items 0 1 (lss i @ [l]) (shard_conf (goto i x st (f\<lparr>app_state := (app_state f)\<lparr>queues := qs\<rparr>\<rparr>)) i) = items 0 1 (lss i) (shard_conf f i)"
    and qs: "length qs = length starts" "\<And>j. j \<noteq> i \<Longrightarrow> qs ! j = queues (app_state f) ! j"
    and v: "finish L st x = finish L (stages f ! i) (locals f ! i)" "before_detection st \<Longrightarrow> pending x = []"
    and u: "uncounted st = uncounted (stages f ! i)"
  shows "tracked L E c starts w (Suc k) m (contents (system g)) (goto i x st (f\<lparr>app_state := (app_state f)\<lparr>queues := qs\<rparr>\<rparr>))"
proof -
  let ?f = "goto i x st (f\<lparr>app_state := (app_state f)\<lparr>queues := qs\<rparr>\<rparr>)"
  note S = explainsD [OF sim]
  have other: "shard_conf ?f j = shard_conf f j" if "j \<noteq> i" for j
    by (rule shard_conf_eqI) (use that qs(2) in \<open>simp_all add: goto_def\<close>)
  have "queues_match c (length starts) (lss(i := lss i @ [l])) ?f (system g)"
    by (rule queues_match_silent [OF S(11) i l(1) other l(2)]) (use qs(1) in \<open>simp_all add: goto_def\<close>)
  moreover have "\<forall>j < length starts. length ((lss(i := lss i @ [l])) j) \<le> Suc k" by (rule length_upd) (use S(1) in blast)
  ultimately have "explains L c (length starts) (Suc k) (lss(i := lss i @ [l])) ?f g"
    by (intro explains_worker_alone [OF sim i _ _ _ _ _ _ _ v]) (use u in \<open>simp_all add: goto_def\<close>)
  with r show ?thesis by (rule trackedI) (use h in simp_all)
qed

lemma worker_calls_pop:
  assumes r: "engine_reach L E c starts w g hist" and h: "length hist \<le> m" "k < 2 ^ 62"
    and sim: "explains L c (length starts) k lss f g" and i: "i < length starts"
    and st: "stages f ! i = Polling" and p: "pending (locals f ! i) = []"
  shows "tracked L E c starts w (Suc k) m (contents (system g)) (goto i (locals f ! i) (PopFor t PopLoad) f)"
proof -
  let ?f = "goto i (locals f ! i) (PopFor t PopLoad) f"
  note S = explainsD [OF sim]
  have b: "length (lss i) < 2 ^ 62" by (rule length_spsc [OF sim i h(2)])
  have f: "?f = goto i (locals f ! i) (PopFor t PopLoad) (f\<lparr>app_state := (app_state f)\<lparr>queues := queues (app_state f)\<rparr>\<rparr>)" by simp
  have "shard_conf ?f i = (shard_conf f i)\<lparr>threads := (threads (shard_conf f i))(1 := Popping PopLoad)\<rparr>"
    by (rule shard_conf_worker) (use i S(7) in \<open>simp_all add: goto_def\<close>)
  then obtain l where "spsc_run c 0 1 (lss i @ [l]) (shard_conf ?f i)"
    "items 0 1 (lss i @ [l]) (shard_conf ?f i) = items 0 1 (lss i) (shard_conf f i)"
    using spsc_call(2) [OF S(4) [OF i] b] st by auto
  then show ?thesis unfolding f
    by (intro worker_pops_silently [OF r h(1) sim i]) (use st p S(2) in simp_all)
qed

lemma worker_returns_from_pop:
  assumes r: "engine_reach L E c starts w g hist" and h: "length hist \<le> m" "k < 2 ^ 62"
    and sim: "explains L c (length starts) k lss f g" and i: "i < length starts"
    and st: "stages f ! i = PopFor t (PopDone v)" and p: "pending (locals f ! i) = []"
  shows "tracked L E c starts w (Suc k) m (contents (system g)) (goto i (locals f ! i) (case v of None \<Rightarrow> Polling | Some e \<Rightarrow> CountEvent t e) f)"
proof -
  let ?st = "case v of None \<Rightarrow> Polling | Some e \<Rightarrow> CountEvent t e"
  let ?f = "goto i (locals f ! i) ?st f"
  note S = explainsD [OF sim]
  have b: "length (lss i) < 2 ^ 62" by (rule length_spsc [OF sim i h(2)])
  have f: "?f = goto i (locals f ! i) ?st (f\<lparr>app_state := (app_state f)\<lparr>queues := queues (app_state f)\<rparr>\<rparr>)" by simp
  have "shard_conf ?f i = (shard_conf f i)\<lparr>threads := (threads (shard_conf f i))(1 := QueueConcurrent.Idle)\<rparr>"
    by (rule shard_conf_worker) (use i S(7) in \<open>simp_all add: goto_def split: option.split\<close>)
  then obtain l where "spsc_run c 0 1 (lss i @ [l]) (shard_conf ?f i)"
    "items 0 1 (lss i @ [l]) (shard_conf ?f i) = items 0 1 (lss i) (shard_conf f i)"
    using spsc_return(2) [OF S(4) [OF i] b] st by auto
  then show ?thesis unfolding f
    by (intro worker_pops_silently [OF r h(1) sim i]) (use st p S(2) in \<open>auto split: option.splits\<close>)
qed

text \<open>What a step of \<open>pop\<close> to the given point takes from the queues.\<close>

fun took :: "nat \<Rightarrow> 'a list list \<Rightarrow> 'a list list \<Rightarrow> 'a pop_pc \<Rightarrow> bool" where
  "took i cs cs' (PopDone (Some x)) \<longleftrightarrow> cs ! i = x # cs' ! i \<and> cs' = cs[i := cs' ! i]"
| "took i cs cs' (PopDone None) \<longleftrightarrow> cs ! i = [] \<and> cs' = cs"
| "took i cs cs' pc \<longleftrightarrow> cs' = cs"

text \<open>The step at which a pop takes effect is the pass of the explaining worker.\<close>

lemma worker_pop_step:
  assumes cfg: "config_ok L c starts" and env: "env_ok E" and r: "engine_reach L E c starts w g hist" and h: "length hist \<le> m" "k < 2 ^ 62"
    and sim: "explains L c (length starts) k lss f g" and i: "i < length starts"
    and st: "stages f ! i = PopFor t pc" and p: "pending (locals f ! i) = []" and act: "pop_active pc"
    and step: "pop_step spurious (queues (app_state f) ! i) pc = (q', pc')"
  shows "\<exists>cs. took i (contents (system g)) cs pc' \<and> tracked L E c starts w (Suc k) (Suc m) cs
    (goto i (locals f ! i) (PopFor t pc') (f\<lparr>app_state := (app_state f)\<lparr>queues := (queues (app_state f))[i := q']\<rparr>\<rparr>))"
proof -
  let ?n = "length starts" and ?w = "locals f ! i"
  let ?f = "goto i ?w (PopFor t pc') (f\<lparr>app_state := (app_state f)\<lparr>queues := (queues (app_state f))[i := q']\<rparr>\<rparr>)"
  note S = explainsD [OF sim]
  have b: "length (lss i) < 2 ^ 62" by (rule length_spsc [OF sim i h(2)])
  have thr: "threads (shard_conf f i) 1 = Popping pc" using st by simp
  have conf: "shard_conf ?f i = \<lparr>shared = q', threads = (threads (shard_conf f i))(1 := Popping pc')\<rparr>"
    by (rule shard_conf_worker) (use i S(2,7) in \<open>simp_all add: goto_def\<close>)
  have other: "shard_conf ?f j = shard_conf f j" if "j \<noteq> i" for j
    by (rule shard_conf_eqI) (use that in \<open>simp_all add: goto_def\<close>)
  have len: "length (queues (app_state ?f)) = ?n" using S(2) by (simp add: goto_def)
  have ks: "\<forall>j < ?n. length ((lss(i := lss i @ [l])) j) \<le> Suc k" for l by (rule length_upd) (use S(1) in blast)
  have old: "finish L (stages f ! i) ?w = Some ?w" "\<not> uncounted (stages f ! i)" using st act by (cases pc; simp)+
  then have v: "workers (system g) ! i = ?w" using S(9) [OF i] by simp
  have en: "worker_action (Work i t)" "enabled (Work i t) (system g)" using p v i S(8) by simp_all
  obtain s' l where r': "engine_reach L E c starts w (g\<lparr>system := s'\<rparr>) (hist @ [Did l])"
    and pf: "perform L (Work i t) (system g) = Some (s', l)" and eff: "effect L ?n c (system g) l s'"
    by (rule worker_acts [OF cfg env r en])
  have l: "l = Pipeline.Idle i \<or> (\<exists>e als. l = Handled i t e als)" by (rule perform_label(2) [OF pf])
  have hk: "length (hist @ [Did l]) \<le> Suc m" using h(1) by simp
  from S(4) [OF i] b thr act step [folded shard_conf_threads(1) [of f i]] conf show ?thesis
  proof (cases rule: spsc_pop_act)
    case (silent x)
    have new: "finish L (PopFor t pc') ?w = Some ?w" "\<not> uncounted (PopFor t pc')" using silent(2) by (cases pc'; simp)+
    have "tracked L E c starts w (Suc k) m (contents (system g)) ?f"
      by (rule worker_pops_silently [OF r h(1) sim i silent(1,3)]) (use new old p S(2) in simp_all)
    moreover have "took i (contents (system g)) (contents (system g)) pc'" using silent(2) by (cases pc'; simp)
    ultimately show ?thesis by (blast intro: tracked_mono le_SucI)
  next
    case (item x e)
    have ne: "contents (system g) ! i = e # items 0 1 (lss i @ [x]) (shard_conf ?f i)" using S(5) [OF i] item(3) by simp
    then obtain als where lH: "l = Handled i t e als" using l eff by auto
    from eff [unfolded lH] obtain w' where d: "detect L t e ?w = Some (w', als)"
      and ws: "workers s' = (workers (system g))[i := w'\<lparr>pending := als\<rparr>]"
      and cs: "contents s' = (contents (system g))[i := items 0 1 (lss i @ [x]) (shard_conf ?f i)]"
      using ne v by auto
    have q: "queues_match c ?n (lss(i := lss i @ [x])) ?f s'"
      by (rule queues_match_upd [OF S(11) i item(1) other cs len])
    have fin: "finish L (PopFor t pc') ?w = Some (w'\<lparr>pending := als\<rparr>)" using finish_detect [OF d p] item(2) by simp
    have "explains L c ?n (Suc k) (lss(i := lss i @ [x])) ?f (g\<lparr>system := s'\<rparr>)"
      by (rule explains_worker [OF sim i _ _ _ _ _ q ks ws fin])
        (use effect_fields(4) [OF eff [unfolded lH]] S(14) old p item(2) in \<open>simp_all add: goto_def counters_match_def\<close>)
    with r' have "tracked L E c starts w (Suc k) (Suc m) (contents s') ?f" by (rule trackedI) (use hk in simp_all)
    moreover have "took i (contents (system g)) (contents s') pc'" using ne cs i S(3) item(2) by simp
    ultimately show ?thesis by blast
  next
    case (empty x)
    have c0: "contents (system g) ! i = []" using S(5) [OF i] empty(3) by simp
    then have lI: "l = Pipeline.Idle i" using l eff by auto
    have q: "queues_match c ?n (lss(i := lss i @ [x])) ?f s'"
      by (rule queues_match_silent [OF S(11) i empty(1) other _ _ len]) (use eff empty(3,4) in \<open>simp_all add: lI\<close>)
    have ws: "workers s' = (workers (system g))[i := ?w]" using eff v by (metis lI effect.simps(4) list_update_id)
    have "explains L c ?n (Suc k) (lss(i := lss i @ [x])) ?f (g\<lparr>system := s'\<rparr>)"
      by (rule explains_worker [where st = "PopFor t pc'", OF sim i _ _ _ _ _ q ks ws])
        (use effect_fields(3) [OF eff [unfolded lI]] S(14) old p empty(2) in \<open>simp_all add: goto_def counters_match_def\<close>)
    with r' have "tracked L E c starts w (Suc k) (Suc m) (contents s') ?f" by (rule trackedI) (use hk in simp_all)
    moreover have "took i (contents (system g)) (contents s') pc'" using c0 eff empty(2) by (simp add: lI)
    ultimately show ?thesis by blast
  qed
qed

text \<open>Every step of a worker.\<close>

lemma finish_next:
  "finish_scan L t e x = Some v \<Longrightarrow> pending x = [] \<Longrightarrow>
    \<exists>s als. scan (lib_search L) e (sig x) = Some (s, als) \<and> finish_observe L t e (x\<lparr>sig := s, pending := als\<rparr>) = Some v"
  "finish_observe L t e x = Some v \<Longrightarrow> pending x = [] \<Longrightarrow>
    \<exists>an als. observe (lib_fx L) (lib_ln L) (fst t) e (anomaly x) = Some (an, als) \<and>
      finish_match L t e (x\<lparr>anomaly := an, pending := als\<rparr>) = Some v"
  "finish_match L t e x = Some v \<Longrightarrow> pending x = [] \<Longrightarrow>
    \<exists>d als. process (snd t) e (cep x) = Some (d, als) \<and> v = x\<lparr>cep := d, pending := als\<rparr>"
  by (auto simp: finish_scan_def finish_observe_def finish_match_def split: bind_splits)

lemma tracked_lengths:
  assumes "tracked L E c starts w k m cs f"
  shows "length (queues (app_state f)) = length starts" "length (locals f) = length starts" "length (stages f) = length starts"
  using assms by (auto simp: tracked_def dest: explainsD(2,6,7))

lemma tracked_nth:
  assumes "tracked L E c starts w k m cs f" and "i < length starts"
  shows "nth_opt (locals f) i = Some (locals f ! i)" "nth_opt (stages f) i = Some (stages f ! i)"
    "nth_opt (queues (app_state f)) i = Some (queues (app_state f) ! i)"
  using assms(2) tracked_lengths [OF assms(1)] by (simp_all add: nth_opt_def)

text \<open>The next step of a worker, in each case.\<close>

lemma step_record:
  assumes cfg: "config_ok L c starts" and env: "env_ok E" and tr: "tracked L E c starts w k m cs f" and i: "i < length starts"
    and p: "pending (locals f ! i) \<noteq> []"
  shows "worker_next L now spurious i f = Some (record_next i (locals f ! i) (stages f ! i) f)"
    and "tracked L E c starts w k (Suc m) cs (record_next i (locals f ! i) (stages f ! i) f)"
proof -
  show "worker_next L now spurious i f = Some (record_next i (locals f ! i) (stages f ! i) f)"
    using p by (simp add: worker_next_def tracked_nth [OF tr i])
  show "tracked L E c starts w k (Suc m) cs (record_next i (locals f ! i) (stages f ! i) f)"
    using tr by (rule trackedE) (use worker_records [OF cfg env _ _ _ i p] in blast)
qed

lemma step_poll:
  assumes tr: "tracked L E c starts w k m cs f" and i: "i < length starts" and k: "k < 2 ^ 62"
    and st: "stages f ! i = Polling" and p: "pending (locals f ! i) = []"
  shows "worker_next L now spurious i f = Some (goto i (locals f ! i) (PopFor now PopLoad) f)"
    and "tracked L E c starts w (Suc k) m cs (goto i (locals f ! i) (PopFor now PopLoad) f)"
proof -
  show "worker_next L now spurious i f = Some (goto i (locals f ! i) (PopFor now PopLoad) f)"
    using p st by (simp add: worker_next_def tracked_nth [OF tr i])
  show "tracked L E c starts w (Suc k) m cs (goto i (locals f ! i) (PopFor now PopLoad) f)"
    using tr by (rule trackedE) (use worker_calls_pop [OF _ _ k _ i st p] in blast)
qed

lemma step_pop:
  assumes cfg: "config_ok L c starts" and env: "env_ok E" and tr: "tracked L E c starts w k m cs f" and i: "i < length starts"
    and k: "k < 2 ^ 62" and st: "stages f ! i = PopFor t pc" and p: "pending (locals f ! i) = []" and act: "pop_active pc"
    and step: "pop_step spurious (queues (app_state f) ! i) pc = (q', pc')"
  obtains f' cs' where "worker_next L now spurious i f = Some f'" and "took i cs cs' pc'" and "tracked L E c starts w (Suc k) (Suc m) cs' f'"
    and "stages f' ! i = PopFor t pc'" and "locals f' = locals f" and "queues (app_state f') ! i = q'"
proof -
  let ?f = "goto i (locals f ! i) (PopFor t pc') (f\<lparr>app_state := (app_state f)\<lparr>queues := (queues (app_state f))[i := q']\<rparr>\<rparr>)"
  have "worker_next L now spurious i f = Some ?f"
    using p st act step by (simp add: worker_next_def tracked_nth [OF tr i])
  moreover obtain cs' where "took i cs cs' pc'" "tracked L E c starts w (Suc k) (Suc m) cs' ?f"
    using tr by (rule trackedE) (use worker_pop_step [OF cfg env _ _ k _ i st p act step] in blast)
  ultimately show ?thesis by (rule that) (use i tracked_lengths [OF tr] in \<open>simp_all add: goto_def\<close>)
qed

lemma step_return:
  assumes tr: "tracked L E c starts w k m cs f" and i: "i < length starts" and k: "k < 2 ^ 62"
    and st: "stages f ! i = PopFor t (PopDone v)" and p: "pending (locals f ! i) = []"
  defines "f' \<equiv> goto i (locals f ! i) (case v of None \<Rightarrow> Polling | Some e \<Rightarrow> CountEvent t e) f"
  shows "worker_next L now spurious i f = Some f'" and "tracked L E c starts w (Suc k) m cs f'"
proof -
  show "worker_next L now spurious i f = Some f'"
    using p st by (simp add: worker_next_def tracked_nth [OF tr i] f'_def split: option.split)
  show "tracked L E c starts w (Suc k) m cs f'"
    unfolding f'_def using tr by (rule trackedE) (use worker_returns_from_pop [OF _ _ k _ i st p] in blast)
qed

text \<open>From the counter to the last detector.\<close>

fun next_stage :: "stage \<Rightarrow> stage" where
  "next_stage (CountEvent t e) = ScanEvent t e"
| "next_stage (ScanEvent t e) = ObserveEvent t e"
| "next_stage (ObserveEvent t e) = MatchEvent t e"
| "next_stage st = Polling"

fun detecting :: "stage \<Rightarrow> bool" where
  "detecting Polling \<longleftrightarrow> False"
| "detecting (PopFor t pc) \<longleftrightarrow> False"
| "detecting st \<longleftrightarrow> True"

lemma step_detect:
  assumes tr: "tracked L E c starts w k m cs f" and i: "i < length starts"
    and st: "detecting (stages f ! i)" and p: "pending (locals f ! i) = []"
  obtains x b where "worker_next L now spurious i f = Some (goto i x (next_stage (stages f ! i)) (f\<lparr>app_state := b\<rparr>))"
    and "tracked L E c starts w k m cs (goto i x (next_stage (stages f ! i)) (f\<lparr>app_state := b\<rparr>))"
proof -
  let ?w = "locals f ! i"
  obtain lss g hist where r: "engine_reach L E c starts w g hist" and sim: "explains L c (length starts) k lss f g"
    and h: "length hist \<le> m" and cs: "contents (system g) = cs" using tr by (auto simp: tracked_def)
  note nth = tracked_nth [OF tr i]
  have v: "finish L (stages f ! i) ?w = Some (workers (system g) ! i)" by (rule explainsD(9) [OF sim i])
  have moves: "tracked L E c starts w k m cs (goto i x (next_stage (stages f ! i)) (f\<lparr>app_state := app_state f\<rparr>))"
    if "finish L (next_stage (stages f ! i)) x = finish L (stages f ! i) ?w" "consuming (next_stage (stages f ! i)) = QueueConcurrent.Idle"
      "consuming (stages f ! i) = QueueConcurrent.Idle" "\<not> before_detection (next_stage (stages f ! i))" 
      "\<not> uncounted (next_stage (stages f ! i))" "\<not> uncounted (stages f ! i)" for x
    using worker_moves [OF r h sim i, of "app_state f" "next_stage (stages f ! i)" x] that cs by simp
  show ?thesis
  proof (cases "stages f ! i")
    case (CountEvent t e)
    let ?b = "(app_state f)\<lparr>events_processed := events_processed (app_state f) + 1\<rparr>"
    have "tracked L E c starts w k m (contents (system g)) (goto i ?w (ScanEvent t e) (f\<lparr>app_state := ?b\<rparr>))"
      by (rule worker_moves [OF r h sim i]) (use CountEvent p in simp_all)
    then show ?thesis using that [of ?w ?b] CountEvent p cs by (simp add: worker_next_def nth)
  next
    case (ScanEvent t e)
    then obtain d als where d: "scan (lib_search L) e (sig ?w) = Some (d, als)"
      "finish_observe L t e (?w\<lparr>sig := d, pending := als\<rparr>) = Some (workers (system g) ! i)"
      using finish_next(1) [of L t e ?w, OF _ p] v by auto
    with that [of "?w\<lparr>sig := d, pending := als\<rparr>" "app_state f"] moves [of "?w\<lparr>sig := d, pending := als\<rparr>"] ScanEvent p v
    show ?thesis by (simp add: worker_next_def nth)
  next
    case (ObserveEvent t e)
    then obtain d als where d: "observe (lib_fx L) (lib_ln L) (fst t) e (anomaly ?w) = Some (d, als)"
      "finish_match L t e (?w\<lparr>anomaly := d, pending := als\<rparr>) = Some (workers (system g) ! i)"
      using finish_next(2) [of L t e ?w, OF _ p] v by auto
    with that [of "?w\<lparr>anomaly := d, pending := als\<rparr>" "app_state f"] moves [of "?w\<lparr>anomaly := d, pending := als\<rparr>"] ObserveEvent p v
    show ?thesis by (simp add: worker_next_def nth)
  next
    case (MatchEvent t e)
    then obtain d als where d: "process (snd t) e (cep ?w) = Some (d, als)"
      "workers (system g) ! i = ?w\<lparr>cep := d, pending := als\<rparr>"
      using finish_next(3) [of L t e ?w, OF _ p] v by auto
    with that [of "?w\<lparr>cep := d, pending := als\<rparr>" "app_state f"] moves [of "?w\<lparr>cep := d, pending := als\<rparr>"] MatchEvent p v
    show ?thesis by (simp add: worker_next_def nth)
  qed (use st in simp_all)
qed

lemma tracked_no_panic:
  assumes tr: "tracked L E c starts w k m cs f" and i: "i < length starts" and k: "k < 2 ^ 62" and st: "stages f ! i = PopFor t pc"
  shows "pop_active pc \<or> (\<exists>v. pc = PopDone v)"
proof -
  obtain lss g hist where sim: "explains L c (length starts) k lss f g" using tr by (rule trackedE)
  have "pc \<noteq> PopPanic"
    using spsc_thread_ok(2) [OF explainsD(4) [OF sim i], of "Suc 0" pc] length_spsc [OF sim i k] st by simp
  then show ?thesis by (cases pc) auto
qed

lemma worker_next_explained:
  assumes cfg: "config_ok L c starts" and env: "env_ok E" and ex: "explained L E c starts w k f" and k: "k < 2 ^ 62"
    and i: "i < length starts"
  shows "\<exists>f'. worker_next L now spurious i f = Some f' \<and> explained L E c starts w (Suc k) f'"
proof -
  obtain cs where tr: "tracked L E c starts w k k cs f" using ex by (auto simp: explained_def)
  have le: "k \<le> Suc k" by simp
  show ?thesis
  proof (cases "pending (locals f ! i) = []")
    case False
    from step_record(1) [OF cfg env tr i this, where now = now and spurious = spurious] step_record(2) [OF cfg env tr i this]
      show ?thesis by (auto intro: tracked_explained [OF _ le order_refl])
  next
    case p: True
    show ?thesis
    proof (cases "detecting (stages f ! i)")
      case True
      obtain x b where "worker_next L now spurious i f = Some (goto i x (next_stage (stages f ! i)) (f\<lparr>app_state := b\<rparr>))"
        and "tracked L E c starts w k k cs (goto i x (next_stage (stages f ! i)) (f\<lparr>app_state := b\<rparr>))"
        by (rule step_detect [OF tr i True p])
      then show ?thesis by (auto intro: tracked_explained [OF _ le le])
    next
      case False
      show ?thesis
      proof (cases "stages f ! i")
        case Polling
        from step_poll(1) [OF tr i k this p, where now = now and spurious = spurious] step_poll(2) [OF tr i k this p, where now = now]
          show ?thesis by (auto intro: tracked_explained [OF _ order_refl le])
      next
        case (PopFor t pc)
        from tracked_no_panic [OF tr i k this] show ?thesis
        proof
          assume act: "pop_active pc"
          obtain q' pc' where step: "pop_step spurious (queues (app_state f) ! i) pc = (q', pc')" by fastforce
          obtain f' cs' where "worker_next L now spurious i f = Some f'" "tracked L E c starts w (Suc k) (Suc k) cs' f'"
            by (rule step_pop [OF cfg env tr i k PopFor p act step])
          then show ?thesis by (auto intro: tracked_explained [OF _ order_refl order_refl])
        next
          assume "\<exists>v. pc = PopDone v"
          then obtain v where "stages f ! i = PopFor t (PopDone v)" using PopFor by blast
          from step_return(1) [OF tr i k this p, where now = now and spurious = spurious] step_return(2) [OF tr i k this p]
            show ?thesis by (auto intro: tracked_explained [OF _ order_refl le])
        qed
      qed (use False in simp_all)
    qed
  qed
qed

subsection \<open>Every run is explained\<close>

lemma threads_start_explained:
  assumes cfg: "config_ok L capacity starts" and cap: "unat capacity \<le> 2 ^ 62"
  obtains f where "threads_new L capacity starts w = Some f" and "explained L E capacity starts w 0 f"
proof -
  let ?n = "length starts"
  have ok: "libs_ok L" "is_power_of_two capacity" "2 \<le> unat capacity" using cfg by (simp_all add: config_ok_def)
  obtain q0 :: "NetworkEvent MpmcQueue" where q0: "queue_new capacity = Some q0" "mpmc_ok q0" "queue_list q0 = []"
    "queue_capacity q0 = unat capacity" by (rule queue_new_empty [OF ok(2,3)])
  obtain s where s: "system_new L capacity starts = Some s" "sys_ok L ?n capacity s" "contents s = replicate ?n []"
    and p: "\<And>i. i < ?n \<Longrightarrow> pending (workers s ! i) = [] \<and> \<not> counted (workers s ! i)"
    by (rule system_new_ok [OF ok(1) q0]) blast
  have qs: "queues (app s) = replicate ?n q0"
    using s(1) those_const [of q0 "[0..<?n]"] by (auto simp: system_new_def app_new_def q0(1) split: bind_splits)
  let ?f = "\<lparr>app_state = app s, generator = simulator_new w, rest_of_batch = [], producer = NextEvent,
    locals = workers s, stages = replicate ?n Polling\<rparr>"
  let ?g = "\<lparr>system = s, simulator = simulator_new w, batch = []\<rparr>"
  have conf: "shard_conf ?f i = \<lparr>shared = q0, threads = (\<lambda>_. QueueConcurrent.Idle)\<rparr>" if "i < ?n" for i
    using that by (simp add: shard_conf_def qs cong: if_cong)
  have "queues_match capacity ?n (\<lambda>_. []) ?f s"
    using conf spsc_start [OF q0(1) ok(3) cap, of 0 1] s(3) by (simp add: queues_match_def qs)
  moreover have "workers_match L ?n ?f s" using s(2) p by (simp add: workers_match_def sys_ok_def)
  ultimately have "explains L capacity ?n 0 (\<lambda>_. []) ?f ?g"
    by (simp add: explains_def producer_match_def counters_match_def)
  moreover have "engine_reach L E capacity starts w ?g []" by (rule engine_start) (simp add: engine_new_def s(1))
  ultimately have "explained L E capacity starts w 0 ?f" by (intro explainedI) simp_all
  moreover have "threads_new L capacity starts w = Some ?f" by (simp add: threads_new_def s(1))
  ultimately show ?thesis by (intro that)
qed

lemma threads_explained:
  assumes "threads_reach L E capacity starts w k f" and "config_ok L capacity starts" and "env_ok E"
    and "unat capacity \<le> 2 ^ 62" and "k \<le> 2 ^ 62"
  shows "explained L E capacity starts w k f"
  using assms(1,5)
proof induction
  case (threads_start f)
  then show ?case using threads_start_explained [OF assms(2,4), of w E] by (metis option.inject)
next
  case (threads_producer k f spurious f')
  then show ?case using producer_next_explained [OF assms(2,3), of w k f spurious] by fastforce
next
  case (threads_worker k f i now spurious f')
  then have ex: "explained L E capacity starts w k f" and k: "k < 2 ^ 62" by simp_all
  then have "i < length starts" using threads_worker.hyps(2) by (auto simp: explained_def tracked_def explains_def workers_match_def)
  from worker_next_explained [OF assms(2,3) ex k this, of now spurious] threads_worker.hyps(3) show ?case by auto
qed

definition at_rest :: "('ac, 'w) Threads \<Rightarrow> bool" where
  "at_rest f \<longleftrightarrow> producer f = NextEvent \<and> list_all (\<lambda>st. st = Polling) (stages f)"

lemma explains_at_rest:
  assumes sim: "explains L c n k lss f g" and k: "k \<le> 2 ^ 62" and rest: "at_rest f"
  shows "contents (system g) = map queue_list (queues (app_state f))" "workers (system g) = locals f" "batch g = rest_of_batch f"
proof -
  note S = explainsD [OF sim]
  have p: "producer f = NextEvent" and st: "stages f ! i = Polling" if "i < n" for i
    using rest that S(7) by (simp_all add: at_rest_def list_all_length)
  have "contents (system g) ! i = queue_list (queues (app_state f) ! i)" if i: "i < n" for i
  proof -
    have "quiescent (shard_conf f i)" using p [OF i] st [OF i] by (simp add: quiescent_def shard_conf_def)
    then have "items 0 1 (lss i) (shard_conf f i) = queue_list (queues (app_state f) ! i)"
      using as_fifo_idle [of c "lss i" "shard_conf f i" 0 1] S(1,4) [OF i] k by (simp add: spsc_run_def items_def)
    then show ?thesis using S(5) [OF i] by simp
  qed
  then show "contents (system g) = map queue_list (queues (app_state f))" using S(2,3) by (intro nth_equalityI) simp_all
  show "workers (system g) = locals f" using S(6,8,9) st by (intro nth_equalityI) simp_all
  show "batch g = rest_of_batch f" using S(13) rest by (simp add: producer_match_def at_rest_def)
qed

subsection \<open>Properties of every interleaving of atomic accesses\<close>

text \<open>
  C6: The engine is correct at the granularity of its atomic accesses. In every interleaving of
  the producer and the workers, where a call of push or pop is several steps with its spurious
  failures and each counter and alert is a step of its own, the alerts stored and counted are
  those of a run of the engine whose calls are single actions; its drops and processed events
  are the counters plus what the threads have yet to count; and whenever no thread is within an
  event, its queues, detectors and rest of the batch are those of the threads.
\<close>

theorem threads_refine_the_engine:
  assumes "config_ok L capacity starts" and "env_ok E" and "unat capacity \<le> 2 ^ 62"
    and "threads_reach L E capacity starts w k f" and "k \<le> 2 ^ 62"
  shows "\<exists>g hist. engine_reach L E capacity starts w g hist \<and> simulator g = generator f \<and>
    alerts (app (system g)) = alerts (app_state f) \<and> alerts_fired (app (system g)) = alerts_fired (app_state f) \<and>
    events_dropped (app (system g)) = events_dropped (app_state f) + undropped (producer f) \<and>
    events_processed (app (system g)) = events_processed (app_state f) + of_nat (length (filter uncounted (stages f))) \<and>
    (at_rest f \<longrightarrow> contents (system g) = map queue_list (queues (app_state f)) \<and>
       workers (system g) = locals f \<and> batch g = rest_of_batch f)"
proof -
  obtain lss g hist where r: "engine_reach L E capacity starts w g hist" and sim: "explains L capacity (length starts) k lss f g"
    using threads_explained [OF assms(4,1,2,3,5)] by (auto simp: explained_def tracked_def)
  from r explainsD(13,14) [OF sim] explains_at_rest [OF sim assms(5)] show ?thesis
    by (auto simp: producer_match_def counters_match_def)
qed

text \<open>
  C11: No thread panics or gets stuck between two atomic accesses. From every state of every
  interleaving the producer has a next step and so has every worker, whatever the clocks read
  and whether or not the compare-exchange fails spuriously: no index is out of range, no slot
  is taken empty, and no detector panics on its event.
\<close>

theorem threads_never_stuck:
  assumes "config_ok L capacity starts" and "env_ok E" and "unat capacity \<le> 2 ^ 62"
    and "threads_reach L E capacity starts w k f" and "k < 2 ^ 62"
  shows "producer_next E spurious f \<noteq> None \<and> list_all (\<lambda>i. worker_next L now spurious i f \<noteq> None) [0..<length starts]"
proof -
  have ex: "explained L E capacity starts w k f" by (rule threads_explained [OF assms(4,1,2,3)]) (use assms(5) in simp)
  have "worker_next L now spurious i f \<noteq> None" if "i < length starts" for i
    using worker_next_explained [OF assms(1,2) ex assms(5) that, of now spurious] by auto
  moreover have "producer_next E spurious f \<noteq> None"
    using producer_next_explained [OF assms(1,2) ex assms(5), of spurious] by auto
  ultimately show ?thesis by (simp add: list_all_iff)
qed

text \<open>
  C20: No alert before the first injected attack, in any interleaving of atomic accesses. While
  the simulator's tick is below 500 no alert is stored and none is counted, whatever the
  generator draws.
\<close>

theorem threads_quiet_before_the_first_attack:
  assumes "config_ok L capacity starts" and "env_ok E" and "unat capacity \<le> 2 ^ 62"
    and "threads_reach L E capacity starts w k f" and "k \<le> 2 ^ 62" and "unat (tick (generator f)) < 500"
  shows "alerts (app_state f) = [] \<and> alerts_fired (app_state f) = 0"
proof -
  obtain lss g hist where r: "engine_reach L E capacity starts w g hist" and sim: "explains L capacity (length starts) k lss f g"
    and h: "length hist \<le> k" using threads_explained [OF assms(4,1,2,3,5)] by (auto simp: explained_def tracked_def)
  have "length (batches hist) \<le> length hist"
    by (induction hist rule: rev_induct) (auto split: event.split simp: batches_def)
  moreover have "tick (generator f) = of_nat (length (batches hist))"
    using engine_reach_inv [OF r assms(1,2)] explainsD(13) [OF sim] by (simp add: engine_inv_def producer_match_def)
  ultimately have "length (batches hist) < 500" using h assms(5,6) by (simp add: unat_of_nat)
  from quiet_before_the_first_attack [OF assms(1,2) r this] explainsD(14) [OF sim] show ?thesis
    by (simp add: counters_match_def)
qed

subsection \<open>Witnesses\<close>

text \<open>The producer draws the first batch and pushes its first event; the worker has not started.\<close>

lemma producer_alone_reach:
  "producer_alone E n f = Some f' \<Longrightarrow> threads_reach L E capacity starts w k f \<Longrightarrow> threads_reach L E capacity starts w (k + n) f'"
proof (induction n arbitrary: f k)
  case (Suc n)
  then obtain f1 where "producer_next E False f = Some f1" "producer_alone E n f1 = Some f'" by (auto split: option.splits)
  with Suc.IH [of f1 "Suc k"] Suc.prems(2) show ?case by (auto intro: threads_producer)
qed simp

lemma first_batch:
  obtains e es sim where "next_batch example_env (simulator_new ()) = Some (e # es, sim)" and "tick sim = 1" and "length es = 19"
proof -
  have d: "draw example_env 20 60 () = Some (20, ())" by (simp add: draw_def example_env_def)
  obtain e where e: "benign_event example_env () = Some (e, ())" using benign_event_ok [OF example_env_ok, of "()"] by auto
  obtain es where es: "push_each (\<lambda>_. benign_event example_env) [Suc 0..<20] () = Some (es, ())" and "list_all2 (\<lambda>_. benign) [Suc 0..<20] es"
    using push_each_ok [of "[Suc 0..<20]" "\<lambda>_. benign_event example_env" "\<lambda>_. benign" "()"] benign_event_ok [OF example_env_ok] by auto
  have "push_each (\<lambda>_. benign_event example_env) [0..<20] () = Some (e # es, ())"
    using e es by (subst upt_conv_Cons) simp_all
  then have n: "next_batch example_env (simulator_new ()) = Some (e # es, \<lparr>rng = (), tick = 1\<rparr>)"
    by (simp add: next_batch_def simulator_new_def d every_def del: upt_rec_numeral)
  have "length es = 19" using list_all2_lengthD [OF \<open>list_all2 (\<lambda>_. benign) [Suc 0..<20] es\<close>] by simp
  from n _ this show ?thesis by (rule that) simp
qed

lemma example_threads:
  obtains e es and f :: "(bytes list, unit) Threads" where "threads_reach example_libs example_env 2 [0] () 8 f"
    and "at_rest f" and "map queue_list (queues (app_state f)) = [[e]]" and "rest_of_batch f = es" and "length es = 19" and "tick (generator f) = 1"
proof -
  obtain s where s: "system_new example_libs 2 [0] = Some s" by (rule start_inv [OF example_config])
  then have qs: "queues (app s) = [queue2]"
    by (auto simp: system_new_def app_new_def queue_new_queue2 split: bind_splits)
  obtain e es sim where b: "next_batch example_env (simulator_new ()) = Some (e # es, sim)" and t: "tick sim = 1" "length es = 19" by (rule first_batch)
  obtain f :: "(bytes list, unit) Threads" where f: "threads_new example_libs 2 [0] () = Some f"
    and f_eq: "f = \<lparr>app_state = app s, generator = simulator_new (), rest_of_batch = [], producer = NextEvent,
      locals = workers s, stages = [Polling]\<rparr>" by (simp add: threads_new_def s)
  have sh: "shard_of (Suc 0) e = 0" by (simp add: shard_of_def)
  obtain f' where "producer_alone example_env 8 f = Some f'" and "at_rest f'" and "map queue_list (queues (app_state f')) = [[e]]"
    and "rest_of_batch f' = es" and "tick (generator f') = 1"
    by (simp add: f_eq eval_nat_numeral producer_next_def b qs sh nth_opt_def run_simps at_rest_def t
        queue_list_def queue_length_def)
  with that t(2) producer_alone_reach [OF _ threads_start [OF f], of example_env 8 f'] show ?thesis by simp
qed

theorem threads_refine_the_engine_witness:
  "\<exists>(f :: (bytes list, unit) Threads) g hist e. threads_reach example_libs example_env 2 [0] () 8 f \<and> at_rest f \<and>
     engine_reach example_libs example_env 2 [0] () g hist \<and> contents (system g) = [[e]] \<and> workers (system g) = locals f"
proof -
  obtain e es and f :: "(bytes list, unit) Threads" where f: "threads_reach example_libs example_env 2 [0] () 8 f" "at_rest f"
    "map queue_list (queues (app_state f)) = [[e]]" by (rule example_threads)
  have "unat (2 :: usize) \<le> 2 ^ 62" by simp
  from threads_refine_the_engine [OF example_config example_env_ok this f(1)] f show ?thesis by fastforce
qed

theorem threads_never_stuck_witness:
  "\<exists>f :: (bytes list, unit) Threads. threads_reach example_libs example_env 2 [0] () 8 f \<and> map queue_list (queues (app_state f)) \<noteq> [[]] \<and>
     producer_next example_env True f \<noteq> None \<and> worker_next example_libs ((1, 1), 1) True 0 f \<noteq> None"
proof -
  obtain e es and f :: "(bytes list, unit) Threads" where f: "threads_reach example_libs example_env 2 [0] () 8 f"
    "map queue_list (queues (app_state f)) = [[e]]" by (rule example_threads)
  have "unat (2 :: usize) \<le> 2 ^ 62" by simp
  from threads_never_stuck [OF example_config example_env_ok this f(1), of True "((1, 1), 1)"] f show ?thesis by auto
qed

theorem threads_quiet_before_the_first_attack_witness:
  "\<exists>f :: (bytes list, unit) Threads. threads_reach example_libs example_env 2 [0] () 8 f \<and> tick (generator f) = 1 \<and>
     map queue_list (queues (app_state f)) \<noteq> [[]] \<and> alerts (app_state f) = []"
proof -
  obtain e es and f :: "(bytes list, unit) Threads" where f: "threads_reach example_libs example_env 2 [0] () 8 f"
    "map queue_list (queues (app_state f)) = [[e]]" "tick (generator f) = 1" by (rule example_threads)
  have "unat (2 :: usize) \<le> 2 ^ 62" by simp
  from threads_quiet_before_the_first_attack [OF example_config example_env_ok this f(1)] f show ?thesis by auto
qed

end
