(* ===== verification/ThreadsProgress.thy ===== *)
theory ThreadsProgress
  imports Threads
begin

section \<open>Progress of the threads\<close>

text \<open>
  Each thread of theory \<open>Threads\<close> is followed on its own from any state the threads can reach, with the
  others stopped wherever they are: the producer up to the end of its batch, a worker up to the end of its
  queue. In \<open>Threads\<close> the critical section of \<^verbatim>\<open>record_alert\<close> is one step, so that no other thread stops
  inside it; theory \<open>AlertLock\<close> takes it apart and says who waits for whom.
\<close>

subsection \<open>A worker on its own\<close>

text \<open>
  The other threads stop, even inside \<^verbatim>\<open>push\<close>, and the compare-exchange does not fail spuriously. \<open>leads\<close>
  says that worker \<open>i\<close> reaches a state of the given kind, whatever its clocks read.
\<close>

inductive leads :: "'ac Libs \<Rightarrow> nat \<Rightarrow> (('ac, 'w) Threads \<Rightarrow> bool) \<Rightarrow> ('ac, 'w) Threads \<Rightarrow> bool" for L i P where
  leads_done: "P f \<Longrightarrow> leads L i P f"
| leads_step: "(\<And>now. \<exists>f'. worker_next L now False i f = Some f' \<and> leads L i P f') \<Longrightarrow> leads L i P f"

lemma leads_then:
  assumes "leads L i Q f" and "\<And>f'. Q f' \<Longrightarrow> leads L i P f'"
  shows "leads L i P f"
  using assms(1)
proof induction
  case (leads_done f)
  then show ?case by (rule assms(2))
next
  case (leads_step f)
  then show ?case by (intro leads.leads_step) blast
qed

lemma leads_weaken: "leads L i Q f \<Longrightarrow> (\<And>f'. Q f' \<Longrightarrow> P f') \<Longrightarrow> leads L i P f"
  by (erule leads_then) (rule leads_done)

lemma worker_next_producer: "worker_next L now spurious i f = Some f' \<Longrightarrow> producer f' = producer f"
  by (auto simp: worker_next_def goto_def record_next_def Let_def
      split: bind_splits if_splits stage.splits pop_pc.splits option.splits prod.splits)

lemma leads_producer: "leads L i P f \<Longrightarrow> leads L i (\<lambda>f'. P f' \<and> producer f' = producer f) f"
proof (induction rule: leads.induct)
  case (leads_done f)
  then show ?case by (intro leads.leads_done) simp
next
  case (leads_step f)
  show ?case
  proof (rule leads.leads_step)
    fix now
    obtain f' where f': "worker_next L now False i f = Some f'"
      and l: "leads L i (\<lambda>f''. P f'' \<and> producer f'' = producer f') f'" using leads_step by blast
    with worker_next_producer [OF f'(1)]
    show "\<exists>f'. worker_next L now False i f = Some f' \<and> leads L i (\<lambda>f'. P f' \<and> producer f' = producer f) f'" by auto
  qed
qed

definition worker_at :: "'ac Libs \<Rightarrow> 'w Env \<Rightarrow> usize \<Rightarrow> instant list \<Rightarrow> 'w \<Rightarrow> nat \<Rightarrow> nat \<Rightarrow> NetworkEvent list list
    \<Rightarrow> stage \<Rightarrow> ('ac, 'w) Threads \<Rightarrow> bool" where
  "worker_at L E c starts w i k cs st f \<longleftrightarrow> (\<exists>m. tracked L E c starts w k m cs f) \<and> stages f ! i = st \<and> pending (locals f ! i) = []"

lemma worker_at_mono: "worker_at L E c starts w i k cs st f \<Longrightarrow> k \<le> k' \<Longrightarrow> worker_at L E c starts w i k' cs st f"
  unfolding worker_at_def by (blast intro: tracked_mono)

lemma alerts_get_recorded:
  assumes cfg: "config_ok L c starts" and env: "env_ok E" and i: "i < length starts"
  shows "tracked L E c starts w k m cs f \<Longrightarrow> leads L i (worker_at L E c starts w i k cs (stages f ! i)) f"
proof (induction "2 * length (pending (locals f ! i)) - (if counted (locals f ! i) then 1 else 0)" arbitrary: m f rule: less_induct)
  case less
  let ?w = "locals f ! i"
  show ?case
  proof (cases "pending ?w = []")
    case True
    then show ?thesis using less.prems by (intro leads_done) (auto simp: worker_at_def)
  next
    case False
    let ?f = "record_next i ?w (stages f ! i) f"
    note l = tracked_lengths [OF less.prems]
    have st: "stages ?f ! i = stages f ! i" using i l by (simp add: record_next_def goto_def)
    have w: "locals ?f ! i = (if counted ?w then ?w\<lparr>pending := tl (pending ?w), counted := False\<rparr> else ?w\<lparr>counted := True\<rparr>)"
      using i l by (simp add: record_next_def goto_def)
    obtain x xs where "pending ?w = x # xs" using False by (cases "pending ?w") auto
    then have "leads L i (worker_at L E c starts w i k cs (stages ?f ! i)) ?f"
      by (intro less.hyps [OF _ step_record(2) [OF cfg env less.prems i False]]) (auto simp: w)
    then show ?thesis using step_record(1) [OF cfg env less.prems i False] by (intro leads_step) (auto simp: st)
  qed
qed

lemma detector_gets_called:
  assumes cfg: "config_ok L c starts" and env: "env_ok E" and i: "i < length starts"
    and at_st: "worker_at L E c starts w i k cs st f" and st: "detecting st"
  shows "leads L i (worker_at L E c starts w i k cs (next_stage st)) f"
proof -
  obtain m where tr: "tracked L E c starts w k m cs f" and f: "stages f ! i = st" "pending (locals f ! i) = []"
    using at_st by (auto simp: worker_at_def)
  show ?thesis
  proof (rule leads_step)
    fix now
    obtain x b where n: "worker_next L now False i f = Some (goto i x (next_stage (stages f ! i)) (f\<lparr>app_state := b\<rparr>))"
      and t: "tracked L E c starts w k m cs (goto i x (next_stage (stages f ! i)) (f\<lparr>app_state := b\<rparr>))"
      by (rule step_detect [OF tr i _ f(2)]) (use f(1) st in simp)
    have "stages (goto i x (next_stage (stages f ! i)) (f\<lparr>app_state := b\<rparr>)) ! i = next_stage st"
      using i tracked_lengths [OF tr] f(1) by (simp add: goto_def)
    with alerts_get_recorded [OF cfg env i t] n
    show "\<exists>f'. worker_next L now False i f = Some f' \<and> leads L i (worker_at L E c starts w i k cs (next_stage st)) f'" by auto
  qed
qed

lemma event_gets_handled:
  assumes cfg: "config_ok L c starts" and env: "env_ok E" and i: "i < length starts"
    and at_st: "worker_at L E c starts w i k cs st f" and st: "detecting st"
  shows "leads L i (worker_at L E c starts w i k cs Polling) f"
proof -
  note call = detector_gets_called [OF cfg env i]
  have m: "leads L i (worker_at L E c starts w i k cs Polling) f" if "worker_at L E c starts w i k cs (MatchEvent t e) f" for t e f
    using call [OF that] by simp
  have o: "leads L i (worker_at L E c starts w i k cs Polling) f" if "worker_at L E c starts w i k cs (ObserveEvent t e) f" for t e f
    by (rule leads_then [OF call [OF that]]) (auto intro: m)
  have s: "leads L i (worker_at L E c starts w i k cs Polling) f" if "worker_at L E c starts w i k cs (ScanEvent t e) f" for t e f
    by (rule leads_then [OF call [OF that]]) (auto intro: o)
  have "leads L i (worker_at L E c starts w i k cs Polling) f" if "worker_at L E c starts w i k cs (CountEvent t e) f" for t e f
    by (rule leads_then [OF call [OF that]]) (auto intro: s)
  with m o s at_st st show ?thesis by (cases st) auto
qed

lemma pop_returns_to_loop:
  assumes cfg: "config_ok L c starts" and env: "env_ok E" and i: "i < length starts"
    and at_st: "worker_at L E c starts w i k cs (PopFor t (PopDone v)) f" and k: "k < 2 ^ 62"
  shows "leads L i (worker_at L E c starts w i (Suc k) cs Polling) f"
proof -
  obtain m where tr: "tracked L E c starts w k m cs f" and f: "stages f ! i = PopFor t (PopDone v)" "pending (locals f ! i) = []"
    using at_st by (auto simp: worker_at_def)
  let ?st = "case v of None \<Rightarrow> Polling | Some e \<Rightarrow> CountEvent t e"
  note n = step_return [OF tr i k f]
  have "worker_at L E c starts w i (Suc k) cs ?st (goto i (locals f ! i) ?st f)"
    using n(2) i tracked_lengths [OF tr] f(2) by (auto simp: worker_at_def goto_def)
  then have "leads L i (worker_at L E c starts w i (Suc k) cs Polling) (goto i (locals f ! i) ?st f)"
    by (cases v) (auto intro: leads_done event_gets_handled [OF cfg env i])
  with n(1) show ?thesis by (intro leads_step) blast
qed

text \<open>A call of \<open>pop\<close> without disturbance.\<close>

lemma pop_run_step:
  "pop_active pc \<Longrightarrow> pop_run j [] q pc = Some r \<Longrightarrow>
    \<exists>j'. j = Suc j' \<and> pop_run j' [] (fst (pop_step False q pc)) (snd (pop_step False q pc)) = Some r"
  by (cases j; cases pc) (auto split: prod.splits)

lemma pop_gets_done:
  assumes cfg: "config_ok L c starts" and env: "env_ok E" and i: "i < length starts"
  shows "worker_at L E c starts w i k cs (PopFor t pc) f \<Longrightarrow> pop_active pc \<Longrightarrow> k + j \<le> 2 ^ 62 \<Longrightarrow>
    pop_run j [] (queues (app_state f) ! i) pc = Some r \<Longrightarrow>
    leads L i (\<lambda>f'. \<exists>v cs'. took i cs cs' (PopDone v) \<and> worker_at L E c starts w i (k + j) cs' (PopFor t (PopDone v)) f') f"
proof (induction j arbitrary: k pc f)
  case 0
  then show ?case using pop_run_step by blast
next
  case (Suc j)
  obtain q' pc' where step: "pop_step False (queues (app_state f) ! i) pc = (q', pc')" by fastforce
  then have run: "pop_run j [] q' pc' = Some r" using pop_run_step [OF Suc.prems(2,4)] by simp
  obtain m where tr: "tracked L E c starts w k m cs f" and f: "stages f ! i = PopFor t pc" "pending (locals f ! i) = []"
    using Suc.prems(1) by (auto simp: worker_at_def)
  have k: "k < 2 ^ 62" using Suc.prems(3) by simp
  show ?case
  proof (rule leads_step)
    fix now
    obtain f' cs' where n: "worker_next L now False i f = Some f'" and took: "took i cs cs' pc'"
      and t: "tracked L E c starts w (Suc k) (Suc m) cs' f'" and f': "stages f' ! i = PopFor t pc'" "locals f' = locals f" "queues (app_state f') ! i = q'"
      by (rule step_pop [OF cfg env tr i k f Suc.prems(2) step])
    have at_pc': "worker_at L E c starts w i (Suc k) cs' (PopFor t pc') f'" using t f f' by (auto simp: worker_at_def)
    have "leads L i (\<lambda>f'. \<exists>v cs'. took i cs cs' (PopDone v) \<and> worker_at L E c starts w i (k + Suc j) cs' (PopFor t (PopDone v)) f') f'"
    proof (cases "pop_active pc'")
      case True
      then have "cs' = cs" using took by (cases pc') simp_all
      from Suc.IH [OF at_pc' [unfolded this] True] Suc.prems(3) run f'(3) show ?thesis by simp
    next
      case False
      then obtain v where v: "pc' = PopDone v" using run by (cases pc') auto
      have "tracked L E c starts w (k + Suc j) (Suc m) cs' f'" using t by (rule tracked_mono) simp_all
      with took at_pc' show ?thesis by (intro leads_done) (auto simp: worker_at_def v)
    qed
    with n show "\<exists>f'. worker_next L now False i f = Some f' \<and>
        leads L i (\<lambda>f'. \<exists>v cs'. took i cs cs' (PopDone v) \<and> worker_at L E c starts w i (k + Suc j) cs' (PopFor t (PopDone v)) f') f'"
      by blast
  qed
qed

lemma pop_alone_returns:
  assumes tr: "tracked L E c starts w k m cs f" and i: "i < length starts" and k: "k < 2 ^ 62" and st: "stages f ! i = PopFor t pc"
  obtains r where "pop_run 6 [] (queues (app_state f) ! i) pc = Some r"
proof -
  obtain lss g hist where sim: "explains L c (length starts) k lss f g" using tr by (rule trackedE)
  have run: "spsc_run c 0 1 (lss i) (shard_conf f i)" and b: "length (lss i) < 2 ^ 62"
    by (rule explainsD(4) [OF sim i]) (rule length_spsc [OF sim i k])
  have inv: "q_inv (unat c) (map snd (enq_log (lss i))) (length (deq_log (lss i))) (shared (shard_conf f i)) (threads (shard_conf f i))"
    using run b exec_inv [of c "lss i" "shard_conf f i"] by (simp add: spsc_run_def conf_inv_def)
  have "\<exists>q' r. pop_run 6 [] (shared (shard_conf f i)) pc = Some (q', r)"
    by (rule pop_run_solo [OF inv, of "Suc 0"]) (use st b log_lengths [of "lss i"] in auto)
  then show ?thesis using that by auto
qed

text \<open>A pass of the worker's loop, from wherever it is, and then as many as there are items.\<close>

lemma pop_gets_finished:
  assumes cfg: "config_ok L c starts" and env: "env_ok E" and i: "i < length starts"
    and at_pc: "worker_at L E c starts w i k cs (PopFor t pc) f" and act: "pop_active pc" and k: "k + 7 \<le> 2 ^ 62"
  shows "leads L i (\<lambda>f'. \<exists>v cs'. took i cs cs' (PopDone v) \<and> worker_at L E c starts w i (k + 7) cs' Polling f') f"
proof -
  obtain m where tr: "tracked L E c starts w k m cs f" and st: "stages f ! i = PopFor t pc" using at_pc by (auto simp: worker_at_def)
  obtain r where run: "pop_run 6 [] (queues (app_state f) ! i) pc = Some r"
    by (rule pop_alone_returns [OF tr i _ st]) (use k in simp)
  show ?thesis
  proof (rule leads_then [OF pop_gets_done [OF cfg env i at_pc act _ run]])
    fix f'
    assume "\<exists>v cs'. took i cs cs' (PopDone v) \<and> worker_at L E c starts w i (k + 6) cs' (PopFor t (PopDone v)) f'"
    then obtain v cs' where t: "took i cs cs' (PopDone v)" and w: "worker_at L E c starts w i (k + 6) cs' (PopFor t (PopDone v)) f'"
      by blast
    have "leads L i (worker_at L E c starts w i (Suc (k + 6)) cs' Polling) f'"
      by (rule pop_returns_to_loop [OF cfg env i w]) (use k in simp)
    then show "leads L i (\<lambda>f'. \<exists>v cs'. took i cs cs' (PopDone v) \<and> worker_at L E c starts w i (k + 7) cs' Polling f') f'"
      by (rule leads_weaken) (use t in \<open>auto simp: eval_nat_numeral\<close>)
  qed (use k in simp)
qed

lemma polling_drains:
  assumes cfg: "config_ok L c starts" and env: "env_ok E" and i: "i < length starts"
  shows "worker_at L E c starts w i k cs Polling f \<Longrightarrow> k + 8 * length (cs ! i) \<le> 2 ^ 62 \<Longrightarrow>
    leads L i (\<lambda>f'. \<exists>k' cs'. k' \<le> 2 ^ 62 \<and> cs' ! i = [] \<and> worker_at L E c starts w i k' cs' Polling f') f"
proof (induction "cs ! i" arbitrary: k cs f)
  case Nil
  then show ?case by (intro leads_done) (metis add_leD1)
next
  case (Cons x xs)
  obtain m where tr: "tracked L E c starts w k m cs f" and f: "stages f ! i = Polling" "pending (locals f ! i) = []"
    using Cons.prems(1) by (auto simp: worker_at_def)
  have k: "Suc k + 7 + 8 * length xs \<le> 2 ^ 62" using Cons.prems(2) by (simp flip: Cons.hyps(2))
  have k62: "k < 2 ^ 62" using k by simp
  show ?case
  proof (rule leads_step)
    fix now
    let ?f = "goto i (locals f ! i) (PopFor now PopLoad) f"
    let ?P = "\<lambda>f'. \<exists>k' cs'. k' \<le> 2 ^ 62 \<and> cs' ! i = [] \<and> worker_at L E c starts w i k' cs' Polling f'"
    note n = step_poll [OF tr i k62 f, where now = now]
    have "worker_at L E c starts w i (Suc k) cs (PopFor now PopLoad) ?f"
      using n(2) i tracked_lengths [OF tr] f(2) by (auto simp: worker_at_def goto_def)
    then have "leads L i (\<lambda>f'. \<exists>v cs'. took i cs cs' (PopDone v) \<and> worker_at L E c starts w i (Suc k + 7) cs' Polling f') ?f"
      by (rule pop_gets_finished [OF cfg env i]) (use k in simp_all)
    then have "leads L i ?P ?f"
    proof (rule leads_then)
      fix f'
      assume "\<exists>v cs'. took i cs cs' (PopDone v) \<and> worker_at L E c starts w i (Suc k + 7) cs' Polling f'"
      then obtain v cs' where t: "took i cs cs' (PopDone v)" and w: "worker_at L E c starts w i (Suc k + 7) cs' Polling f'" by blast
      then have "xs = cs' ! i" using Cons.hyps(2) by (cases v) auto
      then show "leads L i ?P f'" using Cons.hyps(1) [OF _ w] k by simp
    qed
    with n(1) [where spurious = False] show "\<exists>f'. worker_next L now False i f = Some f' \<and> leads L i ?P f'" by blast
  qed
qed

lemma worker_gets_to_poll:
  assumes cfg: "config_ok L c starts" and env: "env_ok E" and i: "i < length starts"
    and tr: "tracked L E c starts w k m cs f" and k: "k + 7 \<le> 2 ^ 62"
  shows "leads L i (\<lambda>f'. \<exists>cs'. length (cs' ! i) \<le> length (cs ! i) \<and> worker_at L E c starts w i (k + 7) cs' Polling f') f"
proof (rule leads_then [OF alerts_get_recorded [OF cfg env i tr]])
  let ?P = "\<lambda>f'. \<exists>cs'. length (cs' ! i) \<le> length (cs ! i) \<and> worker_at L E c starts w i (k + 7) cs' Polling f'"
  fix f1
  assume w: "worker_at L E c starts w i k cs (stages f ! i) f1"
  have late: "worker_at L E c starts w i (k + 7) cs Polling f'" if "worker_at L E c starts w i k' cs Polling f'" "k' \<le> k + 7" for k' f'
    using that by (rule worker_at_mono)
  show "leads L i ?P f1"
  proof (cases "detecting (stages f ! i)")
    case True
    show ?thesis by (rule leads_weaken [OF event_gets_handled [OF cfg env i w True]]) (use late in auto)
  next
    case False
    show ?thesis
    proof (cases "stages f ! i")
      case Polling
      then show ?thesis using late [of k f1] w by (intro leads_done) auto
    next
      case (PopFor t pc)
      from tracked_no_panic [OF tr i _ PopFor] k consider "pop_active pc" | v where "pc = PopDone v" by auto
      then show ?thesis
      proof cases
        case 1
        show ?thesis
        proof (rule leads_weaken [OF pop_gets_finished [OF cfg env i w [unfolded PopFor] 1 k]])
          fix f'
          assume "\<exists>v cs'. took i cs cs' (PopDone v) \<and> worker_at L E c starts w i (k + 7) cs' Polling f'"
          then obtain v cs' where "took i cs cs' (PopDone v)" and "worker_at L E c starts w i (k + 7) cs' Polling f'" by blast
          moreover from this have "length (cs' ! i) \<le> length (cs ! i)" by (cases v) auto
          ultimately show "?P f'" by blast
        qed
      next
        case (2 v)
        show ?thesis
          by (rule leads_weaken [OF pop_returns_to_loop [OF cfg env i w [unfolded PopFor 2]]]) (use late k in auto)
      qed
    qed (use False in simp_all)
  qed
qed

lemma tracked_contents_bound:
  assumes "config_ok L c starts" and "env_ok E" and tr: "tracked L E c starts w k m cs f" and i: "i < length starts"
  shows "length (cs ! i) \<le> unat c"
proof -
  obtain g hist where r: "engine_reach L E c starts w g hist" and cs: "contents (system g) = cs" using tr by (rule trackedE)
  have "reach L c starts (system g) (labels hist)" using engine_reach_inv [OF r assms(1,2)] by (simp add: engine_inv_def)
  from reach_inv [OF this assms(1)] have ok: "sys_ok L (length starts) c (system g)" by (simp add: run_inv_def)
  from sys_ok_queue [OF this i] mpmc.bound have "length (queue_list (queues (app (system g)) ! i)) \<le> unat c" by fastforce
  then show ?thesis using ok i by (simp add: contents_def sys_ok_def flip: cs)
qed

lemma worker_at_rest:
  assumes w: "worker_at L E c starts w i k cs Polling f" and i: "i < length starts" and k: "k \<le> 2 ^ 62"
    and e: "cs ! i = []" and p: "\<And>e pc. producer f \<noteq> PushTo i e pc"
  shows "queue_list (queues (app_state f) ! i) = []"
proof -
  obtain m where tr: "tracked L E c starts w k m cs f" and st: "stages f ! i = Polling" using w by (auto simp: worker_at_def)
  then obtain lss g hist where sim: "explains L c (length starts) k lss f g" and cs: "contents (system g) = cs" by (elim trackedE)
  have "producing i (producer f) = QueueConcurrent.Idle" using p by (cases "producer f") auto
  then have "quiescent (shard_conf f i)" using st by (simp add: quiescent_def shard_conf_def)
  then have "items 0 1 (lss i) (shard_conf f i) = queue_list (queues (app_state f) ! i)"
    using as_fifo_idle [of c "lss i" "shard_conf f i" 0 1] explainsD(1,4) [OF sim i] k by (simp add: spsc_run_def items_def)
  then show ?thesis using explainsD(5) [OF sim i] e cs by simp
qed

subsection \<open>The producer on its own\<close>

lemma producer_alone_append:
  "producer_alone E n f = Some f1 \<Longrightarrow> producer_alone E m f1 = Some f2 \<Longrightarrow> producer_alone E (n + m) f = Some f2"
  by (induction n arbitrary: f) (auto split: option.splits)

lemma producer_alone_first: "producer_next E False f = Some f1 \<Longrightarrow> producer_alone E n f1 = Some f2 \<Longrightarrow> producer_alone E (Suc n) f = Some f2"
  by simp

lemma explained_mono: "explained L E c starts w k f \<Longrightarrow> k \<le> k' \<Longrightarrow> explained L E c starts w k' f"
  unfolding explained_def by (blast intro: tracked_mono)

lemma push_run_step:
  "push_active pc \<Longrightarrow> push_run j [] q pc = Some r \<Longrightarrow>
    \<exists>j'. j = Suc j' \<and> push_run j' [] (fst (push_step False q pc)) (snd (push_step False q pc)) = Some r"
  by (cases j; cases pc) (auto split: prod.splits)

lemma explained_push:
  assumes ex: "explained L E c starts w k f" and p: "producer f = PushTo i e pc" and k: "k < 2 ^ 62"
  shows "nth_opt (queues (app_state f)) i = Some (queues (app_state f) ! i)" and "i < length (queues (app_state f))"
    and "push_active pc \<or> (\<exists>x. pc = PushDone x)" and "\<exists>r. push_run 6 [] (queues (app_state f) ! i) pc = Some r"
proof -
  obtain lss g where sim: "explains L c (length starts) k lss f g" using ex by (auto simp: explained_def tracked_def)
  have i: "i < length starts" using explainsD(13) [OF sim] p by (simp add: producer_match_def)
  then show "i < length (queues (app_state f))" using explainsD(2) [OF sim] by simp
  then show "nth_opt (queues (app_state f)) i = Some (queues (app_state f) ! i)" by (simp add: nth_opt_def)
  have run: "spsc_run c 0 1 (lss i) (shard_conf f i)" and b: "length (lss i) < 2 ^ 62"
    by (rule explainsD(4) [OF sim i]) (rule length_spsc [OF sim i k])
  have "pc \<noteq> PushPanic" using spsc_thread_ok(1) [OF run, of 0 e pc] b p by simp
  then show "push_active pc \<or> (\<exists>x. pc = PushDone x)" by (cases pc) auto
  have inv: "q_inv (unat c) (map snd (enq_log (lss i))) (length (deq_log (lss i))) (shared (shard_conf f i)) (threads (shard_conf f i))"
    using run b exec_inv [of c "lss i" "shard_conf f i"] by (simp add: spsc_run_def conf_inv_def)
  have "\<exists>q' r. push_run 6 [] (shared (shard_conf f i)) pc = Some (q', r)"
    by (rule push_run_solo [OF inv, of 0 e]) (use p b log_lengths [of "lss i"] in auto)
  then show "\<exists>r. push_run 6 [] (queues (app_state f) ! i) pc = Some r" by auto
qed

lemma push_gets_done:
  assumes cfg: "config_ok L c starts" and env: "env_ok E"
  shows "explained L E c starts w k f \<Longrightarrow> producer f = PushTo i e pc \<Longrightarrow> k + j < 2 ^ 62 \<Longrightarrow>
    push_run j [] (queues (app_state f) ! i) pc = Some r \<Longrightarrow>
    \<exists>n f' x. producer_alone E n f = Some f' \<and> explained L E c starts w (k + j) f' \<and> producer f' = PushTo i e (PushDone x) \<and>
      rest_of_batch f' = rest_of_batch f"
proof (induction j arbitrary: k pc f)
  case 0
  then obtain x where "pc = PushDone x" using explained_push(3) [OF 0(1,2)] push_run_step by fastforce
  with 0 show ?case by (intro exI [of _ 0] exI [of _ f]) simp
next
  case (Suc j)
  have k: "k < 2 ^ 62" using Suc.prems(3) by simp
  note q = explained_push [OF Suc.prems(1,2) k]
  show ?case
  proof (cases "push_active pc")
    case True
    obtain q' pc' where step: "push_step False (queues (app_state f) ! i) pc = (q', pc')" by fastforce
    then have run: "push_run j [] q' pc' = Some r" using push_run_step [OF True Suc.prems(4)] by simp
    let ?f = "f\<lparr>app_state := (app_state f)\<lparr>queues := (queues (app_state f))[i := q']\<rparr>, producer := PushTo i e pc'\<rparr>"
    have n: "producer_next E False f = Some ?f" using Suc.prems(2) True step by (simp add: producer_next_def q(1))
    then have "explained L E c starts w (Suc k) ?f"
      using producer_next_explained [OF cfg env Suc.prems(1) k, of False] by simp
    from Suc.IH [OF this, of pc'] run Suc.prems(3) q(2) obtain m f' x where "producer_alone E m ?f = Some f'"
      and "explained L E c starts w (Suc k + j) f'" and "producer f' = PushTo i e (PushDone x)" and "rest_of_batch f' = rest_of_batch f"
      by auto
    with n show ?thesis by (intro exI [of _ "Suc m"] exI [of _ f'] exI [of _ x]) simp
  next
    case False
    with q(3) obtain x where "pc = PushDone x" by blast
    with Suc.prems(1,2) explained_mono [OF Suc.prems(1), of "k + Suc j"] show ?thesis
      by (intro exI [of _ 0] exI [of _ f]) simp
  qed
qed

lemma event_gets_routed:
  assumes cfg: "config_ok L c starts" and env: "env_ok E" and ex: "explained L E c starts w k f" and k: "k + 8 < 2 ^ 62"
    and p: "producer f \<noteq> NextEvent"
  shows "\<exists>n f'. producer_alone E n f = Some f' \<and> explained L E c starts w (k + 8) f' \<and> producer f' = NextEvent \<and>
    rest_of_batch f' = rest_of_batch f"
proof -
  have count: "\<exists>n f'. producer_alone E n f = Some f' \<and> explained L E c starts w (Suc m) f' \<and> producer f' = NextEvent \<and>
      rest_of_batch f' = rest_of_batch f"
    if x: "explained L E c starts w m f" and m: "m < 2 ^ 62" and p: "producer f = CountDropped" for m f
  proof -
    obtain f1 where n: "producer_next E False f = Some f1" and x1: "explained L E c starts w (Suc m) f1"
      using producer_next_explained [OF cfg env x m, of False] by blast
    then have "producer f1 = NextEvent" "rest_of_batch f1 = rest_of_batch f" using p by (auto simp: producer_next_def)
    with n x1 show ?thesis by (intro exI [of _ 1] exI [of _ f1]) simp
  qed
  have return: "\<exists>n f'. producer_alone E n f = Some f' \<and> explained L E c starts w (m + 2) f' \<and> producer f' = NextEvent \<and>
      rest_of_batch f' = rest_of_batch f"
    if x: "explained L E c starts w m f" and m: "m + 1 < 2 ^ 62" and p: "producer f = PushTo i e (PushDone r)" for m f i e r
  proof -
    obtain f1 where n: "producer_next E False f = Some f1" and x1: "explained L E c starts w (Suc m) f1"
      using producer_next_explained [OF cfg env x, of False] m by auto
    have f1: "rest_of_batch f1 = rest_of_batch f" "producer f1 = NextEvent \<or> producer f1 = CountDropped"
      using n p by (auto simp: producer_next_def split: sum.splits)
    from f1(2) show ?thesis
    proof
      assume "producer f1 = NextEvent"
      with n f1(1) explained_mono [OF x1, of "m + 2"] show ?thesis by (intro exI [of _ 1] exI [of _ f1]) simp
    next
      assume "producer f1 = CountDropped"
      from count [OF x1 _ this] m obtain n' f' where "producer_alone E n' f1 = Some f'" "explained L E c starts w (Suc (Suc m)) f'"
        "producer f' = NextEvent" "rest_of_batch f' = rest_of_batch f1" by auto
      with n f1(1) show ?thesis by (intro exI [of _ "Suc n'"] exI [of _ f']) simp
    qed
  qed
  show ?thesis
  proof (cases "producer f")
    case (PushTo i e pc)
    have k': "k < 2 ^ 62" using k by simp
    obtain r where run: "push_run 6 [] (queues (app_state f) ! i) pc = Some r" using explained_push(4) [OF ex PushTo k'] by blast
    obtain n f1 x where 1: "producer_alone E n f = Some f1" "explained L E c starts w (k + 6) f1" "producer f1 = PushTo i e (PushDone x)"
      "rest_of_batch f1 = rest_of_batch f" using push_gets_done [OF cfg env ex PushTo _ run] k by auto
    obtain m f' where 2: "producer_alone E m f1 = Some f'" "explained L E c starts w (k + 6 + 2) f'" "producer f' = NextEvent"
      "rest_of_batch f' = rest_of_batch f1" using return [OF 1(2) _ 1(3)] k by auto
    from producer_alone_append [OF 1(1) 2(1)] 1(4) 2(2-4) show ?thesis
      by (intro exI [of _ "n + m"] exI [of _ f']) (simp add: add.commute)
  next
    case CountDropped
    have k': "k < 2 ^ 62" using k by simp
    obtain n f' where "producer_alone E n f = Some f'" "explained L E c starts w (Suc k) f'" "producer f' = NextEvent"
      "rest_of_batch f' = rest_of_batch f" using count [OF ex k' CountDropped] by blast
    with explained_mono [of L E c starts w "Suc k" f' "k + 8"] show ?thesis by auto
  qed (use p in simp)
qed

lemma batch_gets_routed:
  assumes cfg: "config_ok L c starts" and env: "env_ok E"
  shows "explained L E c starts w k f \<Longrightarrow> k + 9 * length (rest_of_batch f) < 2 ^ 62 \<Longrightarrow> producer f = NextEvent \<Longrightarrow>
    \<exists>n f'. producer_alone E n f = Some f' \<and> producer f' = NextEvent \<and> rest_of_batch f' = []"
proof (induction "rest_of_batch f" arbitrary: k f)
  case Nil
  then show ?case by (intro exI [of _ 0] exI [of _ f]) simp
next
  case (Cons e es)
  have k: "Suc k + 8 + 9 * length es < 2 ^ 62" using Cons.prems(2) by (simp flip: Cons.hyps(2))
  then have k': "k < 2 ^ 62" by simp
  obtain f1 where n: "producer_next E False f = Some f1" and x1: "explained L E c starts w (Suc k) f1"
    using producer_next_explained [OF cfg env Cons.prems(1) k', of False] by blast
  have f1: "producer f1 \<noteq> NextEvent" "rest_of_batch f1 = es"
    using n Cons.prems(3) by (auto simp: producer_next_def Let_def simp flip: Cons.hyps(2) split: if_splits bind_splits)
  obtain m f2 where 2: "producer_alone E m f1 = Some f2" "explained L E c starts w (Suc k + 8) f2" "producer f2 = NextEvent"
    "rest_of_batch f2 = es" using event_gets_routed [OF cfg env x1 _ f1(1)] k f1(2) by auto
  from Cons.hyps(1) [OF _ 2(2) _ 2(3)] k 2(4) obtain n' f' where "producer_alone E n' f2 = Some f'" "producer f' = NextEvent"
    "rest_of_batch f' = []" by auto
  with producer_alone_first [OF n producer_alone_append [OF 2(1)]] show ?case by blast
qed

subsection \<open>Progress\<close>

lemma producer_finishes_batch:
  assumes cfg: "config_ok L capacity starts" and env: "env_ok E" and r: "threads_reach L E capacity starts w k f"
    and cap: "unat capacity \<le> 2 ^ 62" and k: "k + 9 * length (rest_of_batch f) + 8 < 2 ^ 62"
  shows "\<exists>n f'. producer_alone E n f = Some f' \<and> producer f' = NextEvent \<and> rest_of_batch f' = []"
proof -
  have ex: "explained L E capacity starts w k f" by (rule threads_explained [OF r cfg env cap]) (use k in simp)
  show ?thesis
  proof (cases "producer f = NextEvent")
    case True
    with batch_gets_routed [OF cfg env ex] k show ?thesis by simp
  next
    case False
    obtain n f1 where 1: "producer_alone E n f = Some f1" "explained L E capacity starts w (k + 8) f1" "producer f1 = NextEvent"
      "rest_of_batch f1 = rest_of_batch f" using event_gets_routed [OF cfg env ex _ False] k by auto
    with batch_gets_routed [OF cfg env 1(2) _ 1(3)] k producer_alone_append [OF 1(1)] show ?thesis by fastforce
  qed
qed

definition caught_up :: "nat \<Rightarrow> producer_pc \<Rightarrow> ('ac, 'w) Threads \<Rightarrow> bool" where
  "caught_up i p f \<longleftrightarrow> stages f ! i = Polling \<and> pending (locals f ! i) = [] \<and>
     ((\<nexists>e pc. p = PushTo i e pc) \<longrightarrow> queue_list (queues (app_state f) ! i) = [])"

lemma worker_catches_up_alone:
  assumes cfg: "config_ok L capacity starts" and env: "env_ok E" and r: "threads_reach L E capacity starts w k f"
    and i: "i < length starts" and k: "k + 8 * unat capacity + 7 \<le> 2 ^ 62"
  shows "leads L i (caught_up i (producer f)) f"
proof -
  obtain cs where tr: "tracked L E capacity starts w k k cs f"
    using threads_explained [OF r cfg env] k by (auto simp: explained_def)
  have b: "length (cs ! i) \<le> unat capacity" by (rule tracked_contents_bound [OF cfg env tr i])
  let ?P = "\<lambda>f'. \<exists>k' cs'. k' \<le> 2 ^ 62 \<and> cs' ! i = [] \<and> worker_at L E capacity starts w i k' cs' Polling f'"
  have "leads L i ?P f"
  proof (rule leads_then [OF worker_gets_to_poll [OF cfg env i tr]])
    fix f'
    assume "\<exists>cs'. length (cs' ! i) \<le> length (cs ! i) \<and> worker_at L E capacity starts w i (k + 7) cs' Polling f'"
    then obtain cs' where "length (cs' ! i) \<le> unat capacity" and "worker_at L E capacity starts w i (k + 7) cs' Polling f'"
      using b le_trans by blast
    with polling_drains [OF cfg env i] k show "leads L i ?P f'" by simp
  qed (use k in simp)
  from leads_producer [OF this] show ?thesis
  proof (rule leads_weaken)
    fix f'
    assume "?P f' \<and> producer f' = producer f"
    then obtain k' cs' where k': "k' \<le> 2 ^ 62" and e: "cs' ! i = []" and w: "worker_at L E capacity starts w i k' cs' Polling f'"
      and p: "producer f' = producer f" by blast
    have "queue_list (queues (app_state f') ! i) = []" if "\<nexists>e pc. producer f = PushTo i e pc"
      by (rule worker_at_rest [OF w i k' e]) (use that p in simp)
    with w show "caught_up i (producer f) f'" by (simp add: caught_up_def worker_at_def)
  qed
qed

end
