(* ===== verification/Api.thy ===== *)
theory Api
  imports PipelineProps
begin

section \<open>The REST API\<close>

text \<open>
  \<^verbatim>\<open>engine/src/api.rs\<close>. A request is an endpoint with its extracted arguments and the value of the
  \<^verbatim>\<open>Authorization\<close> header, if there is one; strings and header values are byte lists. What comes from
  elsewhere is a parameter: \<open>to_str\<close> is \<^verbatim>\<open>HeaderValue::to_str\<close> of crate \<^verbatim>\<open>http\<close>, and \<open>api_token\<close> the result
  of \<^verbatim>\<open>std::env::var("API_TOKEN")\<close>. Routing of other paths and methods, body and query parsing and CORS
  are the work of crates \<^verbatim>\<open>axum\<close> and \<^verbatim>\<open>tower_http\<close>. The handlers run beside the pipeline: \<open>reads k\<close> is the
  shared state at the \<open>k\<close>-th atomic read of the request.
\<close>

record ApiEnv =
  to_str :: "bytes \<Rightarrow> bytes option"
  api_token :: "bytes option"

record LoginRequest =
  token :: bytes

record LoginResponse =
  ok :: bool

record HealthResponse =
  health_status :: string
  health_events_processed :: u64
  health_events_dropped :: u64

record StatsResponse =
  stats_events_processed :: u64
  stats_events_dropped :: u64
  stats_alerts_fired :: u64
  queue_backpressure_events :: u64

record AlertsQuery =
  limit :: "usize option"

record RuleSummary =
  summary_name :: string
  summary_detector :: string
  summary_description :: string

datatype Endpoint = GetHealth | PostLogin LoginRequest | GetStats | GetAlerts AlertsQuery | GetRules

datatype Body =
    HealthBody HealthResponse
  | LoginBody LoginResponse
  | StatsBody StatsResponse
  | AlertsBody "Alert list"
  | RulesBody "RuleSummary list"
  | TextBody string

type_synonym Response = "nat \<times> Body"

definition expected_token :: "ApiEnv \<Rightarrow> bytes" where
  "expected_token env = (case api_token env of Some t \<Rightarrow> t | None \<Rightarrow> bytes_of ''dev-token-change-me'')"

definition bearer :: "ApiEnv \<Rightarrow> bytes" where
  "bearer env = bytes_of ''Bearer '' @ expected_token env"

definition require_auth :: "ApiEnv \<Rightarrow> bytes option \<Rightarrow> Response \<Rightarrow> Response" where
  "require_auth env authorization response =
     (let ok = (case Option.bind authorization (to_str env) of
                  Some v \<Rightarrow> v = bearer env
                | None \<Rightarrow> False)
      in if ok then response else (401, TextBody ''missing or invalid bearer token''))"

definition login :: "ApiEnv \<Rightarrow> LoginRequest \<Rightarrow> Response" where
  "login env req =
     (if token req = expected_token env then (200, LoginBody \<lparr>ok = True\<rparr>) else (401, LoginBody \<lparr>ok = False\<rparr>))"

definition health :: "(nat \<Rightarrow> AppState) \<Rightarrow> HealthResponse" where
  "health reads = \<lparr>health_status = ''ok'', health_events_processed = events_processed (reads 0),
     health_events_dropped = events_dropped (reads 1)\<rparr>"

definition stats :: "(nat \<Rightarrow> AppState) \<Rightarrow> StatsResponse" where
  "stats reads = \<lparr>stats_events_processed = events_processed (reads 0), stats_events_dropped = events_dropped (reads 1),
     stats_alerts_fired = alerts_fired (reads 2), queue_backpressure_events = events_dropped (reads 3)\<rparr>"

definition alerts_page :: "(nat \<Rightarrow> AppState) \<Rightarrow> AlertsQuery \<Rightarrow> Alert list" where
  "alerts_page reads q =
     (let limit = min (case limit q of Some l \<Rightarrow> l | None \<Rightarrow> 200) 5000
      in take (unat limit) (rev (alerts (reads 0))))"

definition rules :: "RuleSummary list" where
  "rules =
     [\<lparr>summary_name = ''path-traversal-passwd'', summary_detector = ''signature'',
        summary_description = ''Aho-Corasick match on '' @ [CHR 0x27] @ ''/etc/passwd'' @ [CHR 0x27] @ '' in payload sample''\<rparr>,
      \<lparr>summary_name = ''sql-injection-union'', summary_detector = ''signature'',
        summary_description = ''Aho-Corasick match on '' @ [CHR 0x27] @ ''UNION SELECT'' @ [CHR 0x27] @ '' in payload sample''\<rparr>,
      \<lparr>summary_name = ''syn-flood-anomaly'', summary_detector = ''anomaly'',
        summary_description = ''Count-Min Sketch estimated SYN count per source exceeds threshold within window''\<rparr>,
      \<lparr>summary_name = ''port-scan-anomaly'', summary_detector = ''anomaly'',
        summary_description = ''HyperLogLog estimated distinct destination ports per source exceeds threshold within window''\<rparr>,
      \<lparr>summary_name = ''probe-then-exploit-attempt'', summary_detector = ''cep'',
        summary_description = ''NFA sequence: SYN probe followed by known-bad payload from same source within 5s window''\<rparr>]"

fun build_router :: "ApiEnv \<Rightarrow> (nat \<Rightarrow> AppState) \<Rightarrow> bytes option \<Rightarrow> Endpoint \<Rightarrow> Response" where
  "build_router env reads authorization GetHealth = (200, HealthBody (health reads))"
| "build_router env reads authorization (PostLogin req) = login env req"
| "build_router env reads authorization GetStats = require_auth env authorization (200, StatsBody (stats reads))"
| "build_router env reads authorization (GetAlerts q) = require_auth env authorization (200, AlertsBody (alerts_page reads q))"
| "build_router env reads authorization GetRules = require_auth env authorization (200, RulesBody rules)"

fun protected :: "Endpoint \<Rightarrow> bool" where
  "protected GetStats \<longleftrightarrow> True"
| "protected (GetAlerts q) \<longleftrightarrow> True"
| "protected GetRules \<longleftrightarrow> True"
| "protected GetHealth \<longleftrightarrow> False"
| "protected (PostLogin req) \<longleftrightarrow> False"

text \<open>The documented behaviour of \<open>to_str\<close>: visible ASCII text is returned as it is; anything returned is the
  value itself and ASCII.\<close>

definition visible :: "bytes \<Rightarrow> bool" where
  "visible s \<longleftrightarrow> (\<forall>b \<in> set s. 32 \<le> b \<and> b < 127)"

definition to_str_ok :: "(bytes \<Rightarrow> bytes option) \<Rightarrow> bool" where
  "to_str_ok f \<longleftrightarrow> (\<forall>v. visible v \<longrightarrow> f v = Some v) \<and> (\<forall>v s. f v = Some s \<longrightarrow> s = v \<and> ascii v)"

lemma require_auth_cases:
  "require_auth env authorization response =
    (if Option.bind authorization (to_str env) = Some (bearer env) then response
     else (401, TextBody ''missing or invalid bearer token''))"
  by (auto simp: require_auth_def Let_def split: option.split)

lemma visible_append [simp]: "visible (s @ t) \<longleftrightarrow> visible s \<and> visible t"
  by (auto simp: visible_def)

lemma bearer_header:
  assumes "to_str_ok (to_str env)" and "visible (expected_token env)"
  shows "Option.bind authorization (to_str env) = Some (bearer env) \<longleftrightarrow>
    authorization = Some (bearer env)"
proof -
  have "visible (bytes_of ''Bearer '')" by (simp add: visible_def word_le_nat_alt word_less_nat_alt)
  then have "to_str env (bearer env) = Some (bearer env)" using assms by (simp add: to_str_ok_def bearer_def del: bytes_of_Cons)
  moreover have "v = bearer env" if "to_str env v = Some (bearer env)" for v using assms(1) that unfolding to_str_ok_def by blast
  ultimately show ?thesis by (cases authorization) auto
qed

lemma require_auth_bearer:
  assumes "to_str_ok (to_str env)" and "visible (expected_token env)"
  shows "require_auth env authorization response =
    (if authorization = Some (bearer env) then response else (401, TextBody ''missing or invalid bearer token''))"
  unfolding require_auth_cases bearer_header [OF assms] ..

text \<open>
  C25: Only the bearer token opens the protected endpoints. For a token of visible ASCII
  characters, /stats, /alerts and /rules answer 200 exactly when the Authorization header is
  "Bearer " followed by the token; otherwise the answer is always the same 401, whatever the
  engine's state, so it tells nothing of it.
\<close>

theorem protected_endpoints_need_the_token:
  assumes "to_str_ok (to_str env)" and "visible (expected_token env)" and "protected ep"
  shows "if authorization = Some (bearer env) then fst (build_router env reads authorization ep) = 200
    else (\<forall>reads'. build_router env reads' authorization ep = (401, TextBody ''missing or invalid bearer token''))"
  using assms(3) by (cases ep) (simp_all add: require_auth_bearer [OF assms(1,2)])

text \<open>
  C38: A token with a byte outside ASCII locks everyone out: /login accepts it, but no
  Authorization header whatever, the right one included, opens a protected endpoint, since a
  header value that is not ASCII is never read as text.
\<close>

theorem token_outside_ascii_locks_out:
  assumes "to_str_ok (to_str env)" and "api_token env = Some t" and "\<not> ascii t"
  shows "build_router env reads None (PostLogin \<lparr>token = t\<rparr>) = (200, LoginBody \<lparr>ok = True\<rparr>) \<and>
    (\<forall>ep authorization. protected ep \<longrightarrow> fst (build_router env reads authorization ep) = 401)"
proof -
  have t: "expected_token env = t" by (simp add: expected_token_def assms(2))
  have "\<not> ascii (bytes_of ''Bearer '' @ t)" using assms(3) by (auto simp: ascii_def)
  then have "Option.bind authorization (to_str env) \<noteq> Some (bytes_of ''Bearer '' @ t)" for authorization
    using assms(1) by (cases authorization) (auto simp: to_str_ok_def)
  then have "fst (build_router env reads authorization ep) = 401" if "protected ep" for ep authorization
    using that by (cases ep) (simp_all add: require_auth_cases bearer_def t del: bytes_of_Cons)
  then show ?thesis by (simp add: login_def t)
qed

lemma take_newest:
  assumes "k \<le> cap"
  shows "take k (rev (drop (length xs - cap) xs)) = take k (rev xs)"
proof -
  have "min k (length xs - (length xs - cap)) = min k (length xs)" using assms by linarith
  then show ?thesis by (simp add: rev_drop min.commute) (metis length_rev take_all_iff min.cobounded2 min_def nat_le_linear)
qed

text \<open>
  C28: The bounded history cannot be noticed. In every reachable state, /alerts returns the
  newest alerts first, as many as the limit asks for (200 by default, at most 5000), exactly
  as if the store had never thrown an alert away.
\<close>

theorem alerts_endpoint_newest_first:
  assumes "config_ok L capacity starts" and "reach L capacity starts s trace"
  shows "alerts_page (\<lambda>_. app s) q =
    take (min (case limit q of Some l \<Rightarrow> unat l | None \<Rightarrow> 200) 5000) (rev (map snd (stored trace)))"
proof -
  have a: "alerts (app s) = drop (length (stored trace) - 5000) (map snd (stored trace))"
    using reach_inv [OF assms(2,1)] by (simp add: run_inv_def alerts_inv_def alert_history_cap_def)
  have "unat (min l 5000) = min (unat l) 5000" for l :: usize by (simp add: min_def word_le_nat_alt)
  then have "alerts_page (\<lambda>_. app s) q =
      take (min (case limit q of Some l \<Rightarrow> unat l | None \<Rightarrow> 200) 5000) (rev (alerts (app s)))"
    by (simp add: alerts_page_def Let_def split: option.split)
  then show ?thesis using take_newest [of _ 5000 "map snd (stored trace)"] by (simp add: a)
qed

lemma count_list_same: "count_list (replicate n x) x = n"
  by (induction n) simp_all

text \<open>
  The list of /rules is incomplete: the default signature detector raises an alert of
  severity Critical under a rule name that /rules does not list (windows-cmd-exec, for a
  payload "cmd.exe").
\<close>

theorem rules_endpoint_hides_a_critical_rule:
  assumes "overlapping_search build search"
  shows "\<exists>d d' a e. sig_with_default_rules build = Some d \<and> scan search e d = Some (d', [a]) \<and> severity a = Critical \<and>
    rule_name a \<notin> set (map summary_name rules)"
proof -
  define e :: NetworkEvent where "e = \<lparr>timestamp_ms = 0, src_ip = 1, dst_ip = 2, src_port = 1024, dst_port = 80,
    protocol = Tcp, flags = 0, payload_sample = bytes_of ''cmd.exe''\<rparr>"
  have p: "payload_sample e = bytes_of ''cmd.exe''" by (simp add: e_def)
  obtain d where d: "sig_with_default_rules build = Some d" "sig_ok build search d"
    using sig_built [OF assms] by blast
  obtain ids als where r: "scan search e d = Some (d\<lparr>sig_next_id := sig_next_id d + of_nat (length als)\<rparr>, als)"
    and n: "map rule_name als = map (\<lambda>i. default_names ! i) ids" and sv: "map severity als = map (\<lambda>i. default_severities ! i) ids"
    and c: "\<forall>i < 5. count_list ids i = occurrences (map bytes_of default_patterns ! i) (payload_sample e)"
    and i: "\<forall>i \<in> set ids. i < 5"
    by (rule scan_result [OF d(2)])
  have "map (\<lambda>q. occurrences (bytes_of q) (bytes_of ''cmd.exe'')) default_patterns = [0, 0, 0, 1, 0]"
    by code_simp
  then have o: "occurrences (map bytes_of default_patterns ! i) (bytes_of ''cmd.exe'') = [0, 0, 0, 1, 0] ! i" if "i < 5" for i
    using that by (metis (no_types, lifting) default_lengths(1) nth_map)
  have cl: "count_list ids i = (if i = 3 then 1 else 0)" for i
  proof (cases "i < 5")
    case True
    then have "i = 0 \<or> i = 1 \<or> i = 2 \<or> i = 3 \<or> i = 4" by linarith
    moreover have "count_list ids i = [0, 0, 0, 1, 0] ! i" using c True o [OF True] by (simp only: p)
    ultimately show ?thesis by (elim disjE) (simp_all add: nth_Cons')
  next
    case False
    then show ?thesis using i by (auto simp: count_list_0_iff)
  qed
  then have ids: "ids = replicate (length ids) 3"
    by (metis count_list_0_iff replicate_eqI zero_neq_one)
  moreover have "length ids = 1" using cl [of 3] ids by (metis count_list_same)
  ultimately have "ids = [3]" by simp
  then obtain a where a: "als = [a]" "rule_name a = default_names ! 3" "severity a = default_severities ! 3"
    using n sv by auto
  have "rule_name a \<notin> set (map summary_name rules)" unfolding a(2) by code_simp
  moreover have "severity a = Critical" by (simp add: a(3) default_severities_def)
  ultimately show ?thesis using d(1) r a(1) by blast
qed

subsection \<open>Examples\<close>

definition example_to_str :: "bytes \<Rightarrow> bytes option" where
  "example_to_str v = (if list_all (\<lambda>b. 32 \<le> b \<and> b < 127 \<or> b = 9) v then Some v else None)"

lemma example_to_str_ok: "to_str_ok example_to_str"
  by (auto simp: to_str_ok_def example_to_str_def visible_def ascii_def list_all_iff word_less_nat_alt split: if_splits)

definition example_api :: "bytes option \<Rightarrow> ApiEnv" where
  "example_api t = \<lparr>to_str = example_to_str, api_token = t\<rparr>"

theorem protected_endpoints_need_the_token_witness:
  "\<forall>st. fst (build_router (example_api None) (\<lambda>_. st) (Some (bytes_of ''Bearer dev-token-change-me'')) GetStats) = 200 \<and>
     build_router (example_api None) (\<lambda>_. st) (Some (bytes_of ''Bearer guess'')) GetStats =
       (401, TextBody ''missing or invalid bearer token'')" (is "\<forall>st. ?P st")
proof (rule allI)
  fix st :: AppState
  have o: "to_str_ok (to_str (example_api None))" by (simp add: example_api_def example_to_str_ok)
  have v: "visible (expected_token (example_api None))"
    by (simp add: expected_token_def example_api_def visible_def word_le_nat_alt word_less_nat_alt)
  have b: "bearer (example_api None) = bytes_of ''Bearer dev-token-change-me''"
    by (simp add: bearer_def expected_token_def example_api_def)
  have "bytes_of ''Bearer guess'' \<noteq> bytes_of ''Bearer dev-token-change-me''" by simp
  then show "?P st"
    using protected_endpoints_need_the_token [OF o v, of GetStats "Some (bytes_of ''Bearer dev-token-change-me'')" "\<lambda>_. st"]
      protected_endpoints_need_the_token [OF o v, of GetStats "Some (bytes_of ''Bearer guess'')" "\<lambda>_. st"]
    unfolding b by (simp del: bytes_of_Cons build_router.simps)
qed

theorem token_outside_ascii_locks_out_witness:
  "\<forall>st. build_router (example_api (Some [0xC3, 0xA9])) (\<lambda>_. st) None (PostLogin \<lparr>token = [0xC3, 0xA9]\<rparr>) = (200, LoginBody \<lparr>ok = True\<rparr>) \<and>
   fst (build_router (example_api (Some [0xC3, 0xA9])) (\<lambda>_. st) (Some (bytes_of ''Bearer '' @ [0xC3, 0xA9])) GetStats) = 401"
  (is "\<forall>st. ?P st")
proof -
  have o: "to_str_ok (to_str (example_api (Some [0xC3, 0xA9])))" "api_token (example_api (Some [0xC3, 0xA9])) = Some [0xC3, 0xA9]"
    by (simp_all add: example_api_def example_to_str_ok)
  have "\<not> ascii [0xC3, 0xA9]" by (simp add: ascii_def)
  note locked = token_outside_ascii_locks_out [OF o this]
  show ?thesis
  proof (rule allI)
    fix st :: AppState
    show "?P st" using locked [of "\<lambda>_. st"] by (simp del: build_router.simps bytes_of_Cons)
  qed
qed

theorem alerts_endpoint_newest_first_witness:
  "\<exists>s trace. reach example_libs 2 [0] s trace \<and> inputs_of 0 trace = example_inputs \<and>
    alerts_page (\<lambda>_. app s) \<lparr>limit = Some 3\<rparr> = take 3 (rev (map snd (stored trace)))"
proof -
  obtain s trace where r: "reach example_libs 2 [0] s trace" "inputs_of 0 trace = example_inputs"
    using reach_feeds [OF example_config, of example_inputs] by blast
  have "alerts_page (\<lambda>_. app s) \<lparr>limit = Some 3\<rparr> = take 3 (rev (map snd (stored trace)))"
    using alerts_endpoint_newest_first [OF example_config r(1), of "\<lparr>limit = Some 3\<rparr>"] by simp
  with r show ?thesis by blast
qed

theorem rules_endpoint_hides_a_critical_rule_witness:
  "\<exists>d d' a e. sig_with_default_rules naive_build = Some d \<and> scan naive_search e d = Some (d', [a]) \<and> severity a = Critical \<and>
    rule_name a \<notin> set (map summary_name rules)"
  by (rule rules_endpoint_hides_a_critical_rule [OF naive_overlapping])

end
