(* ===== verification/AlertLock.thy ===== *)
theory AlertLock
  imports ThreadsProgress Api
begin

section \<open>The lock of the alert store\<close>

text \<open>
  \<^verbatim>\<open>alerts: Mutex<VecDeque<Alert>>\<close> of \<^verbatim>\<open>engine/src/pipeline.rs\<close> and the threads that take it: a worker in
  \<^verbatim>\<open>record_alert\<close> and a request in the handler \<^verbatim>\<open>alerts\<close> of \<^verbatim>\<open>engine/src/api.rs\<close>. What is one step in theory \<open>Threads\<close>
  is four here: taking the lock, \<^verbatim>\<open>push_back\<close>, the test of the length with its \<^verbatim>\<open>pop_front\<close>, and the drop
  of the guard. A thread may stop between any two of them, and a thread that finds the lock taken waits: its
  step changes nothing. No step taken with the lock held can panic, so the lock is never poisoned.
\<close>

subsection \<open>Threads and lock\<close>

datatype record_pc = LockTaken | AlertAppended | StoreTrimmed

text \<open>The thread that holds the lock: a worker at a point of \<^verbatim>\<open>record_alert\<close>, or a request.\<close>

datatype holder = Recording nat record_pc | Answering nat

datatype request = NotAsked | Asked AlertsQuery | LockedFor AlertsQuery | PageTaken "Alert list" | Responded "Alert list"

record ('ac, 'w) Locked =
  threads_of :: "('ac, 'w) Threads"
  alerts_lock :: "holder option"
  requests :: "nat \<Rightarrow> request"

definition locked_new :: "'ac Libs \<Rightarrow> usize \<Rightarrow> instant list \<Rightarrow> 'w \<Rightarrow> ('ac, 'w) Locked option" where
  "locked_new L capacity starts w = do {
     f \<leftarrow> threads_new L capacity starts w;
     Some \<lparr>threads_of = f, alerts_lock = None, requests = (\<lambda>_. NotAsked)\<rparr>
   }"

definition append_alert :: "Alert \<Rightarrow> ('ac, 'w) Threads \<Rightarrow> ('ac, 'w) Threads" where
  "append_alert a f = f\<lparr>app_state := (app_state f)\<lparr>alerts := alerts (app_state f) @ [a]\<rparr>\<rparr>"

definition trimmed :: "Alert list \<Rightarrow> Alert list" where
  "trimmed as = (if alert_history_cap < length as then tl as else as)"

definition trim_store :: "('ac, 'w) Threads \<Rightarrow> ('ac, 'w) Threads" where
  "trim_store f = f\<lparr>app_state := (app_state f)\<lparr>alerts := trimmed (alerts (app_state f))\<rparr>\<rparr>"

text \<open>Back in the loop over the alerts of a detector call.\<close>

definition next_alert :: "nat \<Rightarrow> ('ac, 'w) Threads \<Rightarrow> ('ac, 'w) Threads" where
  "next_alert i f = (let w = locals f ! i in goto i (w\<lparr>pending := tl (pending w), counted := False\<rparr>) (stages f ! i) f)"

definition locked_worker_next :: "'ac Libs \<Rightarrow> clocks \<Rightarrow> bool \<Rightarrow> nat \<Rightarrow> ('ac, 'w) Locked \<Rightarrow> ('ac, 'w) Locked option" where
  "locked_worker_next L now spurious i F = do {
     w \<leftarrow> nth_opt (locals (threads_of F)) i;
     if pending w = [] \<or> \<not> counted w
     then do { f \<leftarrow> worker_next L now spurious i (threads_of F); Some (F\<lparr>threads_of := f\<rparr>) }
     else case alerts_lock F of
       None \<Rightarrow> Some (F\<lparr>alerts_lock := Some (Recording i LockTaken)\<rparr>)
     | Some (Answering r) \<Rightarrow> Some F
     | Some (Recording j pc) \<Rightarrow>
         if j \<noteq> i then Some F
         else (case pc of
             LockTaken \<Rightarrow> Some (F\<lparr>threads_of := append_alert (hd (pending w)) (threads_of F),
                 alerts_lock := Some (Recording i AlertAppended)\<rparr>)
           | AlertAppended \<Rightarrow> Some (F\<lparr>threads_of := trim_store (threads_of F), alerts_lock := Some (Recording i StoreTrimmed)\<rparr>)
           | StoreTrimmed \<Rightarrow> Some (F\<lparr>threads_of := next_alert i (threads_of F), alerts_lock := None\<rparr>))
   }"

definition locked_producer_next :: "'w Env \<Rightarrow> bool \<Rightarrow> ('ac, 'w) Locked \<Rightarrow> ('ac, 'w) Locked option" where
  "locked_producer_next E spurious F = do { f \<leftarrow> producer_next E spurious (threads_of F); Some (F\<lparr>threads_of := f\<rparr>) }"

text \<open>The handler of \<^verbatim>\<open>/alerts\<close>; the guard is dropped when it returns.\<close>

definition request_next :: "nat \<Rightarrow> ('ac, 'w) Locked \<Rightarrow> ('ac, 'w) Locked" where
  "request_next r F = (case requests F r of
     Asked q \<Rightarrow> (if alerts_lock F = None
         then F\<lparr>alerts_lock := Some (Answering r), requests := (requests F)(r := LockedFor q)\<rparr> else F)
   | LockedFor q \<Rightarrow> F\<lparr>requests := (requests F)(r := PageTaken (alerts_page (\<lambda>_. app_state (threads_of F)) q))\<rparr>
   | PageTaken out \<Rightarrow> F\<lparr>alerts_lock := None, requests := (requests F)(r := Responded out)\<rparr>
   | _ \<Rightarrow> F)"

inductive locked_reach :: "'ac Libs \<Rightarrow> 'w Env \<Rightarrow> usize \<Rightarrow> instant list \<Rightarrow> 'w \<Rightarrow> nat \<Rightarrow> ('ac, 'w) Locked \<Rightarrow> bool"
  for L E capacity starts w where
  locked_start: "locked_new L capacity starts w = Some F \<Longrightarrow> locked_reach L E capacity starts w 0 F"
| locked_producer: "locked_reach L E capacity starts w k F \<Longrightarrow> locked_producer_next E spurious F = Some F' \<Longrightarrow>
    locked_reach L E capacity starts w (Suc k) F'"
| locked_worker: "locked_reach L E capacity starts w k F \<Longrightarrow> i < length (locals (threads_of F)) \<Longrightarrow>
    locked_worker_next L now spurious i F = Some F' \<Longrightarrow> locked_reach L E capacity starts w (Suc k) F'"
| locked_asks: "locked_reach L E capacity starts w k F \<Longrightarrow> requests F r = NotAsked \<Longrightarrow>
    locked_reach L E capacity starts w (Suc k) (F\<lparr>requests := (requests F)(r := Asked q)\<rparr>)"
| locked_request: "locked_reach L E capacity starts w k F \<Longrightarrow> locked_reach L E capacity starts w (Suc k) (request_next r F)"

subsection \<open>Taking the critical section apart changes nothing\<close>

text \<open>The critical section takes effect at its \<^verbatim>\<open>push_back\<close>: the state of theory \<open>Threads\<close> a state stands for.\<close>

definition adjust :: "nat \<Rightarrow> (Alert list \<Rightarrow> Alert list) \<Rightarrow> ('ac, 'w) Threads \<Rightarrow> ('ac, 'w) Threads" where
  "adjust i g f = next_alert i (f\<lparr>app_state := (app_state f)\<lparr>alerts := g (alerts (app_state f))\<rparr>\<rparr>)"

definition unlocked :: "('ac, 'w) Locked \<Rightarrow> ('ac, 'w) Threads" where
  "unlocked F = (case alerts_lock F of
     Some (Recording i AlertAppended) \<Rightarrow> adjust i trimmed (threads_of F)
   | Some (Recording i StoreTrimmed) \<Rightarrow> adjust i id (threads_of F)
   | _ \<Rightarrow> threads_of F)"

lemma record_next_store:
  "counted (locals f ! i) \<Longrightarrow> record_next i (locals f ! i) (stages f ! i) f =
    next_alert i (trim_store (append_alert (hd (pending (locals f ! i))) f))"
  by (simp add: record_next_def next_alert_def goto_def trim_store_def append_alert_def store_alert_def trimmed_def Let_def)

lemma producer_next_adjust: "producer_next E spurious (adjust i g f) = map_option (adjust i g) (producer_next E spurious f)"
  by (simp add: producer_next_def adjust_def next_alert_def goto_def Let_def
      split: producer_pc.split list.split push_pc.split sum.split prod.split option.split bind_split)

lemma adjust_simps [simp]:
  "queues (app_state (adjust i g f)) = queues (app_state f)" "events_processed (app_state (adjust i g f)) = events_processed (app_state f)"
  "producer (adjust i g f) = producer f" "rest_of_batch (adjust i g f) = rest_of_batch f"
  "length (locals (adjust i g f)) = length (locals f)" "length (stages (adjust i g f)) = length (stages f)"
  "stages (adjust i g f) = stages f"
  by (simp_all add: adjust_def next_alert_def goto_def Let_def)

lemma list_update_keep: "i \<noteq> j \<Longrightarrow> (xs[j := y])[i := xs ! i] = xs[j := y]"
  by (metis list_update_id nth_list_update_neq)

lemma alerts_update_swap:
  "(st :: AppState)\<lparr>alerts := as, queues := qs\<rparr> = st\<lparr>queues := qs, alerts := as\<rparr>"
  "st\<lparr>alerts := as, events_processed := n\<rparr> = st\<lparr>events_processed := n, alerts := as\<rparr>"
  "st\<lparr>alerts := as, alerts_fired := n\<rparr> = st\<lparr>alerts_fired := n, alerts := as\<rparr>"
  by (cases st; simp)+

lemma adjust_other:
  assumes "i \<noteq> j"
  shows "locals (adjust i g f) ! j = locals f ! j" "nth_opt (locals (adjust i g f)) j = nth_opt (locals f) j"
    "goto j w st (adjust i g f) = adjust i g (goto j w st f)"
    "goto j w st ((adjust i g f)\<lparr>app_state := (app_state (adjust i g f))\<lparr>queues := qs\<rparr>\<rparr>) =
      adjust i g (goto j w st (f\<lparr>app_state := (app_state f)\<lparr>queues := qs\<rparr>\<rparr>))"
    "goto j w st ((adjust i g f)\<lparr>app_state := (app_state (adjust i g f))\<lparr>events_processed := n\<rparr>\<rparr>) =
      adjust i g (goto j w st (f\<lparr>app_state := (app_state f)\<lparr>events_processed := n\<rparr>\<rparr>))"
    "goto j w st ((adjust i g f)\<lparr>app_state := count_alert (app_state (adjust i g f))\<rparr>) =
      adjust i g (goto j w st (f\<lparr>app_state := count_alert (app_state f)\<rparr>))"
  using assms by (simp_all add: adjust_def next_alert_def goto_def Let_def nth_opt_def count_alert_def list_update_swap
      list_update_keep alerts_update_swap)

lemma worker_next_adjust:
  assumes "i \<noteq> j" and "pending (locals f ! j) = [] \<or> \<not> counted (locals f ! j)"
  shows "worker_next L now spurious j (adjust i g f) = map_option (adjust i g) (worker_next L now spurious j f)"
proof (cases "j < length (locals f) \<and> j < length (stages f)")
  case False
  then show ?thesis by (auto simp: worker_next_def adjust_other(2) [OF assms(1)] nth_opt_def)
next
  case True
  note adj = adjust_other [OF assms(1)]
  show ?thesis
  proof (cases "pending (locals f ! j) = []")
    case False
    with True assms(2) show ?thesis by (simp add: worker_next_def nth_opt_def adj record_next_def)
  next
    case p: True
    show ?thesis
      using True p
      by (cases "stages f ! j")
        (auto simp: worker_next_def nth_opt_def adj Let_def split: pop_pc.split option.split prod.split bind_split)
  qed
qed

text \<open>What a step of one thread leaves alone.\<close>

lemma producer_next_locals: "producer_next E spurious f = Some f' \<Longrightarrow> locals f' = locals f \<and> stages f' = stages f"
  by (auto simp: producer_next_def Let_def split: producer_pc.splits list.splits push_pc.splits sum.splits prod.splits bind_splits if_splits)

lemma worker_next_others:
  assumes "worker_next L now spurious i f = Some f'"
  shows "length (locals f') = length (locals f)" "length (stages f') = length (stages f)"
    "j \<noteq> i \<Longrightarrow> locals f' ! j = locals f ! j" "producer f' = producer f"
  using assms by (auto simp: worker_next_def goto_def record_next_def Let_def
      split: bind_splits if_splits stage.splits pop_pc.splits option.splits prod.splits)

text \<open>The holder of the lock is inside its critical section.\<close>

definition storing :: "nat \<Rightarrow> ('ac, 'w) Threads \<Rightarrow> bool" where
  "storing i f \<longleftrightarrow> i < length (locals f) \<and> pending (locals f ! i) \<noteq> [] \<and> counted (locals f ! i)"

definition holder_ok :: "('ac, 'w) Locked \<Rightarrow> bool" where
  "holder_ok F \<longleftrightarrow> length (stages (threads_of F)) = length (locals (threads_of F)) \<and>
     (\<forall>i pc. alerts_lock F = Some (Recording i pc) \<longrightarrow> storing i (threads_of F)) \<and>
     (\<forall>r. alerts_lock F = Some (Answering r) \<longleftrightarrow> (\<exists>q. requests F r = LockedFor q) \<or> (\<exists>out. requests F r = PageTaken out))"

lemma storing_other:
  assumes "worker_next L now spurious j f = Some f'" and "i \<noteq> j"
  shows "storing i f' = storing i f"
  unfolding storing_def worker_next_others(1) [OF assms(1)] worker_next_others(3) [OF assms(1) assms(2)] ..

lemma storing_frame [simp]:
  "storing j (append_alert a f) = storing j f" "storing j (trim_store f) = storing j f"
  by (simp_all add: storing_def append_alert_def trim_store_def)

lemma locked_lengths [simp]:
  "length (locals (append_alert a f)) = length (locals f)" "length (locals (trim_store f)) = length (locals f)"
  "length (locals (next_alert i f)) = length (locals f)"
  "length (stages (append_alert a f)) = length (stages f)" "length (stages (trim_store f)) = length (stages f)"
  "length (stages (next_alert i f)) = length (stages f)"
  by (simp_all add: append_alert_def trim_store_def next_alert_def goto_def Let_def)

text \<open>The four cases of a step of a worker.\<close>

lemma locked_worker_cases:
  assumes "locked_worker_next L now spurious i F = Some F'"
  obtains (outside) f where "\<not> storing i (threads_of F)" and "worker_next L now spurious i (threads_of F) = Some f" and "F' = F\<lparr>threads_of := f\<rparr>"
    | (takes) "storing i (threads_of F)" and "alerts_lock F = None" and "F' = F\<lparr>alerts_lock := Some (Recording i LockTaken)\<rparr>"
    | (waits) h where "alerts_lock F = Some h" and "\<And>pc. h \<noteq> Recording i pc" and "F' = F"
    | (appends) "storing i (threads_of F)" and "alerts_lock F = Some (Recording i LockTaken)" and
        "F' = F\<lparr>threads_of := append_alert (hd (pending (locals (threads_of F) ! i))) (threads_of F), alerts_lock := Some (Recording i AlertAppended)\<rparr>"
    | (trims) "storing i (threads_of F)" and "alerts_lock F = Some (Recording i AlertAppended)" and
        "F' = F\<lparr>threads_of := trim_store (threads_of F), alerts_lock := Some (Recording i StoreTrimmed)\<rparr>"
    | (releases) "storing i (threads_of F)" and "alerts_lock F = Some (Recording i StoreTrimmed)" and
        "F' = F\<lparr>threads_of := next_alert i (threads_of F), alerts_lock := None\<rparr>"
proof (cases "storing i (threads_of F)")
  case False
  with assms outside show ?thesis
    by (auto simp: locked_worker_next_def storing_def nth_opt_def split: bind_splits if_splits)
next
  case True
  then have eq: "nth_opt (locals (threads_of F)) i = Some (locals (threads_of F) ! i)" "pending (locals (threads_of F) ! i) \<noteq> []"
    "counted (locals (threads_of F) ! i)" by (simp_all add: storing_def nth_opt_def)
  show ?thesis
  proof (cases "alerts_lock F")
    case None
    with assms eq True takes show ?thesis by (simp add: locked_worker_next_def)
  next
    case (Some h)
    show ?thesis
    proof (cases "\<exists>pc. h = Recording i pc")
      case False
      then have "F' = F" using assms eq Some by (cases h) (auto simp: locked_worker_next_def split: if_splits)
      with waits Some False show ?thesis by blast
    next
      case True
      then obtain pc where h: "h = Recording i pc" by blast
      show ?thesis
        using assms eq Some h \<open>storing i (threads_of F)\<close> appends trims releases
        by (cases pc) (auto simp: locked_worker_next_def)
    qed
  qed
qed

lemma locked_worker_holder:
  assumes inv: "holder_ok F" and s: "locked_worker_next L now spurious i F = Some F'"
  shows "holder_ok F'"
  using s
proof (cases rule: locked_worker_cases)
  case (outside f)
  have "storing j f" if "alerts_lock F = Some (Recording j pc)" for j pc
  proof -
    have "storing j (threads_of F)" using inv that by (simp add: holder_ok_def)
    moreover from this have "j \<noteq> i" using outside(1) by blast
    ultimately show ?thesis using storing_other [OF outside(2)] by simp
  qed
  with inv outside(3) worker_next_others(1,2) [OF outside(2)] show ?thesis by (simp add: holder_ok_def)
next
  case releases
  then show ?thesis using inv by (simp add: holder_ok_def)
qed (use inv in \<open>simp_all add: holder_ok_def\<close>)

lemma unlocked_free: "(\<And>i pc. alerts_lock F \<noteq> Some (Recording i pc)) \<Longrightarrow> unlocked F = threads_of F"
  by (simp add: unlocked_def split: option.split holder.split)

lemma unlocked_same_lock: "alerts_lock F' = alerts_lock F \<Longrightarrow> threads_of F' = threads_of F \<Longrightarrow> unlocked F' = unlocked F"
  by (simp add: unlocked_def split: option.split holder.split record_pc.split)

lemma unlocked_length [simp]: "length (locals (unlocked F)) = length (locals (threads_of F))"
  by (simp add: unlocked_def split: option.split holder.split record_pc.split)

lemma locked_producer_unlocked:
  assumes "producer_next E spurious (threads_of F) = Some f"
  shows "producer_next E spurious (unlocked F) = Some (unlocked (F\<lparr>threads_of := f\<rparr>))"
  using assms by (simp add: unlocked_def producer_next_adjust split: option.split holder.split record_pc.split)

lemma locked_worker_unlocked:
  assumes inv: "holder_ok F" and s: "locked_worker_next L now spurious i F = Some F'"
  shows "unlocked F' = unlocked F \<or> worker_next L now spurious i (unlocked F) = Some (unlocked F')"
  using s
proof (cases rule: locked_worker_cases)
  case (outside f)
  have j: "j \<noteq> i" if "alerts_lock F = Some (Recording j pc)" for j pc
    using inv that outside(1) by (auto simp: holder_ok_def)
  have idle: "pending (locals (threads_of F) ! i) = [] \<or> \<not> counted (locals (threads_of F) ! i)" if "i < length (locals (threads_of F))"
    using outside(1) that by (auto simp: storing_def)
  have "i < length (locals (threads_of F))" using outside(2) by (auto simp: worker_next_def nth_opt_def split: bind_splits if_splits)
  then show ?thesis
    using outside worker_next_adjust [OF j idle] by (auto simp: unlocked_def split: option.split holder.split record_pc.split)
next
  case takes
  then show ?thesis by (simp add: unlocked_def)
next
  case (waits h)
  then show ?thesis by simp
next
  case appends
  let ?f = "threads_of F"
  have st: "i < length (stages ?f)" using inv appends(1) by (simp add: holder_ok_def storing_def)
  then have "worker_next L now spurious i ?f = Some (record_next i (locals ?f ! i) (stages ?f ! i) ?f)"
    using appends(1) by (simp add: worker_next_def storing_def nth_opt_def)
  moreover have "unlocked F' = record_next i (locals ?f ! i) (stages ?f ! i) ?f"
    using appends(1,3) by (simp add: unlocked_def record_next_store storing_def adjust_def trim_store_def append_alert_def)
  ultimately show ?thesis using appends(2) by (simp add: unlocked_def)
next
  case trims
  then show ?thesis by (simp add: unlocked_def adjust_def trim_store_def)
next
  case releases
  then show ?thesis by (simp add: unlocked_def adjust_def)
qed

lemma request_next_unlocked: "holder_ok F \<Longrightarrow> unlocked (request_next r F) = unlocked F"
proof (cases "requests F r")
  case (PageTaken out)
  assume "holder_ok F"
  with PageTaken have "alerts_lock F = Some (Answering r)" by (auto simp: holder_ok_def)
  with PageTaken show ?thesis by (simp add: request_next_def unlocked_def)
qed (auto simp: request_next_def unlocked_def split: option.split holder.split record_pc.split)

lemma request_next_holder:
  assumes inv: "holder_ok F"
  shows "holder_ok (request_next r F)"
proof (cases "requests F r")
  case (Asked q)
  have "requests F s \<noteq> LockedFor p" "requests F s \<noteq> PageTaken out" if "alerts_lock F = None" for s p out
    using inv that by (auto simp: holder_ok_def)
  with inv Asked show ?thesis by (auto simp: holder_ok_def request_next_def)
next
  case (LockedFor q)
  with inv show ?thesis by (auto simp: holder_ok_def request_next_def)
next
  case (PageTaken out)
  then have l: "alerts_lock F = Some (Answering r)" using inv by (auto simp: holder_ok_def)
  then have "requests F s \<noteq> LockedFor p" "requests F s \<noteq> PageTaken out'" if "s \<noteq> r" for s p out'
    using inv that by (auto simp: holder_ok_def)
  with inv PageTaken show ?thesis by (auto simp: holder_ok_def request_next_def)
qed (use inv in \<open>simp_all add: request_next_def\<close>)

lemma those_length: "those xs = Some ys \<Longrightarrow> length ys = length xs"
  by (induction xs arbitrary: ys) (auto split: option.splits)

lemma locked_start_ok:
  assumes "locked_new L capacity starts w = Some F"
  shows "holder_ok F" "threads_new L capacity starts w = Some (threads_of F)" "unlocked F = threads_of F"
    "length (locals (threads_of F)) = length starts"
proof -
  obtain f where f: "threads_new L capacity starts w = Some f" and F: "F = \<lparr>threads_of = f, alerts_lock = None, requests = (\<lambda>_. NotAsked)\<rparr>"
    using assms by (auto simp: locked_new_def split: bind_splits)
  have n: "length (locals f) = length starts \<and> length (stages f) = length starts"
    using f by (auto simp: threads_new_def system_new_def dest: those_length split: bind_splits)
  show "holder_ok F" "threads_new L capacity starts w = Some (threads_of F)" "unlocked F = threads_of F"
    "length (locals (threads_of F)) = length starts"
    using f n by (simp_all add: F holder_ok_def unlocked_def)
qed

text \<open>Every run with the lock is a run of theory \<open>Threads\<close>.\<close>

lemma locked_runs_are_thread_runs:
  "locked_reach L E capacity starts w k F \<Longrightarrow>
    holder_ok F \<and> length (locals (threads_of F)) = length starts \<and> (\<exists>k' \<le> k. threads_reach L E capacity starts w k' (unlocked F))"
proof (induction rule: locked_reach.induct)
  case (locked_start F)
  note s = locked_start_ok [OF locked_start]
  have "threads_reach L E capacity starts w 0 (unlocked F)" unfolding s(3) using s(2) by (rule threads_start)
  with s show ?case by auto
next
  case (locked_producer k F spurious F')
  then obtain k' where k': "k' \<le> k" "threads_reach L E capacity starts w k' (unlocked F)" by blast
  obtain f where f: "producer_next E spurious (threads_of F) = Some f" and F': "F' = F\<lparr>threads_of := f\<rparr>"
    using locked_producer.hyps(2) by (auto simp: locked_producer_next_def split: bind_splits)
  have inv: "holder_ok F" "length (locals (threads_of F)) = length starts" using locked_producer.IH by blast+
  have "holder_ok F'" using inv(1) producer_next_locals [OF f] by (simp add: F' holder_ok_def storing_def)
  moreover have "length (locals (threads_of F')) = length starts" using inv(2) producer_next_locals [OF f] by (simp add: F')
  moreover have "threads_reach L E capacity starts w (Suc k') (unlocked F')"
    using threads_producer [OF k'(2) locked_producer_unlocked [OF f]] by (simp add: F')
  ultimately show ?case using k'(1) by (intro conjI exI [of _ "Suc k'"]) simp_all
next
  case (locked_worker k F i now spurious F')
  then obtain k' where k': "k' \<le> k" "threads_reach L E capacity starts w k' (unlocked F)" and inv: "holder_ok F" by blast
  have n: "length (locals (threads_of F')) = length (locals (threads_of F))"
    using locked_worker.hyps(3) by (cases rule: locked_worker_cases) (simp_all add: worker_next_others(1))
  have i: "i < length (locals (unlocked F))" using locked_worker.hyps(2) by simp
  have "\<exists>k'' \<le> Suc k. threads_reach L E capacity starts w k'' (unlocked F')"
    using locked_worker_unlocked [OF inv locked_worker.hyps(3)]
  proof
    assume "unlocked F' = unlocked F"
    with k' show ?thesis by (intro exI [of _ k']) simp
  next
    assume "worker_next L now spurious i (unlocked F) = Some (unlocked F')"
    with k' threads_worker [OF k'(2) i] show ?thesis by (intro exI [of _ "Suc k'"]) auto
  qed
  with locked_worker_holder [OF inv locked_worker.hyps(3)] n locked_worker.IH show ?case by simp
next
  case (locked_asks k F r q)
  have "unlocked (F\<lparr>requests := (requests F)(r := Asked q)\<rparr>) = unlocked F" by (rule unlocked_same_lock) simp_all
  moreover have "holder_ok (F\<lparr>requests := (requests F)(r := Asked q)\<rparr>)" using locked_asks by (auto simp: holder_ok_def)
  ultimately show ?case using locked_asks.IH by (auto intro: le_SucI)
next
  case (locked_request k F r)
  then have "holder_ok F" by blast
  moreover have "threads_of (request_next r F) = threads_of F" by (simp add: request_next_def split: request.split)
  ultimately show ?case using locked_request.IH by (auto simp: request_next_unlocked request_next_holder intro: le_SucI)
qed

subsection \<open>Who waits for whom\<close>

text \<open>A thread that is to store an alert, or to answer a request, makes no step while another holds the lock.\<close>

lemma waits_for_the_holder:
  assumes "alerts_lock F = Some h"
  shows "storing i (threads_of F) \<Longrightarrow> (\<And>pc. h \<noteq> Recording i pc) \<Longrightarrow> locked_worker_next L now spurious i F = Some F"
    and "requests F r = Asked q \<Longrightarrow> request_next r F = F"
  using assms by (auto simp: locked_worker_next_def storing_def nth_opt_def request_next_def split: holder.split)

text \<open>Steps of the thread that holds the lock, if there is one.\<close>

definition holder_next :: "'ac Libs \<Rightarrow> clocks \<Rightarrow> ('ac, 'w) Locked \<Rightarrow> ('ac, 'w) Locked option" where
  "holder_next L now F = (case alerts_lock F of
     None \<Rightarrow> Some F
   | Some (Recording i pc) \<Rightarrow> locked_worker_next L now False i F
   | Some (Answering r) \<Rightarrow> Some (request_next r F))"

lemma holder_releases:
  assumes inv: "holder_ok F"
  obtains F1 F2 F3 where "holder_next L now F = Some F1" and "holder_next L now F1 = Some F2" and "holder_next L now F2 = Some F3"
    and "alerts_lock F3 = None" and "producer (threads_of F3) = producer (threads_of F)"
    and "\<And>r q. requests F r = Asked q \<Longrightarrow> requests F3 r = Asked q"
proof (cases "alerts_lock F")
  case None
  then show ?thesis by (intro that [of F F F]) (simp_all add: holder_next_def)
next
  case (Some h)
  show ?thesis
  proof (cases h)
    case (Recording i pc)
    have w: "i < length (locals (threads_of F))" "pending (locals (threads_of F) ! i) \<noteq> []" "counted (locals (threads_of F) ! i)"
      using inv Some Recording by (auto simp: holder_ok_def storing_def)
    note defs = holder_next_def locked_worker_next_def nth_opt_def append_alert_def trim_store_def next_alert_def goto_def Let_def
    let ?a = "append_alert (hd (pending (locals (threads_of F) ! i))) (threads_of F)"
    show ?thesis
    proof (cases pc)
      case LockTaken
      then show ?thesis
        using w Some Recording
        by (intro that [of "F\<lparr>threads_of := ?a, alerts_lock := Some (Recording i AlertAppended)\<rparr>"
            "F\<lparr>threads_of := trim_store ?a, alerts_lock := Some (Recording i StoreTrimmed)\<rparr>"
            "F\<lparr>threads_of := next_alert i (trim_store ?a), alerts_lock := None\<rparr>"]) (simp_all add: defs)
    next
      case AlertAppended
      let ?G = "F\<lparr>threads_of := next_alert i (trim_store (threads_of F)), alerts_lock := None\<rparr>"
      from AlertAppended show ?thesis
        using w Some Recording
        by (intro that [of "F\<lparr>threads_of := trim_store (threads_of F), alerts_lock := Some (Recording i StoreTrimmed)\<rparr>" ?G ?G])
          (simp_all add: defs)
    next
      case StoreTrimmed
      let ?G = "F\<lparr>threads_of := next_alert i (threads_of F), alerts_lock := None\<rparr>"
      from StoreTrimmed show ?thesis
        using w Some Recording by (intro that [of ?G ?G ?G]) (simp_all add: defs)
    qed
  next
    case (Answering r)
    then have "(\<exists>q. requests F r = LockedFor q) \<or> (\<exists>out. requests F r = PageTaken out)"
      using inv Some unfolding holder_ok_def by blast
    then consider q where "requests F r = LockedFor q" | out where "requests F r = PageTaken out" by blast
    then show ?thesis
    proof cases
      case (1 q)
      let ?out = "alerts_page (\<lambda>_. app_state (threads_of F)) q"
      let ?G = "F\<lparr>alerts_lock := None, requests := (requests F)(r := Responded ?out)\<rparr>"
      from 1 Some Answering show ?thesis
        by (intro that [of "F\<lparr>requests := (requests F)(r := PageTaken ?out)\<rparr>" ?G ?G])
          (auto simp: holder_next_def request_next_def)
    next
      case (2 out)
      let ?G = "F\<lparr>alerts_lock := None, requests := (requests F)(r := Responded out)\<rparr>"
      from 2 Some Answering show ?thesis
        by (intro that [of ?G ?G ?G]) (auto simp: holder_next_def request_next_def)
    qed
  qed
qed

fun locked_producer_alone :: "'w Env \<Rightarrow> nat \<Rightarrow> ('ac, 'w) Locked \<Rightarrow> ('ac, 'w) Locked option" where
  "locked_producer_alone E 0 F = Some F"
| "locked_producer_alone E (Suc n) F = (case locked_producer_next E False F of
     None \<Rightarrow> None | Some F' \<Rightarrow> locked_producer_alone E n F')"

fun locked_worker_alone :: "'ac Libs \<Rightarrow> (nat \<Rightarrow> clocks) \<Rightarrow> nat \<Rightarrow> nat \<Rightarrow> ('ac, 'w) Locked \<Rightarrow> ('ac, 'w) Locked option" where
  "locked_worker_alone L now i 0 F = Some F"
| "locked_worker_alone L now i (Suc n) F = (case locked_worker_next L (now 0) False i F of
     None \<Rightarrow> None | Some F' \<Rightarrow> locked_worker_alone L (\<lambda>m. now (Suc m)) i n F')"

lemma locked_producer_alone_adjust:
  "producer_alone E n (unlocked F) = Some g \<Longrightarrow> \<exists>F'. locked_producer_alone E n F = Some F' \<and> unlocked F' = g"
proof (induction n arbitrary: F)
  case (Suc n)
  have "\<exists>f. producer_next E False (threads_of F) = Some f"
    using Suc.prems by (auto simp: unlocked_def producer_next_adjust split: option.splits holder.splits record_pc.splits)
  then obtain f where f: "producer_next E False (threads_of F) = Some f" by blast
  have "producer_alone E n (unlocked (F\<lparr>threads_of := f\<rparr>)) = Some g"
    using Suc.prems locked_producer_unlocked [OF f] by simp
  from Suc.IH [OF this] f show ?case by (simp add: locked_producer_next_def)
qed simp

lemma leads_with_lock:
  "leads L i P f \<Longrightarrow> threads_of F = f \<Longrightarrow> alerts_lock F = None \<Longrightarrow>
    \<exists>n F'. locked_worker_alone L now i n F = Some F' \<and> alerts_lock F' = None \<and> P (threads_of F')"
proof (induction arbitrary: F now rule: leads.induct)
  case (leads_done f)
  then show ?case by (intro exI [of _ 0] exI [of _ F]) simp
next
  case (leads_step f)
  obtain f' where f': "worker_next L (now 0) False i f = Some f'" and IH: "\<And>F now. threads_of F = f' \<Longrightarrow> alerts_lock F = None \<Longrightarrow>
      \<exists>n F'. locked_worker_alone L now i n F = Some F' \<and> alerts_lock F' = None \<and> P (threads_of F')"
    using leads_step.IH [of "now 0"] by blast
  have i: "i < length (locals f)" "i < length (stages f)" using f' by (auto simp: worker_next_def nth_opt_def split: bind_splits if_splits)
  show ?case
  proof (cases "storing i f")
    case False
    then have "locked_worker_next L (now 0) False i F = Some (F\<lparr>threads_of := f'\<rparr>)"
      using f' i leads_step.prems by (auto simp: locked_worker_next_def storing_def nth_opt_def)
    moreover obtain n F' where "locked_worker_alone L (\<lambda>m. now (Suc m)) i n (F\<lparr>threads_of := f'\<rparr>) = Some F'"
      "alerts_lock F' = None" "P (threads_of F')" using IH [of "F\<lparr>threads_of := f'\<rparr>" "\<lambda>m. now (Suc m)"] leads_step.prems(2) by auto
    ultimately show ?thesis by (intro exI [of _ "Suc n"] exI [of _ F']) simp
  next
    case True
    let ?G = "F\<lparr>threads_of := f', alerts_lock := None\<rparr>"
    obtain n F' where n: "locked_worker_alone L (\<lambda>m. now (Suc (Suc (Suc (Suc m))))) i n ?G = Some F'"
      "alerts_lock F' = None" "P (threads_of F')" using IH [of ?G "\<lambda>m. now (Suc (Suc (Suc (Suc m))))"] by auto
    have w: "pending (locals f ! i) \<noteq> []" "counted (locals f ! i)" using True by (simp_all add: storing_def)
    have "f' = next_alert i (trim_store (append_alert (hd (pending (locals f ! i))) f))"
      using f' i w by (simp add: worker_next_def nth_opt_def record_next_store)
    then have "locked_worker_alone L now i (Suc (Suc (Suc (Suc n)))) F = Some F'"
      using n(1) i w leads_step.prems
      by (simp add: locked_worker_next_def nth_opt_def trim_store_def append_alert_def)
    with n(2,3) show ?thesis by blast
  qed
qed

fun holder_run :: "'ac Libs \<Rightarrow> clocks \<Rightarrow> nat \<Rightarrow> ('ac, 'w) Locked \<Rightarrow> ('ac, 'w) Locked option" where
  "holder_run L now 0 F = Some F"
| "holder_run L now (Suc n) F = (case holder_next L now F of None \<Rightarrow> None | Some F' \<Rightarrow> holder_run L now n F')"

lemma holder_run_reach:
  "locked_reach L E capacity starts w k F \<Longrightarrow> holder_run L now n F = Some F' \<Longrightarrow>
    \<exists>k' \<le> k + n. locked_reach L E capacity starts w k' F'"
proof (induction n arbitrary: k F)
  case (Suc n)
  obtain F1 where F1: "holder_next L now F = Some F1" "holder_run L now n F1 = Some F'"
    using Suc.prems(2) by (auto split: option.splits)
  have inv: "holder_ok F" using locked_runs_are_thread_runs [OF Suc.prems(1)] by blast
  have "\<exists>k1 \<le> Suc k. locked_reach L E capacity starts w k1 F1"
  proof (cases "alerts_lock F")
    case None
    with F1(1) Suc.prems(1) show ?thesis by (intro exI [of _ k]) (simp add: holder_next_def)
  next
    case (Some h)
    show ?thesis
    proof (cases h)
      case (Recording i pc)
      then have "i < length (locals (threads_of F))" using inv Some by (auto simp: holder_ok_def storing_def)
      moreover have "locked_worker_next L now False i F = Some F1" using F1(1) Some Recording by (simp add: holder_next_def)
      ultimately have "locked_reach L E capacity starts w (Suc k) F1" by (rule locked_worker [OF Suc.prems(1)])
      then show ?thesis by blast
    next
      case (Answering r)
      then have "F1 = request_next r F" using F1(1) Some by (simp add: holder_next_def)
      then show ?thesis using locked_request [OF Suc.prems(1), of r] by blast
    qed
  qed
  then obtain k1 where k1: "k1 \<le> Suc k" "locked_reach L E capacity starts w k1 F1" by blast
  then obtain k' where "k' \<le> k1 + n" "locked_reach L E capacity starts w k' F'" using Suc.IH [OF k1(2) F1(2)] by blast
  with k1(1) show ?case by (intro exI [of _ k']) simp
qed auto

subsection \<open>The lock is all a thread can wait for\<close>

text \<open>
  C12: The lock of the alert store is all that a thread can wait for, and its holder gives it back.
  From every state of every interleaving, wherever the threads have stopped, be it inside a push
  or inside the critical section of record_alert or of the /alerts handler: the producer on its
  own routes all that is left of its batch, whoever holds the lock; three steps of the thread
  that holds the lock, if one does, release it; and then worker i on its own, whatever its clocks
  read, finishes its event and gets back to polling with every alert recorded and, unless the
  producer has stopped inside a push to it, an empty queue, and a request on its own is answered
  with the page of that state. In these solo runs no compare-exchange fails spuriously; before them
  any may have. The position counters must not wrap, hence the bounds near 2^62 on the steps so far.
\<close>

theorem only_the_alert_lock_makes_threads_wait:
  assumes "config_ok L capacity starts" and "env_ok E" and "locked_reach L E capacity starts w k F" and "i < length starts"
    and "k + 8 * unat capacity + 10 \<le> 2 ^ 62" and "k + 9 * length (rest_of_batch (threads_of F)) + 8 < 2 ^ 62"
  shows "(\<exists>n F'. locked_producer_alone E n F = Some F' \<and> producer (threads_of F') = NextEvent \<and> rest_of_batch (threads_of F') = []) \<and>
    (\<exists>F1. holder_run L t 3 F = Some F1 \<and> alerts_lock F1 = None \<and>
      (\<exists>n F'. locked_worker_alone L now i n F1 = Some F' \<and>
        stages (threads_of F') ! i = Polling \<and> pending (locals (threads_of F') ! i) = [] \<and>
        ((\<nexists>e pc. producer (threads_of F) = PushTo i e pc) \<longrightarrow> queue_list (queues (app_state (threads_of F')) ! i) = [])) \<and>
      (requests F r = Asked q \<longrightarrow> requests (request_next r (request_next r (request_next r F1))) r =
        Responded (alerts_page (\<lambda>_. app_state (threads_of F1)) q)))"
proof -
  note cfg = assms(1) and env = assms(2)
  obtain k0 where inv: "holder_ok F" and k0: "k0 \<le> k" "threads_reach L E capacity starts w k0 (unlocked F)"
    using locked_runs_are_thread_runs [OF assms(3)] by blast
  have rb: "rest_of_batch (unlocked F) = rest_of_batch (threads_of F)" for F :: "('a, 'b) Locked"
    by (simp add: unlocked_def split: option.split holder.split record_pc.split)
  have pr: "producer (unlocked F) = producer (threads_of F)" for F :: "('a, 'b) Locked"
    by (simp add: unlocked_def split: option.split holder.split record_pc.split)
  have "k0 + 9 * length (rest_of_batch (unlocked F)) + 8 < 2 ^ 62" using k0(1) assms(6) unfolding rb by linarith
  moreover have "unat capacity \<le> 2 ^ 62" using assms(5) by linarith
  moreover note producer_finishes_batch [OF cfg env k0(2)]
  ultimately
  obtain n g where g: "producer_alone E n (unlocked F) = Some g" "producer g = NextEvent" "rest_of_batch g = []" by blast
  obtain F' where F': "locked_producer_alone E n F = Some F'" "unlocked F' = g"
    using locked_producer_alone_adjust [OF g(1)] by blast
  have "producer (threads_of F') = NextEvent" "rest_of_batch (threads_of F') = []"
    using g(2,3) unfolding F'(2) [symmetric] pr rb by simp_all
  with F'(1) have routed: "\<exists>n F'. locked_producer_alone E n F = Some F' \<and> producer (threads_of F') = NextEvent \<and>
      rest_of_batch (threads_of F') = []" by blast
  obtain F1 F2 F3 where h: "holder_next L t F = Some F1" "holder_next L t F1 = Some F2" "holder_next L t F2 = Some F3"
    and free: "alerts_lock F3 = None" and p3: "producer (threads_of F3) = producer (threads_of F)"
    and asked: "\<And>r q. requests F r = Asked q \<Longrightarrow> requests F3 r = Asked q"
    by (rule holder_releases [OF inv]) blast
  have run: "holder_run L t 3 F = Some F3" by (simp add: numeral_3_eq_3 h)
  obtain k3 where k3: "k3 \<le> k + 3" "locked_reach L E capacity starts w k3 F3"
    using holder_run_reach [OF assms(3) run] by blast
  obtain k4 where k4': "k4 \<le> k3" "threads_reach L E capacity starts w k4 (unlocked F3)"
    using locked_runs_are_thread_runs [OF k3(2)] by blast
  have k4: "k4 \<le> k + 3" "threads_reach L E capacity starts w k4 (threads_of F3)"
    using le_trans [OF k4'(1) k3(1)] k4'(2) using free by (simp_all add: unlocked_free)
  have "leads L i (caught_up i (producer (threads_of F3))) (threads_of F3)"
    by (rule worker_catches_up_alone [OF cfg env k4(2) assms(4)]) (use k4(1) assms(5) in simp)
  from leads_with_lock [OF this refl free] obtain n F' where "locked_worker_alone L now i n F3 = Some F'"
    and "caught_up i (producer (threads_of F)) (threads_of F')" unfolding p3 by blast
  then have worker: "\<exists>n F'. locked_worker_alone L now i n F3 = Some F' \<and>
      stages (threads_of F') ! i = Polling \<and> pending (locals (threads_of F') ! i) = [] \<and>
      ((\<nexists>e pc. producer (threads_of F) = PushTo i e pc) \<longrightarrow> queue_list (queues (app_state (threads_of F')) ! i) = [])"
    unfolding caught_up_def by blast
  have "requests F r = Asked q \<longrightarrow> requests (request_next r (request_next r (request_next r F3))) r =
      Responded (alerts_page (\<lambda>_. app_state (threads_of F3)) q)"
    using asked [of r q] free by (simp add: request_next_def)
  with routed run free worker show ?thesis by blast
qed

subsection \<open>Witnesses\<close>

text \<open>Conversely, every run of theory \<open>Threads\<close> is one with the lock, in at most four times the steps.\<close>

lemma thread_runs_are_locked_runs:
  "threads_reach L E capacity starts w k f \<Longrightarrow>
    \<exists>k' \<le> 4 * k. locked_reach L E capacity starts w k' \<lparr>threads_of = f, alerts_lock = None, requests = (\<lambda>_. NotAsked)\<rparr>"
proof (induction rule: threads_reach.induct)
  case (threads_start f)
  then have "locked_new L capacity starts w = Some \<lparr>threads_of = f, alerts_lock = None, requests = (\<lambda>_. NotAsked)\<rparr>"
    by (simp add: locked_new_def)
  from locked_start [OF this] show ?case by (intro exI [of _ 0]) simp
next
  case (threads_producer k f spurious f')
  then obtain k' where k': "k' \<le> 4 * k"
    "locked_reach L E capacity starts w k' \<lparr>threads_of = f, alerts_lock = None, requests = (\<lambda>_. NotAsked)\<rparr>" by blast
  have "locked_producer_next E spurious \<lparr>threads_of = f, alerts_lock = None, requests = (\<lambda>_. NotAsked)\<rparr> =
      Some \<lparr>threads_of = f', alerts_lock = None, requests = (\<lambda>_. NotAsked)\<rparr>"
    using threads_producer.hyps(2) by (simp add: locked_producer_next_def)
  from locked_producer [OF k'(2) this] k'(1) show ?case by (intro exI [of _ "Suc k'"]) simp
next
  case (threads_worker k f i now spurious f')
  let ?F = "\<lambda>f. \<lparr>threads_of = f, alerts_lock = None, requests = (\<lambda>_. NotAsked)\<rparr>"
  from threads_worker obtain k' where k': "k' \<le> 4 * k" "locked_reach L E capacity starts w k' (?F f)" by blast
  show ?case
  proof (cases "storing i f")
    case False
    then have "locked_worker_next L now spurious i (?F f) = Some (?F f')"
      using threads_worker.hyps(2,3) by (auto simp: locked_worker_next_def storing_def nth_opt_def)
    from locked_worker [OF k'(2) _ this] threads_worker.hyps(2) k'(1) show ?thesis by (intro exI [of _ "Suc k'"]) simp
  next
    case True
    then have w: "i < length (locals f)" "pending (locals f ! i) \<noteq> []" "counted (locals f ! i)" by (simp_all add: storing_def)
    let ?a = "append_alert (hd (pending (locals f ! i))) f"
    have i: "i < length (stages f)" using threads_worker.hyps(3) by (auto simp: worker_next_def nth_opt_def split: bind_splits if_splits)
    have f': "f' = next_alert i (trim_store ?a)"
      using threads_worker.hyps(3) i w by (simp add: worker_next_def nth_opt_def record_next_store)
    let ?G = "\<lambda>f pc. \<lparr>threads_of = f, alerts_lock = Some (Recording i pc), requests = (\<lambda>_. NotAsked)\<rparr>"
    have s: "locked_worker_next L now spurious i (?F f) = Some (?G f LockTaken)"
      "locked_worker_next L now spurious i (?G f LockTaken) = Some (?G ?a AlertAppended)"
      "locked_worker_next L now spurious i (?G ?a AlertAppended) = Some (?G (trim_store ?a) StoreTrimmed)"
      "locked_worker_next L now spurious i (?G (trim_store ?a) StoreTrimmed) = Some (?F f')"
      using w unfolding f' by (simp_all add: locked_worker_next_def nth_opt_def append_alert_def trim_store_def)
    have "locked_reach L E capacity starts w (Suc (Suc (Suc (Suc k')))) (?F f')"
      by (rule locked_worker [OF locked_worker [OF locked_worker [OF locked_worker [OF k'(2) _ s(1)] _ s(2)] _ s(3)] _ s(4)])
        (use w(1) in simp_all)
    then show ?thesis using k'(1) by (intro exI [of _ "Suc (Suc (Suc (Suc k')))"]) simp
  qed
qed

text \<open>A request has stopped with the lock in hand while an event waits in the queue.\<close>

theorem only_the_alert_lock_makes_threads_wait_witness:
  "\<exists>(F :: (bytes list, unit) Locked) k e F1 n F'. locked_reach example_libs example_env 2 [0] () k F \<and>
     alerts_lock F = Some (Answering 7) \<and> map queue_list (queues (app_state (threads_of F))) = [[e]] \<and>
     holder_run example_libs ((0, 0), 0) 3 F = Some F1 \<and> alerts_lock F1 = None \<and>
     locked_worker_alone example_libs (\<lambda>m. ((m, m), m)) 0 n F1 = Some F' \<and>
     queue_list (queues (app_state (threads_of F')) ! 0) = [] \<and> pending (locals (threads_of F') ! 0) = []"
proof -
  obtain e es and f :: "(bytes list, unit) Threads" where f: "threads_reach example_libs example_env 2 [0] () 8 f" "at_rest f"
    "map queue_list (queues (app_state f)) = [[e]]" "rest_of_batch f = es" and es: "length es = 19" by (rule example_threads)
  let ?F0 = "\<lparr>threads_of = f, alerts_lock = None, requests = (\<lambda>_. NotAsked)\<rparr>"
  obtain k where k: "k \<le> 32" and r0: "locked_reach example_libs example_env 2 [0] () k ?F0"
    using thread_runs_are_locked_runs [OF f(1)] by auto
  let ?F1 = "?F0\<lparr>requests := (requests ?F0)(7 := Asked \<lparr>limit = None\<rparr>)\<rparr>"
  have r1: "locked_reach example_libs example_env 2 [0] () (Suc k) ?F1" by (rule locked_asks [OF r0]) simp
  let ?F = "request_next 7 ?F1"
  have r2: "locked_reach example_libs example_env 2 [0] () (Suc (Suc k)) ?F" by (rule locked_request [OF r1])
  have F: "threads_of ?F = f" "alerts_lock ?F = Some (Answering 7)" by (simp_all add: request_next_def)
  have b: "Suc (Suc k) + 8 * unat (2 :: usize) + 10 \<le> 2 ^ 62" "Suc (Suc k) + 9 * length (rest_of_batch (threads_of ?F)) + 8 < 2 ^ 62"
    using k es unfolding F(1) f(4) by simp_all
  have p: "\<nexists>x pc. producer (threads_of ?F) = PushTo 0 x pc" using f(2) unfolding F(1) by (simp add: at_rest_def)
  have i: "0 < length [0 :: instant]" by simp
  from only_the_alert_lock_makes_threads_wait [OF example_config example_env_ok r2 i b, of "((0, 0), 0)" "\<lambda>m. ((m, m), m)"]
  obtain G n G' where "holder_run example_libs ((0, 0), 0) 3 ?F = Some G" "alerts_lock G = None"
    "locked_worker_alone example_libs (\<lambda>m. ((m, m), m)) 0 n G = Some G'"
    "queue_list (queues (app_state (threads_of G')) ! 0) = []" "pending (locals (threads_of G') ! 0) = []"
    using p by blast
  moreover have "map queue_list (queues (app_state (threads_of ?F))) = [[e]]" unfolding F(1) by (rule f(3))
  ultimately show ?thesis using r2 F(2) by (intro exI conjI)
qed

end
