(* ===== verification/Startup.thy ===== *)
theory Startup
  imports Engine Api
begin

section \<open>Process start\<close>

text \<open>
  \<^verbatim>\<open>main\<close> of \<^verbatim>\<open>engine/src/main.rs\<close>: the two log lines, the shared state, the threads, the router and
  the listener. \<open>tcp_bind\<close> tells whether \<^verbatim>\<open>TcpListener::bind\<close> of crate \<^verbatim>\<open>tokio\<close> succeeds on an address; from
  then on \<^verbatim>\<open>axum::serve\<close> answers requests by \<open>build_router\<close>. The formatting of the log is the work of
  crate \<^verbatim>\<open>tracing_subscriber\<close>. The outcome \<open>Panicked ''threads''\<close> stands for a panic in \<^verbatim>\<open>AppState::new\<close> or while a
  worker builds its detectors; the first property shows that neither happens. The state is created before the listener is bound, so that a failing
  bind ends a process whose threads are already running.
\<close>

datatype log_line = StartingEngine usize nat | ApiListening bytes

datatype ('ac, 'w) outcome = Panicked string | Serving "('ac, 'w) Engine"

definition listen_address :: string where
  "listen_address = ''0.0.0.0:8080''"

definition main :: "'ac Libs \<Rightarrow> 'w \<Rightarrow> instant list \<Rightarrow> ApiEnv \<Rightarrow> (string \<Rightarrow> bool) \<Rightarrow> log_line list \<times> ('ac, 'w) outcome" where
  "main L w starts env tcp_bind =
     (let started = [StartingEngine queue_capacity_default worker_count_default]
      in case engine_new L queue_capacity_default starts w of
           None \<Rightarrow> (started, Panicked ''threads'')
         | Some g \<Rightarrow>
             if tcp_bind listen_address
             then (started @ [ApiListening (case api_token env of Some t \<Rightarrow> t | None \<Rightarrow> bytes_of ''dev-token-change-me'')],
                   Serving g)
             else (started, Panicked ''failed to bind port 8080''))"

lemma default_capacity: "unat queue_capacity_default = 65536" "is_power_of_two queue_capacity_default"
proof -
  show u: "unat queue_capacity_default = 65536" unfolding queue_capacity_default_def by simp
  show "is_power_of_two queue_capacity_default"
    unfolding is_power_of_two_def u by (rule bexI [of _ 16]) simp_all
qed

lemma default_config:
  assumes "libs_ok L" and "length starts = worker_count_default"
  shows "config_ok L queue_capacity_default starts"
  using assms default_capacity by (auto simp: config_ok_def worker_count_default_def)

text \<open>
  The process starts. With the constants of the source, four workers and queues of 65536
  slots, main does not panic before it binds the port; if the port can be bound it logs the
  token and serves an engine whose four queues are empty and from which every run begins; if
  not, it panics without having logged the token.
\<close>

theorem main_serves_an_empty_engine:
  assumes "libs_ok L" and "length starts = worker_count_default"
  shows "\<exists>g. main L w starts env tcp_bind =
      (if tcp_bind ''0.0.0.0:8080''
       then ([StartingEngine 65536 4, ApiListening (expected_token env)], Serving g)
       else ([StartingEngine 65536 4], Panicked ''failed to bind port 8080'')) \<and>
    engine_reach L E queue_capacity_default starts w g [] \<and> contents (system g) = replicate 4 [] \<and>
    map queue_capacity (queues (app (system g))) = replicate 4 65536 \<and> alerts (app (system g)) = [] \<and> batch g = []"
proof -
  note cfg = default_config [OF assms]
  have n: "length starts = 4" using assms(2) by (simp add: worker_count_default_def)
  obtain g where g: "engine_new L queue_capacity_default starts w = Some g"
    "engine_inv L queue_capacity_default starts g []" "batch g = []"
    by (rule engine_start_inv [OF cfg])
  have r: "reach L queue_capacity_default starts (system g) []" using g(2) by (simp add: engine_inv_def)
  then have inv: "run_inv L queue_capacity_default starts (system g) []" by (rule reach_inv [OF _ cfg])
  have "contents (system g) ! i = []" if "i < 4" for i
    using inv that n by (simp add: run_inv_def queues_inv_def)
  then have "contents (system g) = replicate 4 []"
    using reach_contents [OF cfg r] n by (intro replicate_eqI) (auto simp: in_set_conv_nth)
  moreover have "map queue_capacity (queues (app (system g))) = replicate 4 65536"
    using inv n by (intro replicate_eqI) (auto simp: run_inv_def sys_ok_def default_capacity)
  moreover have "alerts (app (system g)) = []" using inv by (simp add: run_inv_def alerts_inv_def)
  moreover have "queue_capacity_default = 65536" using default_capacity(1) by (simp add: word_unat_eq_iff)
  ultimately show ?thesis
    using engine_start [OF g(1)] g(3)
    by (intro exI [of _ g]) (simp add: main_def g(1) listen_address_def expected_token_def worker_count_default_def Let_def
        del: bytes_of_Cons)
qed

text \<open>
  C30: The token in the log is the token that works. Whatever main logs as the dashboard login
  token, if it is visible ASCII text, is accepted by /login and, sent as a bearer token, opens
  every endpoint.
\<close>

theorem logged_token_opens_the_api:
  assumes "main L w starts env tcp_bind = (lines, result)" and "ApiListening t \<in> set lines"
    and "to_str_ok (to_str env)" and "visible t"
  shows "build_router env reads None (PostLogin \<lparr>token = t\<rparr>) = (200, LoginBody \<lparr>ok = True\<rparr>) \<and>
    fst (build_router env reads (Some (bytes_of ''Bearer '' @ t)) GetStats) = 200 \<and>
    fst (build_router env reads (Some (bytes_of ''Bearer '' @ t)) (GetAlerts q)) = 200 \<and>
    fst (build_router env reads (Some (bytes_of ''Bearer '' @ t)) GetRules) = 200"
proof -
  have t: "t = expected_token env"
    using assms(1,2) by (auto simp: main_def expected_token_def Let_def simp del: bytes_of_Cons split: option.splits if_splits)
  show ?thesis
    using assms(3,4) by (simp add: login_def t require_auth_bearer bearer_def del: bytes_of_Cons)
qed

text \<open>The engine of the examples under the constants of the source.\<close>

lemma example_libs_ok: "libs_ok example_libs"
  using example_config by (simp add: config_ok_def)

theorem main_serves_an_empty_engine_witness:
  "\<exists>g. main example_libs () [0, 0, 0, 0] (example_api None) (\<lambda>a. True) =
      ([StartingEngine 65536 4, ApiListening (bytes_of ''dev-token-change-me'')], Serving g) \<and>
    engine_reach example_libs example_env queue_capacity_default [0, 0, 0, 0] () g []"
proof -
  have t: "expected_token (example_api None) = bytes_of ''dev-token-change-me''"
    by (simp add: expected_token_def example_api_def)
  from main_serves_an_empty_engine [OF example_libs_ok, of "[0, 0, 0, 0]" "()" "example_api None" "\<lambda>a. True" example_env]
  show ?thesis unfolding t by (auto simp: worker_count_default_def simp del: bytes_of_Cons)
qed

theorem logged_token_opens_the_api_witness:
  "\<exists>lines g. main example_libs () [0, 0, 0, 0] (example_api (Some (bytes_of ''secret''))) (\<lambda>a. True) = (lines, Serving g) \<and>
    (\<forall>st. fst (build_router (example_api (Some (bytes_of ''secret''))) (\<lambda>_. st) (Some (bytes_of ''Bearer '' @ bytes_of ''secret'')) GetStats) = 200)"
proof -
  let ?env = "example_api (Some (bytes_of ''secret''))"
  have "length [0, 0, 0, 0 :: instant] = worker_count_default" by (simp add: worker_count_default_def)
  then obtain g where g: "engine_new example_libs queue_capacity_default [0, 0, 0, 0] () = Some g"
    by (rule engine_start_inv [OF default_config [OF example_libs_ok]])
  have m: "main example_libs () [0, 0, 0, 0] ?env (\<lambda>a. True) =
      ([StartingEngine queue_capacity_default worker_count_default, ApiListening (bytes_of ''secret'')], Serving g)"
    by (simp add: main_def g example_api_def Let_def del: bytes_of_Cons)
  have "to_str_ok (to_str ?env)" by (simp add: example_api_def example_to_str_ok)
  moreover have "visible (bytes_of ''secret'')" by (simp add: visible_def word_le_nat_alt word_less_nat_alt)
  ultimately have "fst (build_router ?env (\<lambda>_. st) (Some (bytes_of ''Bearer '' @ bytes_of ''secret'')) GetStats) = 200" for st
    using logged_token_opens_the_api [OF m, of "bytes_of ''secret''" "\<lambda>_. st"] by (simp del: bytes_of_Cons build_router.simps)
  with m show ?thesis by blast
qed

end
