(* ===== verification/Spec2Isabelle.thy ===== *)
theory Spec2Isabelle
  imports Prelude Models MpmcQueue QueueConcurrent QueueSpsc QueueWeak StressTest CountMin F64 HLL Detector Anomaly AnomalyInterval Utf8 Cep
    SignatureScan UnitTests Pipeline PipelineRuns PipelineProps Ingestion Quiet Engine
    Threads ThreadsProgress Api AlertLock Startup
begin

text \<open>
  \<^bold>\<open>A verified model of the telemetry threat engine.\<close>

  The program (\<^verbatim>\<open>engine/src\<close>, Rust) is a pipeline. A producer thread takes batches of packet events from a
  traffic simulator and routes each event, by a hash of its source address, to one of several bounded
  lock-free queues. One worker thread per queue pops the events and gives each to three detectors of its
  own: a signature scan of the payload, a windowed anomaly detector over two probabilistic sketches, and a
  matcher of event sequences. Alerts go into a bounded store under a mutex, counters into atomics, and a
  REST API reads both.

  \<^bold>\<open>Theories and the code they model.\<close>

  \<^item> \<open>Prelude\<close>: integer widths as type synonyms (\<open>usize\<close>, \<open>u64\<close> and \<open>i64\<close> are 64-bit words, times and durations
    natural numbers of nanoseconds), bounds-checked list access \<open>nth_opt\<close>, byte strings, decimal output.
  \<^item> \<open>Models\<close> (\<^verbatim>\<open>models.rs\<close>): events, alerts, the FNV hashes \<open>flow_key\<close> and \<open>shard_key\<close>, dotted quads.
  \<^item> \<open>MpmcQueue\<close> (\<^verbatim>\<open>queue.rs\<close>): the ring buffer. \<open>push_step\<close> and \<open>pop_step\<close> are the atomic accesses of \<^verbatim>\<open>push\<close> and
    \<^verbatim>\<open>pop\<close>, one program point per access, with the spurious failures of the weak compare-exchange; \<open>push\<close> and
    \<open>pop\<close> are their undisturbed runs. The locale \<open>bounded_fifo\<close> states what a client may rely on, and its
    interpretation \<open>mpmc\<close> proves it of the ring buffer for every power-of-two capacity from two on.
  \<^item> \<open>QueueConcurrent\<close>: any number of threads interleaving those accesses, an inductive step relation with an
    invariant that assigns every position to its producer, its consumer or nobody.
  \<^item> \<open>QueueSpsc\<close>: the queue with one producer and one consumer, as the pipeline uses it, refines an atomic queue:
    \<open>as_fifo\<close> maps a configuration to it and \<open>fifo_acts\<close> names the step at which each call takes effect.
  \<^item> \<open>QueueWeak\<close>: the same code on a release/acquire machine with the orderings its source names. Each atomic
    location has a history of messages and each thread a view of what it may no longer overlook; a load may be
    stale. \<open>sc_conf\<close> reads the newest messages as a queue of \<open>QueueConcurrent\<close>, whose history lemmas then apply.
  \<^item> \<open>StressTest\<close>: the concurrent stress test of \<^verbatim>\<open>queue.rs\<close>, over \<open>QueueWeak\<close>, for any numbers of threads and items.
  \<^item> \<open>CountMin\<close>, \<open>HLL\<close>, \<open>F64\<close> (\<^verbatim>\<open>detection/anomaly.rs\<close>): the two sketches. \<open>F64\<close> is double-precision arithmetic as
    rational arithmetic rounded to 53 bits; the locale \<open>freq_sketch\<close> is the contract of a frequency sketch.
  \<^item> \<open>Detector\<close>: the contract the three detectors share, the locale \<open>event_detector\<close>; it is interpreted in
    \<open>Anomaly\<close>, \<open>Cep\<close> and \<open>SignatureScan\<close> on the code's models and used by \<open>Pipeline\<close>.
  \<^item> \<open>Anomaly\<close>, \<open>AnomalyInterval\<close> (\<^verbatim>\<open>detection/anomaly.rs\<close>): the windowed detector. The clock readings of a call are
    arguments: one for the test of the window, one for the new window's start.
  \<^item> \<open>Utf8\<close>, \<open>Cep\<close> (\<^verbatim>\<open>detection/cep.rs\<close>): lossy decoding, conditions, rules, partial matches and the engine, for
    arbitrary rule lists; the default rule is \<open>default_cep_rule\<close>.
  \<^item> \<open>SignatureScan\<close> (\<^verbatim>\<open>detection/signature.rs\<close>): the signature detector over an automaton given by its contract.
  \<^item> \<open>UnitTests\<close>: the unit tests of these files as programs over the model.
  \<^item> \<open>Pipeline\<close>, \<open>PipelineRuns\<close>, \<open>PipelineProps\<close> (\<^verbatim>\<open>pipeline.rs\<close>, the constants and wiring of \<^verbatim>\<open>main.rs\<close>): shared state,
    producer, workers and alert store. \<open>perform\<close> executes one action of one thread and reports a label,
    \<open>reach\<close> is every interleaving, \<open>effect\<close> the specification of a label over plain lists, and \<open>run_inv\<close> what
    the labels of a run say about the state it reaches.
  \<^item> \<open>Ingestion\<close>, \<open>Quiet\<close> (\<^verbatim>\<open>ingestion.rs\<close>): the simulator, and its ordinary traffic in the pipeline.
  \<^item> \<open>Engine\<close> (\<^verbatim>\<open>pipeline.rs\<close>, the loops): \<open>producer_step\<close> draws batches from the simulator and routes them event by
    event, \<open>worker_step\<close> is a step of a worker, \<open>engine_reach\<close> their interleavings; \<open>labels\<close> maps a run to the pipeline.
  \<^item> \<open>Threads\<close> (\<^verbatim>\<open>pipeline.rs\<close>, the loops again): the same threads with nothing merged. \<open>producer_next\<close> and \<open>worker_next\<close>
    take one step at a time: an atomic access of \<^verbatim>\<open>push\<close> or \<^verbatim>\<open>pop\<close>, a counter, a detector call, half of a
    \<^verbatim>\<open>record_alert\<close>. \<open>explains\<close> relates their states to those of \<open>Engine\<close>; \<open>finish\<close> is what a worker has left to do.
    \<open>ThreadsProgress\<close> follows one thread while the others stand still.
  \<^item> \<open>Api\<close> (\<^verbatim>\<open>api.rs\<close>): authentication and the endpoints.
  \<^item> \<open>AlertLock\<close> (\<^verbatim>\<open>record_alert\<close> of \<^verbatim>\<open>pipeline.rs\<close>, the handler \<^verbatim>\<open>alerts\<close> of \<^verbatim>\<open>api.rs\<close>): the mutex of the alert store. What is
    one step in \<open>Threads\<close> is taking the lock, \<^verbatim>\<open>push_back\<close>, the trimming and the release here, and a thread that
    finds the lock taken waits. \<open>unlocked\<close> maps a state with the lock to one of \<open>Threads\<close>: the section takes effect
    at its \<^verbatim>\<open>push_back\<close>, so that every run with the lock is a run without it.
  \<^item> \<open>Startup\<close> (\<^verbatim>\<open>main.rs\<close>): \<open>main\<close> up to the first request, with what it logs.

  \<^bold>\<open>What the theorems show.\<close> The queue is a bounded FIFO (refinement), and with concurrent threads no slot is
  accessed by two at once, nothing is lost or duplicated and one order explains all threads. The orderings of
  the source are enough for this: no execution of \<open>QueueWeak\<close> has a data race on a slot's value, although a pop may
  overlook a finished push. With one producer and one consumer interleaved calls are atomic. The Count-Min
  sketch never under-counts; the HyperLogLog estimate crosses the scan threshold exactly at 25 touched
  buckets. A flood is reported once per window, a scan exactly from the threshold on; behind each sequence
  alert stands a sequence of events. Composed: no interleaving panics, events of a source reach one worker in
  order and without loss, each worker's alerts are those of three sequential detectors, floods and
  probe-then-exploit sequences are reported, ordinary traffic is not, the store holds the newest 5000 alerts
  and \<^verbatim>\<open>/alerts\<close> shows them, and the protected endpoints open to the bearer token only. End to end: the engine of
  \<^verbatim>\<open>main\<close> starts with empty queues, runs the pipeline on the simulator's batches, raises no alert before the first
  injected attack, reports the probe and exploit of every batch number divisible by 900 if nothing is dropped and
  no worker stalls; every interleaving of its atomic accesses is explained by such a run (refinement), no
  thread gets stuck, and the lock of the alert store is all that one can wait for another at; and the token \<^verbatim>\<open>main\<close> logs is the one that opens the API.

  \<^bold>\<open>Errors.\<close> A panic, an out-of-range index or a failed \<^verbatim>\<open>unwrap\<close> is \<open>None\<close>, or a panicked program point in the queue;
  \<^verbatim>\<open>Err(item)\<close> of \<^verbatim>\<open>push\<close> is \<open>Inl item\<close>. No step under the lock of the alert store panics, so that it is never poisoned. Counters and ids wrap as in a release build.

  \<^bold>\<open>Fuel.\<close> Only \<open>push_run\<close> and \<open>pop_run\<close> have fuel; \<open>push_returns_despite_spurious_failures\<close> shows that five steps and
  two more per spurious failure are enough when no other thread interferes.

  \<^bold>\<open>Parameters.\<close> Code outside the repository is an argument: the hasher of \<^verbatim>\<open>rustc_hash\<close> (nothing is assumed of it), the
  automaton of \<^verbatim>\<open>aho_corasick\<close> (\<open>overlapping_search\<close>: the five default patterns build, and a search reports each
  pattern once per occurrence), the platform's logarithm
  (\<open>ln_accurate\<close>: within a millionth between one half and two), the random generator of \<^verbatim>\<open>rand\<close> and the clock (\<open>env_ok\<close>:
  draws lie in their range, the time is after 1970), and header decoding of \<^verbatim>\<open>http\<close> (\<open>to_str_ok\<close>).

  \<^bold>\<open>Bounds.\<close> Statements about concurrent queues, and those of \<open>Threads\<close>, hold for capacities from 2 to 2^62 and runs of
  at most 2^62 atomic steps: beyond, the position counters could wrap.

  \<^bold>\<open>Memory.\<close> In \<open>QueueWeak\<close> a store is appended to the history of its location, which \<open>stores_are_coherent\<close> justifies
  for the sequence numbers and atomicity of the compare-exchange for the counters, and a load returns a message
  already stored. The progress theorems are about interleavings: under weak memory they depend on stores becoming
  visible in finite time. In \<open>Pipeline\<close> and \<open>Engine\<close> a completed push, pop or pass of the detectors is one
  action; \<open>Threads\<close> shows that no interleaving of the atomic accesses does anything else. Under the weaker orderings a
  stale load may besides make a pop return \<open>None\<close>, so that the worker looks again later, and a push reject an event
  although the worker has just freed a slot. The counters and the store of alerts are read in one order.

  \<^bold>\<open>Not modelled.\<close> Sleeping and yielding do nothing. Request parsing, JSON, CORS and serving are the work of libraries,
  as is the format of the log; the dashboard, the analysis scripts and the eBPF reference program are not part of
  the engine. Of the unit tests, \<^verbatim>\<open>hyperloglog_estimates_within_reasonable_error\<close> is modelled without a theorem that it
  passes, since that depends on the hash values of crate \<^verbatim>\<open>rustc_hash\<close>.
\<close>

end
